(* ===== verification/MW_Prelude.thy ===== *)
theory MW_Prelude
  imports Main "HOL-Library.Word" "HOL-Library.AList" "HOL-Library.Monad_Syntax"
begin

text \<open>
  Shared ground of the development: the machine integers of the Rust code, saturating
  arithmetic on them, the two clocks of the standard library, hash maps as association
  lists, checked indexing, and the generic lemmas the components use.

  Conventions. A Rust function that can panic returns an \<open>option\<close> here and \<open>None\<close> is the
  panic; a \<open>Result\<close> is a sum with \<open>Inl\<close> the error. A \<open>HashMap\<close> is an association list with
  distinct keys, and the order of that list stands for the unspecified iteration order.
\<close>

section \<open>Machine integers\<close>

type_synonym u8 = "8 word"
type_synonym u16 = "16 word"
type_synonym u32 = "32 word"
type_synonym u64 = "64 word"

named_theorems sat_simps
named_theorems hm_simps

text \<open>\<open>saturating_add\<close> and \<open>saturating_sub\<close> of the unsigned integer types.\<close>

definition sat_add :: "'a::len word \<Rightarrow> 'a word \<Rightarrow> 'a word" where
  "sat_add a b = (if unat a + unat b < 2 ^ LENGTH('a) then a + b else - 1)"

definition sat_sub :: "'a::len word \<Rightarrow> 'a word \<Rightarrow> 'a word" where
  "sat_sub a b = (if b \<le> a then a - b else 0)"

section \<open>Clocks\<close>

text \<open>
  An \<open>Instant\<close> is a reading of the monotonic clock in nanoseconds, a \<open>Duration\<close> a number of
  nanoseconds. On Linux an \<open>Instant\<close> holds its seconds in an \<open>i64\<close>, so adding a duration
  panics from \<open>2 ^ 63\<close> seconds on.
\<close>

type_synonym instant = nat
type_synonym duration = nat

definition nanos_per_sec :: nat where
  "nanos_per_sec = 1000000000"

definition instant_limit :: nat where
  "instant_limit = 2 ^ 63 * nanos_per_sec"

definition dur_from_secs :: "u64 \<Rightarrow> duration" where
  "dur_from_secs s = unat s * nanos_per_sec"

definition dur_as_secs :: "duration \<Rightarrow> nat" where
  "dur_as_secs d = d div nanos_per_sec"

definition instant_add :: "instant \<Rightarrow> duration \<Rightarrow> instant option" where
  "instant_add t d = (if t + d < instant_limit then Some (t + d) else None)"

text \<open>\<open>Instant::duration_since\<close> and \<open>saturating_duration_since\<close>: zero when the other is later.\<close>

definition duration_since :: "instant \<Rightarrow> instant \<Rightarrow> duration" where
  "duration_since now earlier = now - earlier"

section \<open>Hash maps\<close>

type_synonym ('k, 'v) hmap = "('k \<times> 'v) list"

definition hm_get :: "('k, 'v) hmap \<Rightarrow> 'k \<Rightarrow> 'v option" where
  "hm_get m k = map_of m k"

definition hm_insert :: "'k \<Rightarrow> 'v \<Rightarrow> ('k, 'v) hmap \<Rightarrow> ('k, 'v) hmap" where
  "hm_insert k v m = AList.update k v m"

definition hm_remove :: "'k \<Rightarrow> ('k, 'v) hmap \<Rightarrow> ('k, 'v) hmap" where
  "hm_remove k m = AList.delete k m"

definition hm_keys :: "('k, 'v) hmap \<Rightarrow> 'k list" where
  "hm_keys m = map fst m"

definition hm_contains :: "('k, 'v) hmap \<Rightarrow> 'k \<Rightarrow> bool" where
  "hm_contains m k = (k \<in> set (hm_keys m))"

text \<open>\<open>get(..).copied().unwrap_or(d)\<close>, also the value that \<open>entry(..).or_insert(d)\<close> yields.\<close>

definition hm_get_or :: "('k, 'v) hmap \<Rightarrow> 'k \<Rightarrow> 'v \<Rightarrow> 'v" where
  "hm_get_or m k d = (case hm_get m k of Some v \<Rightarrow> v | None \<Rightarrow> d)"

definition hm_wf :: "('k, 'v) hmap \<Rightarrow> bool" where
  "hm_wf m = distinct (hm_keys m)"

section \<open>Checked indexing and slicing\<close>

definition idx :: "'a list \<Rightarrow> nat \<Rightarrow> 'a option" where
  "idx xs i = (if i < length xs then Some (xs ! i) else None)"

definition slice_from :: "'a list \<Rightarrow> nat \<Rightarrow> 'a list option" where
  "slice_from xs i = (if i \<le> length xs then Some (drop i xs) else None)"

definition sub_slice :: "'a list \<Rightarrow> nat \<Rightarrow> nat \<Rightarrow> 'a list option" where
  "sub_slice xs i j = (if i \<le> j \<and> j \<le> length xs then Some (take (j - i) (drop i xs)) else None)"

section \<open>Lemmas on saturating arithmetic\<close>

lemma unat_bound: "unat a < 2 ^ LENGTH('a)" for a :: "'a::len word"
  by (rule unsigned_less)

lemma unat_sat_add [sat_simps]:
  "unat (sat_add a b) = min (unat a + unat b) (2 ^ LENGTH('a) - 1)" for a b :: "'a::len word"
proof (cases "unat a + unat b < 2 ^ LENGTH('a)")
  case True
  then show ?thesis by (simp add: sat_add_def unat_word_ariths)
next
  case False
  then show ?thesis by (simp add: sat_add_def unsigned_minus_1_eq_mask mask_eq_exp_minus_1)
qed

lemma unat_sat_sub [sat_simps]: "unat (sat_sub a b) = unat a - unat b"
proof (cases "b \<le> a")
  case True
  then show ?thesis by (simp add: sat_sub_def unat_sub)
next
  case False
  then have "unat a < unat b" by (simp add: word_le_nat_alt)
  with False show ?thesis by (simp add: sat_sub_def)
qed

lemma unat_le_mask: "unat a \<le> 2 ^ LENGTH('a) - 1" for a :: "'a::len word"
  using unat_bound [of a] by linarith

lemma min_add_assoc: "min (min (x + y) m + z) m = min (x + min (y + z) m) m"
  for x y z m :: nat
  by arith

lemma sat_add_zero [simp]: "sat_add a 0 = a" "sat_add 0 a = a"
  using unat_bound [of a] by (simp_all add: sat_add_def)

lemma sat_add_commute: "sat_add a b = sat_add b a"
  by (simp add: sat_add_def add.commute)

lemma sat_add_assoc: "sat_add (sat_add a b) c = sat_add a (sat_add b c)"
  for a b c :: "'a::len word"
proof -
  have "unat (sat_add (sat_add a b) c) = unat (sat_add a (sat_add b c))"
    by (simp add: sat_simps min_add_assoc)
  then show ?thesis by (simp add: word_unat_eq_iff)
qed

lemma sat_add_left_commute: "sat_add a (sat_add b c) = sat_add b (sat_add a c)"
  by (metis sat_add_assoc sat_add_commute)

lemmas sat_add_ac = sat_add_assoc sat_add_commute sat_add_left_commute

lemma sat_add_mono: "a \<le> sat_add a b" for a b :: "'a::len word"
  using unat_le_mask [of a] by (simp add: word_le_nat_alt sat_simps)

lemma sat_add_sat_sub: "prev \<le> cur \<Longrightarrow> sat_add prev (sat_sub cur prev) = cur"
  for prev cur :: "'a::len word"
proof -
  assume "prev \<le> cur"
  then have "unat (sat_add prev (sat_sub cur prev)) = unat cur"
    using unat_le_mask [of cur] by (simp add: sat_simps word_le_nat_alt)
  then show ?thesis by (simp add: word_unat_eq_iff)
qed

lemma sat_sub_zero_iff: "sat_sub a b = 0 \<longleftrightarrow> a \<le> b" for a b :: "'a::len word"
proof -
  have "sat_sub a b = 0 \<longleftrightarrow> unat (sat_sub a b) = 0" by (simp add: unat_eq_0)
  then show ?thesis by (simp add: sat_simps word_le_nat_alt)
qed

lemma max_word_unat: "unat (max a b) = max (unat a) (unat b)" for a b :: "'a::len word"
  by (simp add: max_def word_le_nat_alt)

section \<open>Saturating sums\<close>

definition sat_sum :: "'a::len word list \<Rightarrow> 'a word" where
  "sat_sum xs = foldr sat_add xs 0"

lemma sat_sum_simps [simp]: "sat_sum [] = 0" "sat_sum (x # xs) = sat_add x (sat_sum xs)"
  by (simp_all add: sat_sum_def)

lemma sat_sum_append: "sat_sum (xs @ ys) = sat_add (sat_sum xs) (sat_sum ys)"
  by (induction xs) (simp_all add: sat_add_assoc)

lemma foldl_sat_add: "foldl sat_add a xs = sat_add a (sat_sum xs)"
  by (induction xs arbitrary: a) (simp_all add: sat_add_assoc)

lemma sat_sum_rev: "sat_sum (rev xs) = sat_sum xs"
  by (induction xs) (simp_all add: sat_sum_append sat_add_commute)

lemma unat_sat_sum: "unat (sat_sum xs) = min (sum_list (map unat xs)) (2 ^ LENGTH('a) - 1)"
  for xs :: "'a::len word list"
  by (induction xs) (auto simp: sat_simps)

lemma sat_sum_filter_mono:
  assumes "\<And>x. x \<in> set xs \<Longrightarrow> P x \<Longrightarrow> Q x"
  shows "sat_sum (map f (filter P xs)) \<le> sat_sum (map f (filter Q xs))"
proof -
  have "sum_list (map unat (map f (filter P xs))) \<le> sum_list (map unat (map f (filter Q xs)))"
    using assms by (induction xs) auto
  then show ?thesis by (auto simp: word_le_nat_alt unat_sat_sum min_def)
qed

lemma sat_sum_zero: "(\<And>x. x \<in> set xs \<Longrightarrow> x = 0) \<Longrightarrow> sat_sum xs = 0"
  by (induction xs) auto

section \<open>Lemmas on hash maps\<close>

lemma hm_get_insert [hm_simps]:
  "hm_get (hm_insert k v m) k' = (if k' = k then Some v else hm_get m k')"
  by (simp add: hm_get_def hm_insert_def update_conv')

lemma hm_get_remove [hm_simps]:
  "hm_get (hm_remove k m) k' = (if k' = k then None else hm_get m k')"
  by (simp add: hm_get_def hm_remove_def delete_conv')

lemma hm_get_Nil [hm_simps]: "hm_get [] k = None"
  by (simp add: hm_get_def)

lemma hm_get_Cons [hm_simps]:
  "hm_get ((k, v) # m) k' = (if k' = k then Some v else hm_get m k')"
  by (auto simp: hm_get_def)

lemma hm_keys_dom: "set (hm_keys m) = dom (hm_get m)"
  by (simp add: hm_keys_def hm_get_def dom_def map_of_eq_None_iff)

lemma hm_contains_get [hm_simps]: "hm_contains m k \<longleftrightarrow> hm_get m k \<noteq> None"
  by (auto simp: hm_contains_def hm_keys_dom)

lemma hm_keys_insert [hm_simps]: "set (hm_keys (hm_insert k v m)) = insert k (set (hm_keys m))"
  by (auto simp: hm_keys_dom dom_def hm_simps)

lemma hm_keys_remove [hm_simps]: "set (hm_keys (hm_remove k m)) = set (hm_keys m) - {k}"
  by (auto simp: hm_keys_dom dom_def hm_simps)

lemma hm_wf_Nil [simp]: "hm_wf []"
  by (simp add: hm_wf_def hm_keys_def)

lemma hm_wf_insert [simp]: "hm_wf m \<Longrightarrow> hm_wf (hm_insert k v m)"
  by (simp add: hm_wf_def hm_keys_def hm_insert_def distinct_update)

lemma hm_wf_remove [simp]: "hm_wf m \<Longrightarrow> hm_wf (hm_remove k m)"
  by (simp add: hm_wf_def hm_keys_def hm_remove_def distinct_delete)

lemma hm_get_or_simps [hm_simps]:
  "hm_get m k = Some v \<Longrightarrow> hm_get_or m k d = v"
  "hm_get m k = None \<Longrightarrow> hm_get_or m k d = d"
  by (simp_all add: hm_get_or_def)

lemma hm_mem_get: "hm_wf m \<Longrightarrow> (k, v) \<in> set m \<longleftrightarrow> hm_get m k = Some v"
  by (simp add: hm_wf_def hm_keys_def hm_get_def)

lemma hm_get_mem: "hm_get m k = Some v \<Longrightarrow> (k, v) \<in> set m"
  by (simp add: hm_get_def map_of_SomeD)

section \<open>Lemmas on lists\<close>

lemma slice_from_ok: "i \<le> length xs \<Longrightarrow> slice_from xs i = Some (drop i xs)"
  by (simp add: slice_from_def)

lemma idx_ok: "i < length xs \<Longrightarrow> idx xs i = Some (xs ! i)"
  by (simp add: idx_def)

lemma sub_slice_ok: "i \<le> j \<Longrightarrow> j \<le> length xs \<Longrightarrow> sub_slice xs i j = Some (take (j - i) (drop i xs))"
  by (simp add: sub_slice_def)

lemmas checked_access = slice_from_ok idx_ok sub_slice_ok

end
