(* ===== verification/Rust_Str.thy ===== *)
theory Rust_Str
  imports MW_Prelude "HOL-Library.Sublist"
begin

text \<open>
  The parts of Rust's \<open>str\<close> API the program uses. A \<open>str\<close> is a \<open>string\<close> of UTF-8 bytes, as in
  Rust: \<open>length\<close> is \<open>str::len\<close>, and \<open>str_chars\<close> cuts the bytes at character boundaries. The
  second half proves the facts the parsers need: splitting undoes joining, and reading a
  number undoes printing it.
\<close>

section \<open>Bytes and characters\<close>

definition byte_of :: "char \<Rightarrow> nat" where
  "byte_of c = of_char c"

definition char_of_u8 :: "u8 \<Rightarrow> char" where
  "char_of_u8 b = char_of (unat b)"

definition is_ascii_alphabetic :: "nat \<Rightarrow> bool" where
  "is_ascii_alphabetic b \<longleftrightarrow> 65 \<le> b \<and> b \<le> 90 \<or> 97 \<le> b \<and> b \<le> 122"

definition ascii_lower :: "char \<Rightarrow> char" where
  "ascii_lower c = (if 65 \<le> byte_of c \<and> byte_of c \<le> 90 then char_of (byte_of c + 32) else c)"

definition to_ascii_lowercase :: "string \<Rightarrow> string" where
  "to_ascii_lowercase s = map ascii_lower s"

definition eq_ignore_ascii_case :: "string \<Rightarrow> string \<Rightarrow> bool" where
  "eq_ignore_ascii_case s t \<longleftrightarrow> to_ascii_lowercase s = to_ascii_lowercase t"

section \<open>UTF-8\<close>

definition utf8_cont :: "nat \<Rightarrow> bool" where
  "utf8_cont b \<longleftrightarrow> 0x80 \<le> b \<and> b \<le> 0xBF"

text \<open>The bytes that may follow a lead byte of a three- or four-byte sequence.\<close>

definition utf8_second3 :: "nat \<Rightarrow> nat \<Rightarrow> bool" where
  "utf8_second3 a b \<longleftrightarrow>
     (a = 0xE0 \<and> 0xA0 \<le> b \<and> b \<le> 0xBF) \<or>
     (0xE1 \<le> a \<and> a \<le> 0xEC \<and> utf8_cont b) \<or>
     (a = 0xED \<and> 0x80 \<le> b \<and> b \<le> 0x9F) \<or>
     (0xEE \<le> a \<and> a \<le> 0xEF \<and> utf8_cont b)"

definition utf8_second4 :: "nat \<Rightarrow> nat \<Rightarrow> bool" where
  "utf8_second4 a b \<longleftrightarrow>
     (a = 0xF0 \<and> 0x90 \<le> b \<and> b \<le> 0xBF) \<or>
     (0xF1 \<le> a \<and> a \<le> 0xF3 \<and> utf8_cont b) \<or>
     (a = 0xF4 \<and> 0x80 \<le> b \<and> b \<le> 0x8F)"

fun utf8_valid :: "nat list \<Rightarrow> bool" where
  "utf8_valid [] = True"
| "utf8_valid (a # r) =
     (if a < 0x80 then utf8_valid r
      else if 0xC2 \<le> a \<and> a \<le> 0xDF then
        (case r of b # r2 \<Rightarrow> utf8_cont b \<and> utf8_valid r2 | _ \<Rightarrow> False)
      else if 0xE0 \<le> a \<and> a \<le> 0xEF then
        (case r of b # c # r3 \<Rightarrow> utf8_second3 a b \<and> utf8_cont c \<and> utf8_valid r3 | _ \<Rightarrow> False)
      else
        (case r of b # c # d # r4 \<Rightarrow>
           utf8_second4 a b \<and> utf8_cont c \<and> utf8_cont d \<and> utf8_valid r4
         | _ \<Rightarrow> False))"

definition from_utf8 :: "u8 list \<Rightarrow> string option" where
  "from_utf8 bs = (if utf8_valid (map unat bs) then Some (map char_of_u8 bs) else None)"

text \<open>\<open>char::to_string\<close> of a code point below 256.\<close>

definition latin1_to_string :: "nat \<Rightarrow> string" where
  "latin1_to_string b =
     (if b < 0x80 then [char_of b] else [char_of (0xC0 + b div 64), char_of (0x80 + b mod 64)])"

definition utf8_width :: "char \<Rightarrow> nat" where
  "utf8_width c =
     (if byte_of c < 0x80 then 1 else if byte_of c < 0xE0 then 2
      else if byte_of c < 0xF0 then 3 else 4)"

function str_chars :: "string \<Rightarrow> string list" where
  "str_chars [] = []"
| "str_chars (c # cs) =
     (c # take (utf8_width c - 1) cs) # str_chars (drop (utf8_width c - 1) cs)"
  by pat_completeness auto
termination
  by (relation "measure length") auto

text \<open>\<open>char::is_whitespace\<close> on one character given by its bytes.\<close>

definition is_whitespace :: "string \<Rightarrow> bool" where
  "is_whitespace ch = (case map byte_of ch of
      [a] \<Rightarrow> 9 \<le> a \<and> a \<le> 13 \<or> a = 32
    | [a, b] \<Rightarrow> a = 0xC2 \<and> (b = 0x85 \<or> b = 0xA0)
    | [a, b, c] \<Rightarrow>
        (a = 0xE1 \<and> b = 0x9A \<and> c = 0x80) \<or>
        (a = 0xE2 \<and> b = 0x80 \<and> (0x80 \<le> c \<and> c \<le> 0x8A \<or> c = 0xA8 \<or> c = 0xA9 \<or> c = 0xAF)) \<or>
        (a = 0xE2 \<and> b = 0x81 \<and> c = 0x9F) \<or>
        (a = 0xE3 \<and> b = 0x80 \<and> c = 0x80)
    | _ \<Rightarrow> False)"

definition trim_chars :: "string list \<Rightarrow> string list" where
  "trim_chars cs = rev (dropWhile is_whitespace (rev (dropWhile is_whitespace cs)))"

definition str_trim :: "string \<Rightarrow> string" where
  "str_trim s = concat (trim_chars (str_chars s))"

section \<open>Splitting\<close>

fun split_once_at :: "char \<Rightarrow> string \<Rightarrow> (string \<times> string) option" where
  "split_once_at c [] = None"
| "split_once_at c (x # xs) =
     (if x = c then Some ([], xs)
      else map_option (\<lambda>(a, b). (x # a, b)) (split_once_at c xs))"

fun split_on :: "('a \<Rightarrow> bool) \<Rightarrow> 'a list \<Rightarrow> 'a list list" where
  "split_on p [] = [[]]"
| "split_on p (x # xs) =
     (if p x then [] # split_on p xs
      else (case split_on p xs of [] \<Rightarrow> [[x]] | y # ys \<Rightarrow> (x # y) # ys))"

definition split_at_char :: "char \<Rightarrow> string \<Rightarrow> string list" where
  "split_at_char c s = split_on (\<lambda>x. x = c) s"

fun split_once_str :: "string \<Rightarrow> string \<Rightarrow> (string \<times> string) option" where
  "split_once_str pat s =
     (if prefix pat s then Some ([], drop (length pat) s)
      else (case s of [] \<Rightarrow> None
            | x # xs \<Rightarrow> map_option (\<lambda>(a, b). (x # a, b)) (split_once_str pat xs)))"

text \<open>\<open>str::split\<close> with a non-empty string pattern.\<close>

function split_str :: "string \<Rightarrow> string \<Rightarrow> string list" where
  "split_str pat s =
     (if pat \<noteq> [] \<and> prefix pat s then [] # split_str pat (drop (length pat) s)
      else (case s of [] \<Rightarrow> [[]]
            | x # xs \<Rightarrow>
                (case split_str pat xs of [] \<Rightarrow> [[x]] | y # ys \<Rightarrow> (x # y) # ys)))"
  by pat_completeness auto
termination
  by (relation "measure (\<lambda>(p, s). length s)") (auto simp: prefix_def)

definition split_whitespace :: "string \<Rightarrow> string list" where
  "split_whitespace s =
     map concat (filter (\<lambda>w. w \<noteq> []) (split_on is_whitespace (str_chars s)))"

fun join_with :: "'a list \<Rightarrow> 'a list list \<Rightarrow> 'a list" where
  "join_with sep [] = []"
| "join_with sep [x] = x"
| "join_with sep (x # y # ys) = x @ sep @ join_with sep (y # ys)"

section \<open>Numbers as text\<close>

definition digit_char :: "nat \<Rightarrow> char" where
  "digit_char d = (if d < 10 then char_of (48 + d) else char_of (87 + d))"

text \<open>\<open>{}\<close> for radix 10 and \<open>{:x}\<close> for radix 16.\<close>

function fmt_radix :: "nat \<Rightarrow> nat \<Rightarrow> string" where
  "fmt_radix r n =
     (if r \<le> 1 \<or> n < r then [digit_char n] else fmt_radix r (n div r) @ [digit_char (n mod r)])"
  by pat_completeness auto
termination
proof (relation "measure snd")
  show "\<And>r n. \<not> (r \<le> 1 \<or> n < r) \<Longrightarrow> ((r, n div r), r, n) \<in> measure snd"
    by auto
qed simp

definition fmt_dec :: "nat \<Rightarrow> string" where
  "fmt_dec n = fmt_radix 10 n"

definition fmt_hex :: "nat \<Rightarrow> string" where
  "fmt_hex n = fmt_radix 16 n"

text \<open>\<open>{:02x}\<close> of a byte.\<close>

definition fmt_02x :: "u8 \<Rightarrow> string" where
  "fmt_02x b = [digit_char (unat b div 16), digit_char (unat b mod 16)]"

text \<open>\<open>char::to_digit\<close>.\<close>

definition to_digit :: "nat \<Rightarrow> char \<Rightarrow> nat option" where
  "to_digit r c =
     (let b = byte_of c;
          d = (if 48 \<le> b \<and> b \<le> 57 then b - 48
               else if 97 \<le> b \<and> b \<le> 122 then b - 87
               else if 65 \<le> b \<and> b \<le> 90 then b - 55 else r)
      in if d < r then Some d else None)"

text \<open>The checked multiply-and-add loop of \<open>from_str_radix\<close> for a type with largest value \<open>m\<close>.\<close>

fun parse_digits :: "nat \<Rightarrow> nat \<Rightarrow> nat \<Rightarrow> string \<Rightarrow> nat option" where
  "parse_digits r m acc [] = Some acc"
| "parse_digits r m acc (c # cs) =
     (case to_digit r c of None \<Rightarrow> None
      | Some d \<Rightarrow> if acc * r + d \<le> m then parse_digits r m (acc * r + d) cs else None)"

text \<open>\<open>from_str_radix\<close> of an unsigned type: a leading plus sign is accepted, an empty number is not.\<close>

definition from_str_radix :: "nat \<Rightarrow> nat \<Rightarrow> string \<Rightarrow> nat option" where
  "from_str_radix r m s =
     (let ds = (case s of [] \<Rightarrow> [] | c # cs \<Rightarrow> if c = CHR ''+'' then cs else s)
      in if ds = [] then None else parse_digits r m 0 ds)"

section \<open>Lemmas on splitting\<close>

lemma split_on_nonempty [simp]: "split_on p s \<noteq> []"
  by (cases s) (auto split: list.splits)

lemma split_on_none: "(\<And>x. x \<in> set s \<Longrightarrow> \<not> p x) \<Longrightarrow> split_on p s = [s]"
  by (induction s) auto

lemma split_on_append:
  "(\<And>x. x \<in> set s \<Longrightarrow> \<not> p x) \<Longrightarrow> p c \<Longrightarrow> split_on p (s @ c # t) = s # split_on p t"
  by (induction s) auto

lemma split_on_join:
  "parts \<noteq> [] \<Longrightarrow> (\<And>w. w \<in> set parts \<Longrightarrow> c \<notin> set w) \<Longrightarrow>
     split_on (\<lambda>x. x = c) (join_with [c] parts) = parts"
proof (induction "[c]" parts rule: join_with.induct)
  case (2 x)
  then show ?case by (auto intro!: split_on_none)
next
  case (3 x y ys)
  then have "split_on (\<lambda>z. z = c) (x @ c # join_with [c] (y # ys)) =
      x # split_on (\<lambda>z. z = c) (join_with [c] (y # ys))"
    by (intro split_on_append) auto
  with 3 show ?case by simp
qed simp

lemma split_on_parts: "w \<in> set (split_on p s) \<Longrightarrow> x \<in> set w \<Longrightarrow> x \<in> set s \<and> \<not> p x"
proof (induction s arbitrary: w)
  case (Cons a s)
  show ?case
  proof (cases "split_on p s")
    case Nil
    then show ?thesis by simp
  next
    case (Cons y ys)
    with Cons.prems Cons.IH [of y] Cons.IH [of w] show ?thesis by (auto split: if_splits)
  qed
qed simp

lemma split_on_length: "sum_list (map length (split_on p s)) \<le> length s"
proof (induction s)
  case (Cons x xs)
  then show ?case by (cases "split_on p xs") auto
qed simp

lemma split_once_at_None: "split_once_at c s = None \<longleftrightarrow> c \<notin> set s"
  by (induction s) auto

lemma split_once_at_Some: "split_once_at c s = Some (a, b) \<Longrightarrow> s = a @ c # b \<and> c \<notin> set a"
  by (induction s arbitrary: a b) (auto split: if_splits)

lemma split_once_at_append: "c \<notin> set a \<Longrightarrow> split_once_at c (a @ c # b) = Some (a, b)"
  by (induction a) auto

lemma concat_str_chars [simp]: "concat (str_chars s) = s"
  by (induction s rule: str_chars.induct) auto

lemma str_chars_nonempty: "w \<in> set (str_chars s) \<Longrightarrow> w \<noteq> []"
  by (induction s rule: str_chars.induct) auto

lemma trim_chars_subseq: "set (trim_chars cs) \<subseteq> set cs"
  unfolding trim_chars_def using set_dropWhileD by (fastforce dest: set_dropWhileD)

lemma str_trim_length: "length (str_trim s) \<le> length s"
proof -
  have drop_le: "length (concat (dropWhile p ws)) \<le> length (concat ws)" for p and ws :: "string list"
    by (induction ws) auto
  have rev_eq: "length (concat (rev ws)) = length (concat ws)" for ws :: "string list"
    by (induction ws) auto
  have "length (concat (trim_chars (str_chars s))) \<le> length (concat (str_chars s))"
    unfolding trim_chars_def using drop_le rev_eq by (metis (no_types, lifting) le_trans)
  then show ?thesis by (simp add: str_trim_def)
qed

section \<open>Lemmas on numbers\<close>

lemma byte_of_char_of [simp]: "byte_of (char_of n) = n mod 256"
  by (simp add: byte_of_def)

lemma digit_char_byte: "d < 16 \<Longrightarrow> byte_of (digit_char d) = (if d < 10 then 48 + d else 87 + d)"
  by (simp add: digit_char_def)

lemma to_digit_digit_char: "d < r \<Longrightarrow> r \<le> 16 \<Longrightarrow> to_digit r (digit_char d) = Some d"
  by (auto simp: to_digit_def digit_char_byte Let_def)

lemma parse_digits_append:
  "parse_digits r m acc (s @ t) =
     (case parse_digits r m acc s of None \<Rightarrow> None | Some a \<Rightarrow> parse_digits r m a t)"
  by (induction s arbitrary: acc) (auto split: option.splits)

declare fmt_radix.simps [simp del]

lemma parse_fmt_radix:
  assumes "1 < r" "r \<le> 16" "n \<le> m"
  shows "parse_digits r m 0 (fmt_radix r n) = Some n"
  using assms
proof (induction r n rule: fmt_radix.induct)
  case (1 r n)
  show ?case
  proof (cases "n < r")
    case True
    with 1 show ?thesis by (subst fmt_radix.simps) (simp add: to_digit_digit_char)
  next
    case False
    have "n div r \<le> m" using "1.prems" by (meson div_le_dividend le_trans)
    with 1 False have "parse_digits r m 0 (fmt_radix r (n div r)) = Some (n div r)" by simp
    with False "1.prems" show ?thesis
      by (subst fmt_radix.simps) (simp add: parse_digits_append to_digit_digit_char)
  qed
qed

lemma fmt_radix_digits:
  "1 < r \<Longrightarrow> r \<le> 16 \<Longrightarrow> c \<in> set (fmt_radix r n) \<Longrightarrow> \<exists>d < r. c = digit_char d"
proof (induction r n rule: fmt_radix.induct)
  case (1 r n)
  show ?case
  proof (cases "n < r")
    case True
    with "1.prems" show ?thesis by (auto simp: fmt_radix.simps [of r n])
  next
    case False
    with "1.prems" consider "c \<in> set (fmt_radix r (n div r))" | "c = digit_char (n mod r)"
      by (auto simp: fmt_radix.simps [of r n])
    then show ?thesis
    proof cases
      case 1
      with "1.IH" "1.prems" False show ?thesis by simp
    next
      case 2
      with "1.prems" show ?thesis by (intro exI [of _ "n mod r"]) simp
    qed
  qed
qed

lemma fmt_radix_nonempty [simp]: "fmt_radix r n \<noteq> []"
  by (subst fmt_radix.simps) simp

lemma digit_char_bytes: "d < 16 \<Longrightarrow> byte_of (digit_char d) \<in> {48..57} \<union> {97..102}"
  by (auto simp: digit_char_byte)

end
