(* ===== verification/Cel_Match.thy ===== *)
theory Cel_Match
  imports Rust_Str
begin

text \<open>
  \<open>crates/mw-core/src/cel_match.rs\<close>: the variables a rule's CEL expression sees, and the
  verdict drawn from its result. The compiler and the interpreter of CEL are a library, so
  they are the two operations of a \<open>cel_api\<close> that every definition using them takes as an
  argument. The lemmas show which variables an expression can read and that anything but the
  value true counts as no match.
\<close>

section \<open>Values and contexts\<close>

datatype ctx_value = CStr string | CInt int | CBool bool | CBytes "u8 list"

datatype cel_value =
    VString string
  | VInt int
  | VBool bool
  | VBytes "u8 list"
  | VList "cel_value list"
  | VMap "(string \<times> cel_value) list"

type_synonym cel_vars = "(string, cel_value) hmap"

record match_context =
  mc_bindings :: "(string, ctx_value) hmap"
  mc_sets :: "(string, string list) hmap"

record 'p cel_api =
  cel_compile :: "string \<Rightarrow> string + 'p"
  cel_execute :: "'p \<Rightarrow> cel_vars \<Rightarrow> string + cel_value"

record 'p compiled_match =
  cm_source :: string
  cm_program :: 'p

definition match_context_default :: match_context where
  "match_context_default = \<lparr>mc_bindings = [], mc_sets = []\<rparr>"

definition set_binding :: "string \<Rightarrow> ctx_value \<Rightarrow> match_context \<Rightarrow> match_context" where
  "set_binding k v ctx = ctx\<lparr>mc_bindings := hm_insert k v (mc_bindings ctx)\<rparr>"

definition set_str :: "string \<Rightarrow> string \<Rightarrow> match_context \<Rightarrow> match_context" where
  "set_str k v = set_binding k (CStr v)"

definition set_int :: "string \<Rightarrow> int \<Rightarrow> match_context \<Rightarrow> match_context" where
  "set_int k v = set_binding k (CInt v)"

definition set_bool :: "string \<Rightarrow> bool \<Rightarrow> match_context \<Rightarrow> match_context" where
  "set_bool k v = set_binding k (CBool v)"

fun to_value :: "ctx_value \<Rightarrow> cel_value" where
  "to_value (CStr s) = VString s"
| "to_value (CInt i) = VInt i"
| "to_value (CBool b) = VBool b"
| "to_value (CBytes b) = VBytes b"

section \<open>Compilation and evaluation\<close>

definition compile_match :: "'p cel_api \<Rightarrow> string \<Rightarrow> string + 'p compiled_match" where
  "compile_match api src =
     (case cel_compile api src of
        Inl e \<Rightarrow> Inl e
      | Inr p \<Rightarrow> Inr \<lparr>cm_source = src, cm_program = p\<rparr>)"

text \<open>One round of the loop over the bindings, on (roots, tops).\<close>

fun add_binding ::
  "(string, (string, cel_value) hmap) hmap \<times> cel_vars \<Rightarrow> string \<times> ctx_value \<Rightarrow>
   (string, (string, cel_value) hmap) hmap \<times> cel_vars" where
  "add_binding (roots, tops) (k, v) =
     (case split_once_at CHR ''.'' k of
        Some (root, rest) \<Rightarrow>
          (hm_insert root (hm_insert rest (to_value v) (hm_get_or roots root [])) roots, tops)
      | None \<Rightarrow> (roots, hm_insert k (to_value v) tops))"

definition sets_map :: "match_context \<Rightarrow> (string, cel_value) hmap" where
  "sets_map ctx = map (\<lambda>(n, members). (n, VList (map VString members))) (mc_sets ctx)"

definition cel_context :: "match_context \<Rightarrow> cel_vars" where
  "cel_context ctx =
     (let (roots, tops) = foldl add_binding ([], []) (mc_bindings ctx);
          vars = foldl (\<lambda>vs (root, flds). hm_insert root (VMap flds) vs) [] roots;
          vars = foldl (\<lambda>vs (k, v). hm_insert k v vs) vars tops
      in hm_insert ''sets'' (VMap (sets_map ctx)) vars)"

definition eval_match :: "'p cel_api \<Rightarrow> 'p compiled_match \<Rightarrow> match_context \<Rightarrow> bool" where
  "eval_match api prog ctx =
     (case cel_execute api (cm_program prog) (cel_context ctx) of
        Inr (VBool b) \<Rightarrow> b
      | Inr _ \<Rightarrow> False
      | Inl _ \<Rightarrow> False)"

section \<open>What an expression can read\<close>

text \<open>The fields of the root variable \<open>x\<close>, or nothing when no dotted binding starts with it.\<close>

definition roots_ok :: "(string, (string, cel_value) hmap) hmap \<Rightarrow> (string \<times> ctx_value) list \<Rightarrow> bool" where
  "roots_ok roots bs \<longleftrightarrow>
     (\<forall>x. CHR ''.'' \<notin> set x \<longrightarrow>
        (case hm_get roots x of
           None \<Rightarrow> \<forall>rest. hm_get bs (x @ CHR ''.'' # rest) = None
         | Some flds \<Rightarrow> (\<exists>rest. hm_get bs (x @ CHR ''.'' # rest) \<noteq> None) \<and>
             (\<forall>rest. hm_get flds rest = map_option to_value (hm_get bs (x @ CHR ''.'' # rest)))))"

definition top_ok :: "cel_vars \<Rightarrow> (string \<times> ctx_value) list \<Rightarrow> bool" where
  "top_ok tops bs \<longleftrightarrow>
     (\<forall>x. hm_get tops x = (if CHR ''.'' \<in> set x then None else map_option to_value (hm_get bs x)))"

definition bindings_ok ::
  "(string, (string, cel_value) hmap) hmap \<times> cel_vars \<Rightarrow> (string \<times> ctx_value) list \<Rightarrow> bool" where
  "bindings_ok s bs \<longleftrightarrow> hm_wf (fst s) \<and> hm_wf (snd s) \<and> roots_ok (fst s) bs \<and> top_ok (snd s) bs \<and>
     (\<forall>x \<in> set (hm_keys (fst s)). CHR ''.'' \<notin> set x)"

lemma split_once_at_SomeD:
  "split_once_at c s = Some (a, b) \<Longrightarrow> s = a @ c # b \<and> c \<notin> set a"
  by (induction s arbitrary: a b) (auto split: if_splits option.splits)

lemma split_once_at_None_iff: "split_once_at c s = None \<longleftrightarrow> c \<notin> set s"
  by (induction s) (auto split: option.splits)

lemma dotted_inject:
  assumes "CHR ''.'' \<notin> set x" "CHR ''.'' \<notin> set y"
  shows "x @ CHR ''.'' # r = y @ CHR ''.'' # q \<longleftrightarrow> x = y \<and> r = q"
  using split_once_at_append [OF assms(1), of r] split_once_at_append [OF assms(2), of q]
  by (metis option.inject prod.inject)

text \<open>Adding a fresh binding extends the represented map; keys of a \<open>HashMap\<close> are distinct.\<close>

lemma hm_get_snoc: "hm_get (bs @ [(k, v)]) x = (case hm_get bs x of Some u \<Rightarrow> Some u | None \<Rightarrow> if x = k then Some v else None)"
  by (auto simp: hm_get_def map_add_def split: option.splits)

lemma hm_get_snoc_other: "x \<noteq> k \<Longrightarrow> hm_get (bs @ [(k, v)]) x = hm_get bs x"
  by (simp add: hm_get_snoc split: option.splits)

lemma add_binding_plain:
  assumes ok: "bindings_ok (roots, tops) bs" and fresh: "hm_get bs k = None" and nodot: "CHR ''.'' \<notin> set k"
  shows "roots_ok roots (bs @ [(k, v)])" "top_ok (hm_insert k (to_value v) tops) (bs @ [(k, v)])"
proof -
  have "x @ CHR ''.'' # r \<noteq> k" for x r using nodot by auto
  then have "hm_get (bs @ [(k, v)]) (x @ CHR ''.'' # r) = hm_get bs (x @ CHR ''.'' # r)" for x r
    by (simp add: hm_get_snoc_other)
  then have "roots_ok roots (bs @ [(k, v)]) = roots_ok roots bs"
    unfolding roots_ok_def by presburger
  with ok show "roots_ok roots (bs @ [(k, v)])" by (simp add: bindings_ok_def)
  show "top_ok (hm_insert k (to_value v) tops) (bs @ [(k, v)])"
    using ok fresh nodot by (auto simp: bindings_ok_def top_ok_def hm_get_snoc hm_simps split: option.splits)
qed

lemma add_binding_dotted:
  assumes ok: "roots_ok roots bs" and fresh: "hm_get bs k = None"
    and k: "k = root @ CHR ''.'' # rest" and root: "CHR ''.'' \<notin> set root"
  shows "roots_ok (hm_insert root (hm_insert rest (to_value v) (hm_get_or roots root [])) roots) (bs @ [(k, v)])"
  unfolding roots_ok_def
proof (intro allI impI)
  fix x :: string assume x: "CHR ''.'' \<notin> set x"
  have old: "case hm_get roots x of
       None \<Rightarrow> \<forall>rest. hm_get bs (x @ CHR ''.'' # rest) = None
     | Some flds \<Rightarrow> (\<exists>rest. hm_get bs (x @ CHR ''.'' # rest) \<noteq> None) \<and>
         (\<forall>rest. hm_get flds rest = map_option to_value (hm_get bs (x @ CHR ''.'' # rest)))"
    using ok x by (auto simp: roots_ok_def)
  show "case hm_get (hm_insert root (hm_insert rest (to_value v) (hm_get_or roots root [])) roots) x of
       None \<Rightarrow> \<forall>rest. hm_get (bs @ [(k, v)]) (x @ CHR ''.'' # rest) = None
     | Some flds \<Rightarrow> (\<exists>rest. hm_get (bs @ [(k, v)]) (x @ CHR ''.'' # rest) \<noteq> None) \<and>
         (\<forall>rest. hm_get flds rest = map_option to_value (hm_get (bs @ [(k, v)]) (x @ CHR ''.'' # rest)))"
  proof (cases "x = root")
    case True
    have "hm_get (bs @ [(k, v)]) k = Some v" using fresh by (simp add: hm_get_snoc)
    with True old fresh show ?thesis
      by (cases "hm_get roots x")
        (auto simp: hm_simps hm_get_snoc k hm_get_or_def split: option.splits if_splits)
  next
    case False
    then have "x @ CHR ''.'' # r \<noteq> k" for r using x root by (simp add: k dotted_inject)
    with False old show ?thesis
      by (cases "hm_get roots x") (simp_all add: hm_get_snoc_other hm_get_insert)
  qed
qed

lemma add_binding_ok:
  assumes ok: "bindings_ok s bs" and fresh: "hm_get bs k = None"
  shows "bindings_ok (add_binding s (k, v)) (bs @ [(k, v)])"
proof -
  obtain roots tops where s: "s = (roots, tops)" by (cases s)
  show ?thesis
  proof (cases "split_once_at CHR ''.'' k")
    case None
    then have "CHR ''.'' \<notin> set k" by (simp add: split_once_at_None_iff)
    from add_binding_plain [OF ok [unfolded s] fresh this, of v] ok None
    show ?thesis by (simp add: bindings_ok_def s)
  next
    case (Some p)
    obtain root rest where p: "p = (root, rest)" by (cases p)
    have k: "k = root @ CHR ''.'' # rest" and root: "CHR ''.'' \<notin> set root"
      using split_once_at_SomeD [of "CHR ''.''" k root rest] Some p by auto
    have "top_ok tops (bs @ [(k, v)])"
      using ok by (auto simp: bindings_ok_def s top_ok_def hm_get_snoc k split: option.splits)
    moreover have "roots_ok roots bs" using ok by (simp add: bindings_ok_def s)
    note add_binding_dotted [OF this fresh k root, of v]
    ultimately show ?thesis using ok Some p root by (auto simp: bindings_ok_def s hm_simps)
  qed
qed

lemma foldl_add_binding_ok:
  "bindings_ok s pre \<Longrightarrow> hm_wf (pre @ bs) \<Longrightarrow> bindings_ok (foldl add_binding s bs) (pre @ bs)"
proof (induction bs arbitrary: s pre)
  case (Cons b bs)
  obtain k v where b: "b = (k, v)" by (cases b)
  have "hm_get pre k = None"
    using Cons.prems(2) by (auto simp: b hm_wf_def hm_keys_def hm_get_def map_of_eq_None_iff)
  then have "bindings_ok (add_binding s b) (pre @ [b])"
    unfolding b by (rule add_binding_ok [OF Cons.prems(1)])
  with Cons.IH [of "add_binding s b" "pre @ [b]"] Cons.prems(2) show ?case by simp
qed simp

lemma foldl_insert_get:
  "hm_wf m \<Longrightarrow> hm_get (foldl (\<lambda>vs (k, v). hm_insert k (f v) vs) vs0 m) x =
     (case hm_get m x of Some v \<Rightarrow> Some (f v) | None \<Rightarrow> hm_get vs0 x)"
proof (induction m arbitrary: vs0)
  case (Cons p m)
  obtain k v where p: "p = (k, v)" by (cases p)
  have "hm_wf m" "hm_get m k = None"
    using Cons.prems by (auto simp: p hm_wf_def hm_keys_def hm_get_def map_of_eq_None_iff)
  with Cons.IH show ?case by (auto simp: p hm_simps split: option.splits)
qed (simp add: hm_simps)

lemma eval_match_iff: "eval_match api prog ctx \<longleftrightarrow> cel_execute api (cm_program prog) (cel_context ctx) = Inr (VBool True)"
  by (auto simp: eval_match_def split: sum.splits cel_value.splits)

text \<open>
  An expression sees exactly the bound names. A name without a dot is the value bound to
  it; otherwise, when bindings \<open>x.f\<close> exist, \<open>x\<close> is the map of exactly those fields; \<open>sets\<close> is
  always the map of the operator sets; and no other name is defined.
\<close>

lemma cel_context_lookup:
  assumes "hm_wf (mc_bindings ctx)" and "CHR ''.'' \<notin> set x" and "x \<noteq> ''sets''"
  shows "(case hm_get (mc_bindings ctx) x of
            Some v \<Rightarrow> hm_get (cel_context ctx) x = Some (to_value v)
          | None \<Rightarrow>
              if \<exists>f. hm_get (mc_bindings ctx) (x @ CHR ''.'' # f) \<noteq> None
              then \<exists>flds. hm_get (cel_context ctx) x = Some (VMap flds) \<and>
                     (\<forall>f. hm_get flds f = map_option to_value (hm_get (mc_bindings ctx) (x @ CHR ''.'' # f)))
              else hm_get (cel_context ctx) x = None) \<and>
         hm_get (cel_context ctx) ''sets'' = Some (VMap (sets_map ctx))"
proof -
  obtain roots tops where s: "foldl add_binding ([], []) (mc_bindings ctx) = (roots, tops)" by fastforce
  have "bindings_ok (foldl add_binding ([], []) (mc_bindings ctx)) ([] @ mc_bindings ctx)"
    by (rule foldl_add_binding_ok)
      (use assms in \<open>simp_all add: bindings_ok_def roots_ok_def top_ok_def hm_keys_def hm_simps\<close>)
  then have ok: "hm_wf roots" "hm_wf tops" "roots_ok roots (mc_bindings ctx)" "top_ok tops (mc_bindings ctx)"
    by (simp_all add: s bindings_ok_def)
  have get: "hm_get (cel_context ctx) x =
      (case hm_get tops x of Some v \<Rightarrow> Some v | None \<Rightarrow> map_option VMap (hm_get roots x))"
    using assms(3) foldl_insert_get [OF ok(2), of "\<lambda>v. v"] foldl_insert_get [OF ok(1), of VMap "[]" x]
    by (auto simp: cel_context_def s hm_simps split: option.splits)
  have tops: "hm_get tops x = map_option to_value (hm_get (mc_bindings ctx) x)"
    using ok(4) assms(2) by (simp add: top_ok_def)
  have roots: "case hm_get roots x of
       None \<Rightarrow> \<forall>f. hm_get (mc_bindings ctx) (x @ CHR ''.'' # f) = None
     | Some flds \<Rightarrow> (\<exists>f. hm_get (mc_bindings ctx) (x @ CHR ''.'' # f) \<noteq> None) \<and>
         (\<forall>f. hm_get flds f = map_option to_value (hm_get (mc_bindings ctx) (x @ CHR ''.'' # f)))"
    using ok(3) assms(2) unfolding roots_ok_def by blast
  have "hm_get (cel_context ctx) ''sets'' = Some (VMap (sets_map ctx))"
    by (simp add: cel_context_def s hm_simps)
  with roots get tops show ?thesis
    by (cases "hm_get (mc_bindings ctx) x"; cases "hm_get roots x") auto
qed

lemma cel_context_lookup_example:
  "hm_get (cel_context (set_int ''z21.header'' 64 (set_str ''iface'' ''eth0'' match_context_default))) ''z21''
     \<noteq> None \<and>
   hm_get (cel_context (set_int ''z21.header'' 64 (set_str ''iface'' ''eth0'' match_context_default))) ''sets''
     = Some (VMap [])"
proof -
  let ?ctx = "set_int ''z21.header'' 64 (set_str ''iface'' ''eth0'' match_context_default)"
  have b: "mc_bindings ?ctx = [(''iface'', CStr ''eth0''), (''z21.header'', CInt 64)]" by code_simp
  have wf: "hm_wf (mc_bindings ?ctx)" by (simp add: b hm_wf_def hm_keys_def)
  have none: "hm_get (mc_bindings ?ctx) ''z21'' = None" by (simp add: b hm_simps)
  have some: "hm_get (mc_bindings ?ctx) (''z21'' @ CHR ''.'' # ''header'') \<noteq> None" by (simp add: b hm_simps)
  have sets: "sets_map ?ctx = []"
    by (simp add: sets_map_def set_int_def set_str_def set_binding_def match_context_default_def)
  have "CHR ''.'' \<notin> set ''z21''" "''z21'' \<noteq> ''sets''" by simp_all
  note look = cel_context_lookup [OF wf this]
  have "\<exists>f. hm_get (mc_bindings ?ctx) (''z21'' @ CHR ''.'' # f) \<noteq> None" using some by blast
  with look none have "hm_get (cel_context ?ctx) ''z21'' \<noteq> None"
    by (simp only: option.case if_True) blast
  with look sets show ?thesis by simp
qed

end
