(* ===== verification/Rule_Types.thy ===== *)
theory Rule_Types
  imports Rust_Str
begin

text \<open>
  The vocabulary of rules: \<open>crates/mw-core/src/error.rs\<close>, the enums of \<open>rule.rs\<close> and the run
  mode of \<open>enforcer.rs\<close>, each with its wire string and its parser. The locale \<open>wire_enum\<close> is
  the contract the four parsers share; the interpretations at the end discharge it.
\<close>

section \<open>Errors\<close>

datatype config_error =
    DuplicateRuleId string
  | TooManyRules nat nat
  | PortsRequired string string
  | InvalidMetric string string string
  | InvalidDropRate string u8
  | CelCompile string string
  | ParseError string
  | InvalidValue string

definition show_config_error :: "config_error \<Rightarrow> string" where
  "show_config_error e =
     (case e of
        DuplicateRuleId r \<Rightarrow> ''duplicate rule id `'' @ r @ ''`''
      | TooManyRules count m \<Rightarrow> ''too many rules: '' @ fmt_dec count @ '' > '' @ fmt_dec m
      | PortsRequired r p \<Rightarrow> ''rule `'' @ r @ ''`: ports are mandatory for protocol `'' @ p @ ''`''
      | InvalidMetric r m p \<Rightarrow> ''rule `'' @ r @ ''`: metric `'' @ m @ ''` is not valid for protocol `'' @ p @ ''`''
      | InvalidDropRate r d \<Rightarrow> ''rule `'' @ r @ ''`: dropRate must be 0..=100, got '' @ fmt_dec (unat d)
      | CelCompile r m \<Rightarrow> ''rule `'' @ r @ ''`: CEL compile error: '' @ m
      | ParseError m \<Rightarrow> ''config parse error: '' @ m
      | InvalidValue m \<Rightarrow> ''invalid value: '' @ m)"

section \<open>Enums\<close>

type_synonym rule_id = string

datatype protocol = Http | WebSocket | Z21 | Withrottle | Udp | Tcp

definition is_parsed :: "protocol \<Rightarrow> bool" where
  "is_parsed p = (p \<noteq> Udp \<and> p \<noteq> Tcp)"

fun protocol_as_str :: "protocol \<Rightarrow> string" where
  "protocol_as_str Http = ''http''"
| "protocol_as_str WebSocket = ''websocket''"
| "protocol_as_str Z21 = ''z21''"
| "protocol_as_str Withrottle = ''withrottle''"
| "protocol_as_str Udp = ''udp''"
| "protocol_as_str Tcp = ''tcp''"

definition protocol_from_str :: "string \<Rightarrow> config_error + protocol" where
  "protocol_from_str s =
     (let l = to_ascii_lowercase s
      in if l = ''http'' then Inr Http
         else if l = ''websocket'' \<or> l = ''ws'' then Inr WebSocket
         else if l = ''z21'' then Inr Z21
         else if l = ''withrottle'' \<or> l = ''wt'' then Inr Withrottle
         else if l = ''udp'' then Inr Udp
         else if l = ''tcp'' then Inr Tcp
         else Inl (InvalidValue (''protocol `'' @ l @ ''`'')))"

datatype metric = Requests | Bytes | Connections

fun metric_as_str :: "metric \<Rightarrow> string" where
  "metric_as_str Requests = ''requests''"
| "metric_as_str Bytes = ''bytes''"
| "metric_as_str Connections = ''connections''"

definition valid_for :: "metric \<Rightarrow> protocol \<Rightarrow> bool" where
  "valid_for m p =
     (case p of
        Udp \<Rightarrow> m = Connections \<or> m = Bytes
      | Tcp \<Rightarrow> m = Connections \<or> m = Bytes
      | _ \<Rightarrow> m = Requests \<or> m = Bytes)"

definition metric_from_str :: "string \<Rightarrow> config_error + metric" where
  "metric_from_str s =
     (let l = to_ascii_lowercase s
      in if l = ''requests'' then Inr Requests
         else if l = ''bytes'' then Inr Bytes
         else if l = ''connections'' then Inr Connections
         else Inl (InvalidValue (''metric `'' @ l @ ''`'')))"

datatype window = PerSecond | PerMinute

fun window_secs :: "window \<Rightarrow> nat" where
  "window_secs PerSecond = 1"
| "window_secs PerMinute = 60"

fun window_as_str :: "window \<Rightarrow> string" where
  "window_as_str PerSecond = ''per-second''"
| "window_as_str PerMinute = ''per-minute''"

definition window_from_str :: "string \<Rightarrow> config_error + window" where
  "window_from_str s =
     (let l = to_ascii_lowercase s
      in if l = ''per-second'' \<or> l = ''per_second'' \<or> l = ''second'' \<or> l = ''1s'' then Inr PerSecond
         else if l = ''per-minute'' \<or> l = ''per_minute'' \<or> l = ''minute'' \<or> l = ''60s''
           then Inr PerMinute
         else Inl (InvalidValue (''window `'' @ l @ ''`'')))"

datatype action = ActThrottle u8 | ActBlock

datatype mode = Enforce | Permissive

fun mode_as_str :: "mode \<Rightarrow> string" where
  "mode_as_str Enforce = ''enforce''"
| "mode_as_str Permissive = ''permissive''"

definition mode_from_str :: "string \<Rightarrow> string + mode" where
  "mode_from_str s =
     (let l = to_ascii_lowercase s
      in if l = ''enforce'' then Inr Enforce
         else if l = ''permissive'' then Inr Permissive
         else Inl (''invalid mode `'' @ l @ ''` (expected enforce|permissive)''))"

section \<open>The contract of a wire enum\<close>

locale wire_enum =
  fixes as_str :: "'a \<Rightarrow> string"
    and from_str :: "string \<Rightarrow> 'e + 'a"
  assumes from_as: "from_str (as_str x) = Inr x"
    and lower: "to_ascii_lowercase (as_str x) = as_str x"
    and case_blind: "to_ascii_lowercase s = to_ascii_lowercase t \<Longrightarrow> from_str s = from_str t"
begin

lemma as_str_eq_iff: "as_str x = as_str y \<longleftrightarrow> x = y"
  by (metis from_as sum.inject(2))

lemma from_as_any_case: "to_ascii_lowercase s = as_str x \<Longrightarrow> from_str s = Inr x"
  by (metis case_blind from_as lower)

lemma error_not_printed: "from_str s = Inl e \<Longrightarrow> to_ascii_lowercase s \<noteq> as_str x"
  using from_as_any_case by fastforce

end

lemmas lowercase_defs = to_ascii_lowercase_def ascii_lower_def byte_of_def

interpretation protocol_wire: wire_enum protocol_as_str protocol_from_str
proof
  show "protocol_from_str (protocol_as_str x) = Inr x" for x
    by (cases x) (simp_all add: protocol_from_str_def lowercase_defs)
  show "to_ascii_lowercase (protocol_as_str x) = protocol_as_str x" for x
    by (cases x) (simp_all add: lowercase_defs)
qed (simp add: protocol_from_str_def)

interpretation metric_wire: wire_enum metric_as_str metric_from_str
proof
  show "metric_from_str (metric_as_str x) = Inr x" for x
    by (cases x) (simp_all add: metric_from_str_def lowercase_defs)
  show "to_ascii_lowercase (metric_as_str x) = metric_as_str x" for x
    by (cases x) (simp_all add: lowercase_defs)
qed (simp add: metric_from_str_def)

interpretation window_wire: wire_enum window_as_str window_from_str
proof
  show "window_from_str (window_as_str x) = Inr x" for x
    by (cases x) (simp_all add: window_from_str_def lowercase_defs)
  show "to_ascii_lowercase (window_as_str x) = window_as_str x" for x
    by (cases x) (simp_all add: lowercase_defs)
qed (simp add: window_from_str_def)

interpretation mode_wire: wire_enum mode_as_str mode_from_str
proof
  show "mode_from_str (mode_as_str x) = Inr x" for x
    by (cases x) (simp_all add: mode_from_str_def lowercase_defs)
  show "to_ascii_lowercase (mode_as_str x) = mode_as_str x" for x
    by (cases x) (simp_all add: lowercase_defs)
qed (simp add: mode_from_str_def)

text \<open>
  The four configuration enums parse their own wire string back in any letter case, and
  their wire strings tell their values apart.
\<close>

lemma wire_enum_roundtrip:
  "(to_ascii_lowercase s = protocol_as_str p \<longrightarrow> protocol_from_str s = Inr p) \<and>
   (to_ascii_lowercase s = metric_as_str m \<longrightarrow> metric_from_str s = Inr m) \<and>
   (to_ascii_lowercase s = window_as_str w \<longrightarrow> window_from_str s = Inr w) \<and>
   (to_ascii_lowercase s = mode_as_str d \<longrightarrow> mode_from_str s = Inr d) \<and>
   inj protocol_as_str \<and> inj metric_as_str \<and> inj window_as_str \<and> inj mode_as_str"
  using protocol_wire.from_as_any_case metric_wire.from_as_any_case window_wire.from_as_any_case
    mode_wire.from_as_any_case protocol_wire.as_str_eq_iff metric_wire.as_str_eq_iff
    window_wire.as_str_eq_iff mode_wire.as_str_eq_iff
  by (simp add: inj_def)

lemma wire_enum_roundtrip_example:
  "to_ascii_lowercase ''WebSocket'' = protocol_as_str WebSocket \<and>
   protocol_from_str ''WebSocket'' = Inr WebSocket"
proof -
  have "to_ascii_lowercase ''WebSocket'' = protocol_as_str WebSocket" by code_simp
  then show ?thesis
    using wire_enum_roundtrip [of "''WebSocket''" WebSocket Requests PerSecond Enforce] by blast
qed

end
