(* ===== verification/Sliding_Window.thy ===== *)
theory Sliding_Window
  imports Rule_Types
begin

text \<open>
  \<open>crates/mw-core/src/window.rs\<close>: sixty one-second buckets in a ring, one ring per (client,
  rule). The ring is related to two specifications. \<open>sw_view\<close> is the ring read from the
  cursor backwards, and every operation is a list operation on it. The event log keeps every
  increment with its age in whole seconds, and the sum over a window is the saturating sum of
  the increments young enough. From the log follow the bounds in real time: what a window is
  sure to count, and how old an increment it counts can be.
\<close>

section \<open>Buckets and windows\<close>

record bucket =
  bk_requests :: u64
  bk_bytes :: u64
  bk_connections :: u64

definition bucket_default :: bucket where
  "bucket_default = \<lparr>bk_requests = 0, bk_bytes = 0, bk_connections = 0\<rparr>"

definition bucket_get :: "bucket \<Rightarrow> metric \<Rightarrow> u64" where
  "bucket_get b m =
     (case m of Requests \<Rightarrow> bk_requests b | Bytes \<Rightarrow> bk_bytes b | Connections \<Rightarrow> bk_connections b)"

definition bucket_add :: "metric \<Rightarrow> u64 \<Rightarrow> bucket \<Rightarrow> bucket" where
  "bucket_add m delta b =
     (case m of
        Requests \<Rightarrow> b\<lparr>bk_requests := sat_add (bk_requests b) delta\<rparr>
      | Bytes \<Rightarrow> b\<lparr>bk_bytes := sat_add (bk_bytes b) delta\<rparr>
      | Connections \<Rightarrow> b\<lparr>bk_connections := sat_add (bk_connections b) delta\<rparr>)"

record sliding_window =
  sw_buckets :: "bucket list"
  sw_cursor :: nat
  sw_last_advance :: instant

definition sw_new :: "instant \<Rightarrow> sliding_window" where
  "sw_new now = \<lparr>sw_buckets = replicate 60 bucket_default, sw_cursor = 0, sw_last_advance = now\<rparr>"

text \<open>The body of the loop in \<open>advance\<close>: move the cursor and clear the bucket it reaches.\<close>

definition sw_rotate :: "sliding_window \<Rightarrow> sliding_window" where
  "sw_rotate w =
     (let c = (sw_cursor w + 1) mod 60
      in w\<lparr>sw_cursor := c, sw_buckets := (sw_buckets w)[c := bucket_default]\<rparr>)"

definition sw_advance :: "instant \<Rightarrow> sliding_window \<Rightarrow> sliding_window" where
  "sw_advance now w =
     (let elapsed = dur_as_secs (duration_since now (sw_last_advance w))
      in if elapsed = 0 then w
         else ((sw_rotate ^^ min elapsed 60) w)\<lparr>sw_last_advance := now\<rparr>)"

definition sw_add :: "metric \<Rightarrow> u64 \<Rightarrow> instant \<Rightarrow> sliding_window \<Rightarrow> sliding_window" where
  "sw_add m delta now w =
     (let w' = sw_advance now w; c = sw_cursor w'
      in w'\<lparr>sw_buckets := (sw_buckets w')[c := bucket_add m delta (sw_buckets w' ! c)]\<rparr>)"

definition clamp_secs :: "nat \<Rightarrow> nat" where
  "clamp_secs secs = max 1 (min secs 60)"

definition sw_sum :: "sliding_window \<Rightarrow> metric \<Rightarrow> nat \<Rightarrow> u64" where
  "sw_sum w m secs =
     foldl (\<lambda>total i. sat_add total (bucket_get (sw_buckets w ! ((sw_cursor w + 60 - i) mod 60)) m))
       0 [0..<clamp_secs secs]"

record rule_windows =
  rw_by_rule :: "(rule_id, sliding_window) hmap"

definition rw_default :: rule_windows where
  "rw_default = \<lparr>rw_by_rule = []\<rparr>"

definition rw_add :: "rule_id \<Rightarrow> metric \<Rightarrow> u64 \<Rightarrow> instant \<Rightarrow> rule_windows \<Rightarrow> rule_windows" where
  "rw_add r m delta now ws =
     ws\<lparr>rw_by_rule :=
        hm_insert r (sw_add m delta now (hm_get_or (rw_by_rule ws) r (sw_new now))) (rw_by_rule ws)\<rparr>"

definition rw_sum :: "rule_windows \<Rightarrow> rule_id \<Rightarrow> metric \<Rightarrow> nat \<Rightarrow> u64" where
  "rw_sum ws r m secs = (case hm_get (rw_by_rule ws) r of None \<Rightarrow> 0 | Some w \<Rightarrow> sw_sum w m secs)"

definition rw_advance_all :: "instant \<Rightarrow> rule_windows \<Rightarrow> rule_windows" where
  "rw_advance_all now ws =
     ws\<lparr>rw_by_rule := map (\<lambda>(r, w). (r, sw_advance now w)) (rw_by_rule ws)\<rparr>"

section \<open>The ring as a list of ages\<close>

text \<open>Every index of the code is in range as long as this holds.\<close>

definition sw_wf :: "sliding_window \<Rightarrow> bool" where
  "sw_wf w \<longleftrightarrow> length (sw_buckets w) = 60 \<and> sw_cursor w < 60"

definition sw_view :: "sliding_window \<Rightarrow> bucket list" where
  "sw_view w = map (\<lambda>i. sw_buckets w ! ((sw_cursor w + 60 - i) mod 60)) [0..<60]"

definition rw_wf :: "rule_windows \<Rightarrow> bool" where
  "rw_wf ws \<longleftrightarrow> hm_wf (rw_by_rule ws) \<and> (\<forall>r w. hm_get (rw_by_rule ws) r = Some w \<longrightarrow> sw_wf w)"

text \<open>A log entry is (age in steps, time, metric, increment).\<close>

type_synonym log_entry = "nat \<times> instant \<times> metric \<times> u64"

definition log_sum :: "log_entry list \<Rightarrow> metric \<Rightarrow> nat \<Rightarrow> u64" where
  "log_sum log m n = sat_sum (map (\<lambda>(a, t, m', d). d) (filter (\<lambda>(a, t, m', d). m' = m \<and> a < n) log))"

definition log_at :: "log_entry list \<Rightarrow> metric \<Rightarrow> nat \<Rightarrow> u64" where
  "log_at log m i = sat_sum (map (\<lambda>(a, t, m', d). d) (filter (\<lambda>(a, t, m', d). m' = m \<and> a = i) log))"

definition log_age :: "nat \<Rightarrow> log_entry list \<Rightarrow> log_entry list" where
  "log_age k log = map (\<lambda>(a, t, m, d). (a + k, t, m, d)) log"

datatype win_op = WAdd metric u64 instant | WAdvance instant

fun op_time :: "win_op \<Rightarrow> instant" where
  "op_time (WAdd m d t) = t"
| "op_time (WAdvance t) = t"

fun win_step :: "sliding_window \<Rightarrow> win_op \<Rightarrow> sliding_window" where
  "win_step w (WAdd m d t) = sw_add m d t w"
| "win_step w (WAdvance t) = sw_advance t w"

definition win_run :: "sliding_window \<Rightarrow> win_op list \<Rightarrow> sliding_window" where
  "win_run w ops = foldl win_step w ops"

definition log_advance :: "instant \<Rightarrow> instant \<times> log_entry list \<Rightarrow> instant \<times> log_entry list" where
  "log_advance now s =
     (let e = dur_as_secs (duration_since now (fst s))
      in if e = 0 then s else (now, log_age e (snd s)))"

fun log_step :: "instant \<times> log_entry list \<Rightarrow> win_op \<Rightarrow> instant \<times> log_entry list" where
  "log_step s (WAdd m d t) = (let s' = log_advance t s in (fst s', (0, t, m, d) # snd s'))"
| "log_step s (WAdvance t) = log_advance t s"

definition log_run :: "instant \<times> log_entry list \<Rightarrow> win_op list \<Rightarrow> instant \<times> log_entry list" where
  "log_run s ops = foldl log_step s ops"

text \<open>The increments of a metric whose time satisfies a condition, summed.\<close>

fun op_delta :: "metric \<Rightarrow> (instant \<Rightarrow> bool) \<Rightarrow> win_op \<Rightarrow> u64" where
  "op_delta m P (WAdd m' d t) = (if m' = m \<and> P t then d else 0)"
| "op_delta m P (WAdvance t) = 0"

definition ops_total :: "metric \<Rightarrow> (instant \<Rightarrow> bool) \<Rightarrow> win_op list \<Rightarrow> u64" where
  "ops_total m P ops = sat_sum (map (op_delta m P) ops)"

section \<open>Well-formedness\<close>

lemma sw_wf_new [simp]: "sw_wf (sw_new now)"
  by (simp add: sw_wf_def sw_new_def)

lemma sw_wf_rotate [simp]: "sw_wf w \<Longrightarrow> sw_wf (sw_rotate w)"
  by (simp add: sw_wf_def sw_rotate_def Let_def)

lemma sw_wf_rotates [simp]: "sw_wf w \<Longrightarrow> sw_wf ((sw_rotate ^^ n) w)"
  by (induction n) simp_all

lemma sw_wf_advance [simp]: "sw_wf w \<Longrightarrow> sw_wf (sw_advance now w)"
  using sw_wf_rotates [of w] by (simp add: sw_advance_def Let_def sw_wf_def)

lemma sw_wf_add [simp]: "sw_wf w \<Longrightarrow> sw_wf (sw_add m d now w)"
  using sw_wf_advance [of w now] by (simp add: sw_add_def Let_def sw_wf_def)

lemma sw_wf_step [simp]: "sw_wf w \<Longrightarrow> sw_wf (win_step w op)"
  by (cases op) simp_all

lemma sw_last_advance_rotates [simp]: "sw_last_advance ((sw_rotate ^^ n) w) = sw_last_advance w"
  by (induction n) (simp_all add: sw_rotate_def Let_def)

section \<open>Operations on the view\<close>

lemma length_sw_view [simp]: "length (sw_view w) = 60"
  by (simp add: sw_view_def)

lemma sw_view_nth: "i < 60 \<Longrightarrow> sw_view w ! i = sw_buckets w ! ((sw_cursor w + 60 - i) mod 60)"
  by (simp add: sw_view_def)

lemma sw_view_last_advance [simp]: "sw_view (w\<lparr>sw_last_advance := t\<rparr>) = sw_view w"
  by (simp add: sw_view_def)

lemma mod_60_le: "x < 120 \<Longrightarrow> x mod 60 = (if x < 60 then x else x - 60)" for x :: nat
  by (simp add: mod_if)

lemma ring_index_other: "c < 60 \<Longrightarrow> i < 59 \<Longrightarrow> (c + 60 - Suc i) mod 60 \<noteq> c" for c i :: nat
  using mod_60_le [of "c + 60 - Suc i"] by (auto split: if_splits)

lemma ring_index_Suc: "c < 60 \<Longrightarrow> i < 59 \<Longrightarrow> ((c + 1) mod 60 + 60 - Suc i) mod 60 = (c + 60 - i) mod 60"
  for c i :: nat
  by (cases "c = 59") (simp_all add: mod_60_le add.commute)

lemma take_Cons_take: "take n (x # take n ys) = take n (x # ys)"
  by (cases n) (simp_all add: min_def)

lemma sw_view_rotate:
  assumes "sw_wf w"
  shows "sw_view (sw_rotate w) = take 60 (bucket_default # sw_view w)"
proof (rule nth_equalityI)
  fix i assume "i < length (sw_view (sw_rotate w))"
  then have i: "i < 60" by simp
  show "sw_view (sw_rotate w) ! i = take 60 (bucket_default # sw_view w) ! i"
  proof (cases i)
    case 0
    with assms show ?thesis by (simp add: sw_view_nth sw_rotate_def Let_def sw_wf_def)
  next
    case (Suc j)
    with i have j: "j < 59" by simp
    have "(sw_cursor w + 1) mod 60 \<noteq> ((sw_cursor w + 1) mod 60 + 60 - Suc j) mod 60"
      using ring_index_other [of "(sw_cursor w + 1) mod 60" j] j by simp
    with assms j Suc ring_index_Suc [of "sw_cursor w" j] show ?thesis
      by (simp add: sw_view_nth sw_rotate_def Let_def sw_wf_def)
  qed
qed simp

lemma sw_view_rotates:
  "sw_wf w \<Longrightarrow> sw_view ((sw_rotate ^^ n) w) = take 60 (replicate n bucket_default @ sw_view w)"
proof (induction n)
  case (Suc n)
  then have "sw_view ((sw_rotate ^^ Suc n) w) =
      take 60 (bucket_default # take 60 (replicate n bucket_default @ sw_view w))"
    by (simp add: sw_view_rotate)
  also have "\<dots> = take 60 (bucket_default # replicate n bucket_default @ sw_view w)"
    by (rule take_Cons_take)
  finally show ?case by simp
qed simp

lemma sw_view_advance:
  assumes "sw_wf w"
  shows "sw_view (sw_advance now w) =
     take 60 (replicate (dur_as_secs (duration_since now (sw_last_advance w))) bucket_default @ sw_view w)"
proof -
  let ?e = "dur_as_secs (duration_since now (sw_last_advance w))"
  have "take 60 (replicate (min ?e 60) bucket_default @ sw_view w) =
      take 60 (replicate ?e bucket_default @ sw_view w)"
    by (cases "?e \<le> 60") (simp_all add: min_def)
  with assms show ?thesis by (simp add: sw_advance_def Let_def sw_view_rotates)
qed

lemma sw_view_add:
  assumes "sw_wf w"
  shows "sw_view (sw_add m d now w) =
     (sw_view (sw_advance now w))[0 := bucket_add m d (sw_view (sw_advance now w) ! 0)]"
proof (rule nth_equalityI)
  fix i assume "i < length (sw_view (sw_add m d now w))"
  then have i: "i < 60" by simp
  have wf: "sw_wf (sw_advance now w)" using assms by simp
  show "sw_view (sw_add m d now w) ! i =
      (sw_view (sw_advance now w))[0 := bucket_add m d (sw_view (sw_advance now w) ! 0)] ! i"
  proof (cases i)
    case 0
    with wf show ?thesis by (simp add: sw_view_nth sw_add_def Let_def sw_wf_def)
  next
    case (Suc j)
    with i have "j < 59" by simp
    with wf ring_index_other [of "sw_cursor (sw_advance now w)" j]
    have "sw_cursor (sw_advance now w) \<noteq> (sw_cursor (sw_advance now w) + 60 - i) mod 60"
      by (simp add: sw_wf_def Suc)
    with Suc i show ?thesis by (simp add: sw_view_nth sw_add_def Let_def)
  qed
qed simp

lemma sw_sum_view: "sw_sum w m secs = sat_sum (map (\<lambda>b. bucket_get b m) (take (clamp_secs secs) (sw_view w)))"
proof -
  have le: "clamp_secs secs \<le> 60" by (simp add: clamp_secs_def)
  let ?f = "\<lambda>i. bucket_get (sw_buckets w ! ((sw_cursor w + 60 - i) mod 60)) m"
  have "sw_sum w m secs = foldl sat_add 0 (map ?f [0..<clamp_secs secs])"
    by (simp add: sw_sum_def foldl_map)
  also have "map ?f [0..<clamp_secs secs] = map (\<lambda>b. bucket_get b m) (take (clamp_secs secs) (sw_view w))"
    using le by (simp add: sw_view_def take_map o_def)
  finally show ?thesis by (simp add: foldl_sat_add)
qed

lemma bucket_get_default [simp]: "bucket_get bucket_default m = 0"
  by (cases m) (simp_all add: bucket_get_def bucket_default_def)

lemma bucket_get_add: "bucket_get (bucket_add m d b) m' = (if m' = m then sat_add (bucket_get b m') d else bucket_get b m')"
  by (cases m; cases m') (simp_all add: bucket_get_def bucket_add_def)

section \<open>The ring represents the log\<close>

definition sw_repr :: "sliding_window \<Rightarrow> instant \<times> log_entry list \<Rightarrow> bool" where
  "sw_repr w s \<longleftrightarrow> sw_wf w \<and> sw_last_advance w = fst s \<and>
     (\<forall>i < 60. \<forall>m. bucket_get (sw_view w ! i) m = log_at (snd s) m i)"

lemma log_at_age: "log_at (log_age k log) m i = (if i < k then 0 else log_at log m (i - k))"
proof (induction log)
  case (Cons x log)
  then show ?case by (cases x) (auto simp: log_at_def log_age_def split: if_splits)
qed (simp add: log_at_def log_age_def)

lemma log_at_Cons: "log_at ((a, t, m', d) # log) m i = (if m' = m \<and> a = i then sat_add d (log_at log m i) else log_at log m i)"
  by (simp add: log_at_def)

lemma log_sum_Suc: "log_sum log m (Suc n) = sat_add (log_sum log m n) (log_at log m n)"
proof (induction log)
  case (Cons x log)
  then show ?case
    by (cases x) (auto simp: log_sum_def log_at_def less_Suc_eq sat_add_ac)
qed (simp add: log_sum_def log_at_def)

lemma log_sum_at: "log_sum log m n = sat_sum (map (\<lambda>i. log_at log m i) [0..<n])"
proof (induction n)
  case 0
  show ?case by (induction log) (auto simp: log_sum_def)
next
  case (Suc n)
  then show ?case by (simp add: log_sum_Suc sat_sum_append)
qed

lemma sw_repr_new: "sw_repr (sw_new t0) (t0, [])"
proof -
  have "sw_view (sw_new t0) ! i = bucket_default" if "i < 60" for i
    using that by (simp add: sw_view_nth sw_new_def)
  then show ?thesis by (simp add: sw_repr_def log_at_def) (simp add: sw_new_def)
qed

lemma sw_repr_advance:
  assumes "sw_repr w s"
  shows "sw_repr (sw_advance now w) (log_advance now s)"
proof -
  obtain last log where s: "s = (last, log)" by (cases s)
  let ?e = "dur_as_secs (duration_since now last)"
  have w: "sw_wf w" "sw_last_advance w = last" using assms by (auto simp: sw_repr_def s)
  show ?thesis
  proof (cases "?e = 0")
    case True
    with assms w show ?thesis by (simp add: sw_advance_def log_advance_def Let_def s)
  next
    case False
    have "bucket_get (sw_view (sw_advance now w) ! i) m = log_at (log_age ?e log) m i" if "i < 60" for i m
      using that w assms by (auto simp: sw_view_advance log_at_age nth_append sw_repr_def s)
    with False w show ?thesis
      by (auto simp: sw_repr_def log_advance_def Let_def s) (simp add: sw_advance_def Let_def)
  qed
qed

lemma sw_repr_step: "sw_repr w s \<Longrightarrow> sw_repr (win_step w op) (log_step s op)"
proof (cases op)
  case (WAdd m d t)
  assume "sw_repr w s"
  then have r: "sw_repr (sw_advance t w) (log_advance t s)" by (rule sw_repr_advance)
  have wf: "sw_wf w" using \<open>sw_repr w s\<close> by (simp add: sw_repr_def)
  have "bucket_get (sw_view (sw_add m d t w) ! i) m' = log_at ((0, t, m, d) # snd (log_advance t s)) m' i"
    if "i < 60" for i m'
    using that r wf
    by (cases "i = 0") (auto simp: sw_view_add log_at_Cons sw_repr_def bucket_get_add sat_add_commute)
  moreover have "sw_last_advance (sw_add m d t w) = fst (log_advance t s)"
    using r by (simp add: sw_add_def Let_def sw_repr_def)
  ultimately show ?thesis using wf WAdd by (simp add: sw_repr_def Let_def)
next
  case (WAdvance t)
  assume "sw_repr w s"
  with WAdvance show ?thesis by (simp add: sw_repr_advance)
qed

lemma sw_repr_run: "sw_repr w s \<Longrightarrow> sw_repr (win_run w ops) (log_run s ops)"
  by (induction ops arbitrary: w s) (simp_all add: win_run_def log_run_def sw_repr_step)

lemma sw_repr_sum:
  assumes "sw_repr w s"
  shows "sw_sum w m secs = log_sum (snd s) m (clamp_secs secs)"
proof -
  have le: "clamp_secs secs \<le> 60" by (simp add: clamp_secs_def)
  have "map (\<lambda>b. bucket_get b m) (take (clamp_secs secs) (sw_view w)) =
      map (\<lambda>i. log_at (snd s) m i) [0..<clamp_secs secs]"
    using assms le by (intro nth_equalityI) (auto simp: sw_repr_def)
  then show ?thesis by (simp add: sw_sum_view log_sum_at)
qed

text \<open>
  C14: whatever increments and advances a window goes through, its sum over the last \<open>secs\<close>
  buckets is the saturating sum of the logged increments of that metric that are younger than
  \<open>secs\<close> steps, for \<open>secs\<close> clamped to one to sixty.
\<close>

theorem window_refines_log:
  "sw_sum (win_run (sw_new t0) ops) m secs = log_sum (snd (log_run (t0, []) ops)) m (clamp_secs secs)"
  by (rule sw_repr_sum) (intro sw_repr_run sw_repr_new)

section \<open>The windows of one client\<close>

text \<open>
  A client's windows over a sequence of increments (one rule each) and advances (all rules).
  A rule's window starts at its first increment, and earlier advances do not concern it.
\<close>

datatype rw_op = RAdd rule_id metric u64 instant | RAdvance instant

fun rw_step :: "rule_windows \<Rightarrow> rw_op \<Rightarrow> rule_windows" where
  "rw_step ws (RAdd r m d t) = rw_add r m d t ws"
| "rw_step ws (RAdvance t) = rw_advance_all t ws"

definition rw_run :: "rw_op list \<Rightarrow> rule_windows" where
  "rw_run ops = foldl rw_step rw_default ops"

definition rule_op_step :: "rule_id \<Rightarrow> win_op list \<Rightarrow> rw_op \<Rightarrow> win_op list" where
  "rule_op_step r acc op =
     (case op of
        RAdd r' m d t \<Rightarrow> if r' = r then acc @ [WAdd m d t] else acc
      | RAdvance t \<Rightarrow> if acc = [] then [] else acc @ [WAdvance t])"

definition rule_ops :: "rule_id \<Rightarrow> rw_op list \<Rightarrow> win_op list" where
  "rule_ops r ops = foldl (rule_op_step r) [] ops"

definition rule_log :: "rule_id \<Rightarrow> rw_op list \<Rightarrow> log_entry list" where
  "rule_log r ops =
     (case rule_ops r ops of
        [] \<Rightarrow> []
      | op # rest \<Rightarrow> snd (log_run (op_time op, []) (op # rest)))"

lemma hm_get_rw_advance_all:
  "hm_get (rw_by_rule (rw_advance_all t ws)) r = map_option (sw_advance t) (hm_get (rw_by_rule ws) r)"
  by (simp add: rw_advance_all_def hm_get_def map_of_map)

lemma win_run_snoc: "win_run w (ops @ [op]) = win_step (win_run w ops) op"
  by (simp add: win_run_def)

lemma rw_run_get:
  "hm_get (rw_by_rule (rw_run ops)) r =
     (case rule_ops r ops of [] \<Rightarrow> None | op # rest \<Rightarrow> Some (win_run (sw_new (op_time op)) (op # rest)))"
  (is "?get (rw_run ops) = ?win (rule_ops r ops)")
proof (induction ops rule: rev_induct)
  case (snoc op ops)
  have step: "rule_ops r (ops @ [op]) = rule_op_step r (rule_ops r ops) op"
    and run: "rw_run (ops @ [op]) = rw_step (rw_run ops) op"
    by (simp_all add: rule_ops_def rw_run_def)
  show ?case
    unfolding step run
  proof (cases op)
    case (RAdd r' m d t)
    with snoc show "?get (rw_step (rw_run ops) op) = ?win (rule_op_step r (rule_ops r ops) op)"
      by (cases "rule_ops r ops")
        (auto simp: rule_op_step_def rw_add_def hm_simps hm_get_or_def win_run_def)
  next
    case (RAdvance t)
    with snoc show "?get (rw_step (rw_run ops) op) = ?win (rule_op_step r (rule_ops r ops) op)"
      by (cases "rule_ops r ops")
        (simp_all add: rule_op_step_def hm_get_rw_advance_all win_run_def)
  qed
qed (simp add: rw_run_def rule_ops_def rw_default_def hm_simps)

lemma rw_run_sum: "rw_sum (rw_run ops) r m secs = log_sum (rule_log r ops) m (clamp_secs secs)"
proof (cases "rule_ops r ops")
  case Nil
  then show ?thesis by (simp add: rw_sum_def rw_run_get rule_log_def log_sum_def)
next
  case (Cons op rest)
  have "sw_sum (win_run (sw_new (op_time op)) (op # rest)) m secs =
      log_sum (snd (log_run (op_time op, []) (op # rest))) m (clamp_secs secs)"
    by (rule sw_repr_sum) (intro sw_repr_run sw_repr_new)
  with Cons show ?thesis by (simp add: rw_sum_def rw_run_get rule_log_def)
qed

lemma rw_wf_run: "rw_wf (rw_run ops)"
proof -
  have "rw_wf rw_default" by (simp add: rw_wf_def rw_default_def hm_simps)
  moreover have "rw_wf (rw_step ws op)" if "rw_wf ws" for ws op
  proof (cases op)
    case (RAdd r m d t)
    with that show ?thesis
      by (auto simp: rw_wf_def rw_add_def hm_simps hm_get_or_def split: if_splits option.splits)
  next
    case (RAdvance t)
    with that show ?thesis
      by (auto simp: rw_wf_def hm_get_rw_advance_all)
        (simp add: rw_advance_all_def hm_wf_def hm_keys_def o_def case_prod_beta)
  qed
  ultimately show ?thesis unfolding rw_run_def by (induction ops rule: rev_induct) simp_all
qed

section \<open>Windows in real time\<close>

text \<open>
  The remainder of a second is dropped at every advance, so an age of \<open>a\<close> steps stands for at
  least \<open>a - 1\<close> and at most \<open>2 * a\<close> seconds.
\<close>

definition times_ok :: "instant \<Rightarrow> instant \<times> log_entry list \<Rightarrow> bool" where
  "times_ok cur s \<longleftrightarrow> fst s \<le> cur \<and> cur < fst s + nanos_per_sec \<and>
     (\<forall>(a, t, m, d) \<in> set (snd s).
        a * nanos_per_sec + t < fst s + nanos_per_sec \<and> fst s \<le> t + 2 * a * nanos_per_sec)"

lemma secs_bounds:
  "dur_as_secs d * nanos_per_sec \<le> d" "d < (dur_as_secs d + 1) * nanos_per_sec"
proof -
  have eq: "d = dur_as_secs d * nanos_per_sec + d mod nanos_per_sec"
    by (simp add: dur_as_secs_def)
  moreover have "d mod nanos_per_sec < nanos_per_sec" by (simp add: nanos_per_sec_def)
  ultimately show "dur_as_secs d * nanos_per_sec \<le> d" "d < (dur_as_secs d + 1) * nanos_per_sec"
    by (linarith, simp)
qed

lemma times_ok_advance:
  assumes "times_ok cur s" "cur \<le> now"
  shows "times_ok now (log_advance now s)"
proof -
  obtain last log where s: "s = (last, log)" by (cases s)
  define e where "e = dur_as_secs (now - last)"
  have ge: "last \<le> now" using assms by (simp add: times_ok_def s)
  have b: "last + e * nanos_per_sec \<le> now" "now < last + (e + 1) * nanos_per_sec"
    using secs_bounds [of "now - last"] ge by (simp_all add: e_def)
  show ?thesis
  proof (cases "e = 0")
    case True
    with assms b ge show ?thesis by (simp add: times_ok_def log_advance_def duration_since_def e_def s)
  next
    case False
    have entry: "(a + e) * nanos_per_sec + t < now + nanos_per_sec \<and> now \<le> t + 2 * (a + e) * nanos_per_sec"
      if "(a, t, m, d) \<in> set log" for a t m d
    proof -
      have "a * nanos_per_sec + t < last + nanos_per_sec" "last \<le> t + 2 * a * nanos_per_sec"
        using assms that by (auto simp: times_ok_def s)
      moreover have "1 * nanos_per_sec \<le> e * nanos_per_sec" using False by (intro mult_le_mono1) simp
      ultimately show ?thesis using b unfolding add_mult_distrib add_mult_distrib2 mult_1 by linarith
    qed
    have pos: "0 < nanos_per_sec" by (simp add: nanos_per_sec_def)
    have "log_advance now s = (now, log_age e log)"
      using False by (simp add: log_advance_def duration_since_def e_def [symmetric] s)
    with entry pos show ?thesis by (auto simp: times_ok_def log_age_def)
  qed
qed

lemma times_ok_step:
  assumes "times_ok cur s" "cur \<le> op_time op"
  shows "times_ok (op_time op) (log_step s op)"
  using times_ok_advance [OF assms] by (cases op) (auto simp: times_ok_def Let_def)

lemma times_ok_run:
  "times_ok cur s \<Longrightarrow> sorted (cur # map op_time ops) \<Longrightarrow> times_ok (last (cur # map op_time ops)) (log_run s ops)"
proof (induction ops arbitrary: cur s)
  case (Cons op ops)
  have "times_ok (op_time op) (log_step s op)" using Cons.prems by (intro times_ok_step) auto
  with Cons show ?case by (auto simp: log_run_def)
qed (simp add: log_run_def)

lemma log_total_run:
  "sat_sum (map (\<lambda>(a, t, m', d). d) (filter (\<lambda>(a, t, m', d). m' = m \<and> P t) (snd (log_run s ops)))) =
   sat_add (sat_sum (map (\<lambda>(a, t, m', d). d) (filter (\<lambda>(a, t, m', d). m' = m \<and> P t) (snd s))))
     (ops_total m P ops)"
  (is "?T (snd (log_run s ops)) = sat_add (?T (snd s)) (ops_total m P ops)")
proof (induction ops arbitrary: s)
  case (Cons op ops)
  have age: "?T (log_age k log) = ?T log" for k log
    by (induction log) (auto simp: log_age_def)
  have adv: "?T (snd (log_advance t s)) = ?T (snd s)" for t
    by (simp add: log_advance_def Let_def age)
  have "?T (snd (log_step s op)) = sat_add (?T (snd s)) (op_delta m P op)"
    by (cases op) (auto simp: Let_def adv sat_add_commute)
  with Cons show ?case by (simp add: log_run_def ops_total_def sat_add_assoc)
qed (simp add: log_run_def ops_total_def)

lemma ops_total_log:
  "ops_total m P ops = sat_sum (map (\<lambda>(a, t, m', d). d) (filter (\<lambda>(a, t, m', d). m' = m \<and> P t) (snd (log_run (t0, []) ops))))"
  by (simp add: log_total_run)

text \<open>
  C33: with a clock that does not run backwards, a window of \<open>n\<close> seconds (one to sixty) counts
  every increment of the last \<open>n - 1\<close> seconds before the ring last moved, and no increment
  older than \<open>2 * (n - 1)\<close> seconds.
\<close>

theorem window_time_bounds:
  assumes "sorted (t0 # map op_time ops)"
    and "w = win_run (sw_new t0) ops"
    and "1 \<le> n" "n \<le> 60"
  shows "ops_total m (\<lambda>t. sw_last_advance w \<le> t + (n - 1) * nanos_per_sec) ops \<le> sw_sum w m n \<and>
     sw_sum w m n \<le> ops_total m (\<lambda>t. sw_last_advance w \<le> t + 2 * (n - 1) * nanos_per_sec) ops"
proof -
  define s where "s = log_run (t0, []) ops"
  have pos: "0 < nanos_per_sec" by (simp add: nanos_per_sec_def)
  have repr: "sw_repr w s" unfolding s_def assms(2) by (intro sw_repr_run sw_repr_new)
  have ok: "times_ok (last (t0 # map op_time ops)) s"
    unfolding s_def by (rule times_ok_run) (use assms(1) pos in \<open>auto simp: times_ok_def\<close>)
  have last: "sw_last_advance w = fst s" using repr by (simp add: sw_repr_def)
  have sum: "sw_sum w m n = log_sum (snd s) m n"
    using sw_repr_sum [OF repr, of m n] assms(3,4) by (simp add: clamp_secs_def)
  have lower: "a < n" if "(a, t, m', d) \<in> set (snd s)" "fst s \<le> t + (n - 1) * nanos_per_sec" for a t m' d
  proof -
    have "a * nanos_per_sec + t < fst s + nanos_per_sec" using ok that(1) by (auto simp: times_ok_def)
    with that(2) have "a * nanos_per_sec < (n - 1) * nanos_per_sec + nanos_per_sec" by linarith
    also have "\<dots> = n * nanos_per_sec" using assms(3) by (simp add: algebra_simps)
    finally show ?thesis by simp
  qed
  have upper: "fst s \<le> t + 2 * (n - 1) * nanos_per_sec" if "(a, t, m', d) \<in> set (snd s)" "a < n" for a t m' d
  proof -
    have "fst s \<le> t + 2 * a * nanos_per_sec" using ok that(1) by (auto simp: times_ok_def)
    moreover have "2 * a * nanos_per_sec \<le> 2 * (n - 1) * nanos_per_sec"
      using that(2) by (intro mult_le_mono1 mult_le_mono2) simp
    ultimately show ?thesis by linarith
  qed
  show ?thesis
    unfolding last sum log_sum_def ops_total_log [of m _ ops t0] s_def [symmetric]
    by (intro conjI sat_sum_filter_mono) (auto intro: lower upper [simplified])
qed

theorem window_time_bounds_witness:
  "\<exists>ops w. ops = [WAdd Requests 7 0, WAdvance 1900000000, WAdd Requests 5 3500000000] \<and>
     w = win_run (sw_new 0) ops \<and>
     ops_total Requests (\<lambda>t. sw_last_advance w \<le> t + (2 - 1) * nanos_per_sec) ops \<le> sw_sum w Requests 2 \<and>
     sw_sum w Requests 2 \<le> ops_total Requests (\<lambda>t. sw_last_advance w \<le> t + 2 * (2 - 1) * nanos_per_sec) ops"
  using window_time_bounds [of 0 "[WAdd Requests 7 0, WAdvance 1900000000, WAdd Requests 5 3500000000]"
      "win_run (sw_new 0) [WAdd Requests 7 0, WAdvance 1900000000, WAdd Requests 5 3500000000]" 2 Requests]
  by simp

end
