(* ===== verification/Rule_Engine.thy ===== *)
theory Rule_Engine
  imports Cel_Match Sliding_Window
begin

text \<open>
  \<open>crates/mw-core/src/rule.rs\<close>: rules, rule sets and the rule engine. A rule set is built only
  from valid rules with distinct ids, and the lemmas say which error the first bad rule gives.
  The engine reports, in rule order, exactly the rules whose window sum is over their limit.
\<close>

section \<open>Rules\<close>

record 'p rule =
  r_id :: rule_id
  r_protocol :: protocol
  r_ports :: "u16 list option"
  r_metric :: metric
  r_window :: window
  r_limit :: u64
  r_action :: action
  r_min_threshold :: u64
  r_match :: "'p compiled_match option"
  r_match_src :: "string option"

definition matches_port :: "'p rule \<Rightarrow> u16 \<Rightarrow> bool" where
  "matches_port r port = (case r_ports r of None \<Rightarrow> True | Some ports \<Rightarrow> port \<in> set ports)"

definition validate :: "'p rule \<Rightarrow> config_error + unit" where
  "validate r =
     (if is_parsed (r_protocol r) \<and> (case r_ports r of None \<Rightarrow> True | Some p \<Rightarrow> p = [])
      then Inl (PortsRequired (r_id r) (protocol_as_str (r_protocol r)))
      else if \<not> valid_for (r_metric r) (r_protocol r)
      then Inl (InvalidMetric (r_id r) (metric_as_str (r_metric r)) (protocol_as_str (r_protocol r)))
      else case r_action r of
             ActThrottle drop_rate \<Rightarrow>
               if drop_rate > 100 then Inl (InvalidDropRate (r_id r) drop_rate) else Inr ()
           | ActBlock \<Rightarrow> Inr ())"

section \<open>Rule sets\<close>

definition MAX_RULES :: nat where
  "MAX_RULES = 256"

record 'p rule_set =
  rs_rules :: "'p rule list"

definition rule_set_default :: "'p rule_set" where
  "rule_set_default = \<lparr>rs_rules = []\<rparr>"

text \<open>The loop of \<open>RuleSet::new\<close>, with the ids seen so far.\<close>

fun check_rules :: "rule_id list \<Rightarrow> 'p rule list \<Rightarrow> config_error + unit" where
  "check_rules seen [] = Inr ()"
| "check_rules seen (r # rs) =
     (case validate r of
        Inl e \<Rightarrow> Inl e
      | Inr _ \<Rightarrow> if r_id r \<in> set seen then Inl (DuplicateRuleId (r_id r))
                else check_rules (r_id r # seen) rs)"

definition rule_set_new :: "'p rule list \<Rightarrow> config_error + 'p rule_set" where
  "rule_set_new rules =
     (if length rules > MAX_RULES then Inl (TooManyRules (length rules) MAX_RULES)
      else case check_rules [] rules of
             Inl e \<Rightarrow> Inl e
           | Inr _ \<Rightarrow> Inr \<lparr>rs_rules = rules\<rparr>)"

definition matching :: "'p rule_set \<Rightarrow> protocol \<Rightarrow> u16 \<Rightarrow> 'p rule list" where
  "matching rs p port = filter (\<lambda>r. r_protocol r = p \<and> matches_port r port) (rs_rules rs)"

definition rule_set_get :: "'p rule_set \<Rightarrow> rule_id \<Rightarrow> 'p rule option" where
  "rule_set_get rs i = List.find (\<lambda>r. r_id r = i) (rs_rules rs)"

section \<open>The engine\<close>

record violation =
  v_rule_id :: rule_id
  v_value :: u64
  v_limit :: u64
  v_action :: action

definition evaluate :: "'p rule_set \<Rightarrow> rule_windows \<Rightarrow> violation list" where
  "evaluate rs per_rule =
     List.map_filter (\<lambda>r.
       let v = rw_sum per_rule (r_id r) (r_metric r) (window_secs (r_window r))
       in if v > r_limit r
          then Some \<lparr>v_rule_id = r_id r, v_value = v, v_limit = r_limit r, v_action = r_action r\<rparr>
          else None) (rs_rules rs)"

section \<open>Well-formed rule sets\<close>

definition valid_rule :: "'p rule \<Rightarrow> bool" where
  "valid_rule r \<longleftrightarrow>
     (is_parsed (r_protocol r) \<longrightarrow> (\<exists>p ps. r_ports r = Some (p # ps))) \<and>
     valid_for (r_metric r) (r_protocol r) \<and>
     (\<forall>d. r_action r = ActThrottle d \<longrightarrow> unat d \<le> 100)"

definition rs_wf :: "'p rule_set \<Rightarrow> bool" where
  "rs_wf rs \<longleftrightarrow> length (rs_rules rs) \<le> MAX_RULES \<and> distinct (map r_id (rs_rules rs)) \<and>
     (\<forall>r \<in> set (rs_rules rs). valid_rule r)"

lemma map_filter_if: "List.map_filter (\<lambda>x. if P x then Some (f x) else None) xs = map f (filter P xs)"
  by (induction xs) (simp_all add: map_filter_simps)

lemma find_distinct: "distinct (map f xs) \<Longrightarrow> x \<in> set xs \<Longrightarrow> List.find (\<lambda>y. f y = f x) xs = Some x"
  by (induction xs) auto

lemma validate_ok: "validate r = Inr () \<longleftrightarrow> valid_rule r"
proof -
  have "(case r_ports r of None \<Rightarrow> True | Some p \<Rightarrow> p = []) \<longleftrightarrow> \<not> (\<exists>p ps. r_ports r = Some (p # ps))"
    by (cases "r_ports r"; cases "the (r_ports r)") auto
  moreover have "d > 100 \<longleftrightarrow> \<not> unat d \<le> 100" for d :: u8
    by (simp add: word_less_nat_alt not_le)
  ultimately show ?thesis by (auto simp: validate_def valid_rule_def split: action.splits)
qed

lemma check_rules_ok:
  "check_rules seen rs = Inr () \<longleftrightarrow>
     distinct (map r_id rs) \<and> set (map r_id rs) \<inter> set seen = {} \<and> (\<forall>r \<in> set rs. valid_rule r)"
proof (induction rs arbitrary: seen)
  case (Cons r rs)
  show ?case
  proof (cases "validate r")
    case (Inl e)
    then have "\<not> valid_rule r" by (simp add: validate_ok [symmetric])
    with Inl show ?thesis by simp
  next
    case (Inr u)
    then have "valid_rule r" by (simp add: validate_ok [symmetric])
    with Inr Cons.IH [of "r_id r # seen"] show ?thesis by auto
  qed
qed simp

lemma check_rules_error:
  "check_rules seen rs = Inl e \<longleftrightarrow>
     (\<exists>pre r post. rs = pre @ r # post \<and> check_rules seen pre = Inr () \<and>
        (validate r = Inl e \<or>
         validate r = Inr () \<and> r_id r \<in> set seen \<union> set (map r_id pre) \<and> e = DuplicateRuleId (r_id r)))"
  (is "_ \<longleftrightarrow> ?ex seen rs")
proof (induction rs arbitrary: seen)
  case (Cons a rs)
  have split: "?ex seen (a # rs) \<longleftrightarrow>
      (validate a = Inl e \<or> validate a = Inr () \<and> r_id a \<in> set seen \<and> e = DuplicateRuleId (r_id a)) \<or>
      (validate a = Inr () \<and> r_id a \<notin> set seen \<and> ?ex (r_id a # seen) rs)"
    (is "_ \<longleftrightarrow> ?here \<or> ?later")
  proof
    assume "?ex seen (a # rs)"
    then obtain pre r post where d: "a # rs = pre @ r # post" "check_rules seen pre = Inr ()"
      "validate r = Inl e \<or>
         validate r = Inr () \<and> r_id r \<in> set seen \<union> set (map r_id pre) \<and> e = DuplicateRuleId (r_id r)"
      by blast
    show "?here \<or> ?later"
    proof (cases pre)
      case Nil
      with d show ?thesis by auto
    next
      case (Cons x xs)
      with d show ?thesis by (auto split: sum.splits if_splits)
    qed
  next
    assume "?here \<or> ?later"
    then show "?ex seen (a # rs)"
    proof
      assume ?here
      then show ?thesis by (intro exI [of _ "[]"]) auto
    next
      assume ?later
      then obtain pre r post where "rs = pre @ r # post" "check_rules (r_id a # seen) pre = Inr ()"
        "validate r = Inl e \<or>
           validate r = Inr () \<and> r_id r \<in> set (r_id a # seen) \<union> set (map r_id pre) \<and> e = DuplicateRuleId (r_id r)"
        by blast
      with \<open>?later\<close> show ?thesis by (intro exI [of _ "a # pre"]) auto
    qed
  qed
  show ?case
    unfolding split using Cons.IH [of "r_id a # seen"] by (auto split: sum.splits)
qed simp

text \<open>
  A rule set is accepted exactly when it has at most 256 rules, every rule is valid and no
  two share an id, and it then holds the rules as given. Otherwise the answer is the error for
  the size, or else the error of the first rule that is invalid or repeats an earlier id.
\<close>

lemma rule_set_new_correct:
  "(rule_set_new rules = Inr rs \<longleftrightarrow> rs = \<lparr>rs_rules = rules\<rparr> \<and> rs_wf rs) \<and>
   (rule_set_new rules = Inl e \<longleftrightarrow>
      (if length rules > MAX_RULES then e = TooManyRules (length rules) MAX_RULES
       else \<exists>pre r post. rules = pre @ r # post \<and> rs_wf \<lparr>rs_rules = pre\<rparr> \<and>
              (validate r = Inl e \<or>
               validate r = Inr () \<and> r_id r \<in> set (map r_id pre) \<and> e = DuplicateRuleId (r_id r))))"
proof -
  have wf: "rs_wf \<lparr>rs_rules = xs\<rparr> \<longleftrightarrow> length xs \<le> MAX_RULES \<and> check_rules [] xs = Inr ()" for xs :: "'a rule list"
    by (auto simp: rs_wf_def check_rules_ok)
  have 1: "rule_set_new rules = Inr rs \<longleftrightarrow> rs = \<lparr>rs_rules = rules\<rparr> \<and> rs_wf rs"
    by (auto simp: rule_set_new_def wf split: sum.splits)
  have "rule_set_new rules = Inl e \<longleftrightarrow> (if length rules > MAX_RULES then e = TooManyRules (length rules) MAX_RULES
      else check_rules [] rules = Inl e)"
    by (auto simp: rule_set_new_def split: sum.splits)
  moreover have "check_rules [] rules = Inl e \<longleftrightarrow>
      (\<exists>pre r post. rules = pre @ r # post \<and> rs_wf \<lparr>rs_rules = pre\<rparr> \<and>
         (validate r = Inl e \<or>
          validate r = Inr () \<and> r_id r \<in> set (map r_id pre) \<and> e = DuplicateRuleId (r_id r)))"
    if "\<not> length rules > MAX_RULES"
    unfolding check_rules_error [of "[]"] using that by (intro iff_exI) (auto simp: wf)
  ultimately show ?thesis using 1 by (cases "length rules > MAX_RULES") simp_all
qed

text \<open>
  After any history of increments and advances of a client's windows, the engine reports
  exactly the rules for which the logged increments of the rule's own metric within its
  window sum to more than its limit, in the order of the rules, each with that sum.
\<close>

lemma evaluate_correct:
  "evaluate rs (rw_run ops) =
     map (\<lambda>r. \<lparr>v_rule_id = r_id r,
               v_value = log_sum (rule_log (r_id r) ops) (r_metric r) (window_secs (r_window r)),
               v_limit = r_limit r, v_action = r_action r\<rparr>)
       (filter (\<lambda>r. r_limit r < log_sum (rule_log (r_id r) ops) (r_metric r) (window_secs (r_window r)))
          (rs_rules rs))"
proof -
  have "clamp_secs (window_secs w) = window_secs w" for w
    by (cases w) (simp_all add: clamp_secs_def)
  then have sum: "rw_sum (rw_run ops) (r_id r) (r_metric r) (window_secs (r_window r)) =
      log_sum (rule_log (r_id r) ops) (r_metric r) (window_secs (r_window r))" for r :: "'a rule"
    by (simp add: rw_run_sum)
  show ?thesis
    unfolding evaluate_def sum Let_def
    by (simp add: map_filter_if)
qed

lemma evaluate_member:
  "v \<in> set (evaluate rs ws) \<longleftrightarrow>
     (\<exists>r \<in> set (rs_rules rs). let s = rw_sum ws (r_id r) (r_metric r) (window_secs (r_window r))
        in s > r_limit r \<and> v = \<lparr>v_rule_id = r_id r, v_value = s, v_limit = r_limit r, v_action = r_action r\<rparr>)"
  by (auto simp: evaluate_def List.map_filter_def Let_def split: if_splits)

lemma rule_set_get_wf:
  "rs_wf rs \<Longrightarrow> r \<in> set (rs_rules rs) \<Longrightarrow> rule_set_get rs (r_id r) = Some r"
  by (simp add: rs_wf_def rule_set_get_def find_distinct)

lemma evaluate_distinct: "rs_wf rs \<Longrightarrow> distinct (map v_rule_id (evaluate rs ws))"
proof -
  have "distinct (map r_id rules) \<Longrightarrow> distinct (map v_rule_id (evaluate \<lparr>rs_rules = rules\<rparr> ws))" for rules :: "'a rule list"
  proof (induction rules)
    case (Cons r rules)
    have "v_rule_id ` set (evaluate \<lparr>rs_rules = rules\<rparr> ws) \<subseteq> r_id ` set rules"
      by (auto simp: evaluate_member Let_def)
    with Cons show ?case by (auto simp: evaluate_def map_filter_simps Let_def)
  qed (simp add: evaluate_def map_filter_simps)
  from this [of "rs_rules rs"] show "rs_wf rs \<Longrightarrow> ?thesis" by (cases rs) (simp add: rs_wf_def)
qed

end
