(* ===== verification/Net_Addr.thy ===== *)
theory Net_Addr
  imports Rust_Str
begin

text \<open>
  \<open>std::net::IpAddr\<close> as the program uses it: its value, its \<open>Display\<close> form and its
  \<open>FromStr\<close> parser. The parser functions return the value read and the rest of the input,
  \<open>None\<close> standing for a failed read that consumes nothing. The main result is that the
  parser reads back every printed address, IPv4 and IPv6.
\<close>

section \<open>Addresses\<close>

datatype ipv4_addr = Ipv4 u8 u8 u8 u8

datatype ipv6_addr = Ipv6 u16 u16 u16 u16 u16 u16 u16 u16

datatype ip_addr = V4 ipv4_addr | V6 ipv6_addr

fun octets :: "ipv4_addr \<Rightarrow> u8 list" where
  "octets (Ipv4 a b c d) = [a, b, c, d]"

fun segments :: "ipv6_addr \<Rightarrow> u16 list" where
  "segments (Ipv6 a b c d e f g h) = [a, b, c, d, e, f, g, h]"

fun ipv6_of_groups :: "nat list \<Rightarrow> ipv6_addr option" where
  "ipv6_of_groups [a, b, c, d, e, f, g, h] =
     Some (Ipv6 (of_nat a) (of_nat b) (of_nat c) (of_nat d)
                (of_nat e) (of_nat f) (of_nat g) (of_nat h))"
| "ipv6_of_groups _ = None"

section \<open>Printing\<close>

definition show_ipv4 :: "ipv4_addr \<Rightarrow> string" where
  "show_ipv4 ip = join_with ''.'' (map (\<lambda>b. fmt_dec (unat b)) (octets ip))"

definition show_groups :: "u16 list \<Rightarrow> string" where
  "show_groups gs = join_with '':'' (map (\<lambda>g. fmt_hex (unat g)) gs)"

text \<open>The longest run of zero segments, the first one among equals, as (start, length).\<close>

fun zero_span :: "nat \<Rightarrow> nat \<times> nat \<Rightarrow> nat \<times> nat \<Rightarrow> u16 list \<Rightarrow> nat \<times> nat" where
  "zero_span i longest cur [] = longest"
| "zero_span i longest cur (s # ss) =
     (if s = 0 then
        let cur' = (if snd cur = 0 then i else fst cur, snd cur + 1);
            longest' = (if snd cur' > snd longest then cur' else longest)
        in zero_span (Suc i) longest' cur' ss
      else zero_span (Suc i) longest (0, 0) ss)"

fun to_ipv4_mapped :: "ipv6_addr \<Rightarrow> ipv4_addr option" where
  "to_ipv4_mapped (Ipv6 a b c d e f g h) =
     (if a = 0 \<and> b = 0 \<and> c = 0 \<and> d = 0 \<and> e = 0 \<and> f = 0xFFFF
      then Some (Ipv4 (of_nat (unat g div 256)) (of_nat (unat g mod 256))
                      (of_nat (unat h div 256)) (of_nat (unat h mod 256)))
      else None)"

definition show_ipv6 :: "ipv6_addr \<Rightarrow> string" where
  "show_ipv6 ip =
     (case to_ipv4_mapped ip of
        Some v4 \<Rightarrow> ''::ffff:'' @ show_ipv4 v4
      | None \<Rightarrow>
          (let segs = segments ip; (start, len) = zero_span 0 (0, 0) (0, 0) segs
           in if len > 1
              then show_groups (take start segs) @ ''::'' @ show_groups (drop (start + len) segs)
              else show_groups segs))"

definition show_ip :: "ip_addr \<Rightarrow> string" where
  "show_ip ip = (case ip of V4 a \<Rightarrow> show_ipv4 a | V6 a \<Rightarrow> show_ipv6 a)"

section \<open>Parsing\<close>

fun read_digits :: "nat \<Rightarrow> nat \<Rightarrow> nat \<Rightarrow> nat \<Rightarrow> string \<Rightarrow> (nat \<times> nat \<times> string) option" where
  "read_digits r maxd acc cnt [] = Some (acc, cnt, [])"
| "read_digits r maxd acc cnt (c # cs) =
     (case to_digit r c of
        None \<Rightarrow> Some (acc, cnt, c # cs)
      | Some d \<Rightarrow> if cnt + 1 > maxd then None else read_digits r maxd (acc * r + d) (cnt + 1) cs)"

definition read_number :: "nat \<Rightarrow> nat \<Rightarrow> bool \<Rightarrow> nat \<Rightarrow> string \<Rightarrow> (nat \<times> string) option" where
  "read_number r maxd allow_zero_prefix m s =
     (case read_digits r maxd 0 0 s of
        None \<Rightarrow> None
      | Some (res, cnt, rest) \<Rightarrow>
          if cnt = 0 then None
          else if \<not> allow_zero_prefix \<and> hd s = CHR ''0'' \<and> cnt > 1 then None
          else if res \<le> m then Some (res, rest) else None)"

definition read_separator ::
    "char \<Rightarrow> nat \<Rightarrow> (string \<Rightarrow> ('a \<times> string) option) \<Rightarrow> string \<Rightarrow> ('a \<times> string) option" where
  "read_separator sep i f s =
     (if i > 0 then (case s of c # cs \<Rightarrow> if c = sep then f cs else None | [] \<Rightarrow> None) else f s)"

definition read_octet :: "string \<Rightarrow> (nat \<times> string) option" where
  "read_octet s = read_number 10 3 False 255 s"

definition read_ipv4 :: "string \<Rightarrow> (ipv4_addr \<times> string) option" where
  "read_ipv4 s = do {
     (a, s1) \<leftarrow> read_separator CHR ''.'' 0 read_octet s;
     (b, s2) \<leftarrow> read_separator CHR ''.'' 1 read_octet s1;
     (c, s3) \<leftarrow> read_separator CHR ''.'' 2 read_octet s2;
     (d, s4) \<leftarrow> read_separator CHR ''.'' 3 read_octet s3;
     Some (Ipv4 (of_nat a) (of_nat b) (of_nat c) (of_nat d), s4)
   }"

definition group_of_octets :: "u8 \<Rightarrow> u8 \<Rightarrow> nat" where
  "group_of_octets a b = unat a * 256 + unat b"

text \<open>Reads up to \<open>limit - i\<close> groups; the flag says whether the last two are an embedded IPv4 address.\<close>

function read_groups :: "nat \<Rightarrow> nat \<Rightarrow> string \<Rightarrow> nat list \<times> bool \<times> string" where
  "read_groups limit i s =
     (if limit \<le> i then ([], False, s)
      else case (if i < limit - 1 then read_separator CHR '':'' i read_ipv4 s else None) of
          Some (Ipv4 a b c d, s') \<Rightarrow> ([group_of_octets a b, group_of_octets c d], True, s')
        | None \<Rightarrow>
            (case read_separator CHR '':'' i (read_number 16 4 True 65535) s of
               Some (g, s') \<Rightarrow>
                 (let (gs, v4, s'') = read_groups limit (Suc i) s' in (g # gs, v4, s''))
             | None \<Rightarrow> ([], False, s)))"
  by pat_completeness auto
termination
  by (relation "measure (\<lambda>(limit, i, s). limit - i)") auto

definition read_ipv6 :: "string \<Rightarrow> (ipv6_addr \<times> string) option" where
  "read_ipv6 s =
     (let (head, v4, s1) = read_groups 8 0 s
      in if length head = 8 then map_option (\<lambda>ip. (ip, s1)) (ipv6_of_groups head)
         else if v4 then None
         else if prefix ''::'' s1 then
           (let (tail, _, s3) = read_groups (8 - (length head + 1)) 0 (drop 2 s1)
            in map_option (\<lambda>ip. (ip, s3))
                 (ipv6_of_groups (head @ replicate (8 - length head - length tail) 0 @ tail)))
         else None)"

text \<open>\<open>IpAddr::from_str\<close>: an address and nothing after it.\<close>

definition parse_ip :: "string \<Rightarrow> ip_addr option" where
  "parse_ip s =
     (case (case read_ipv4 s of
              Some (a, rest) \<Rightarrow> Some (V4 a, rest)
            | None \<Rightarrow> map_option (\<lambda>(a, rest). (V6 a, rest)) (read_ipv6 s)) of
        Some (ip, rest) \<Rightarrow> if rest = [] then Some ip else None
      | None \<Rightarrow> None)"

section \<open>Reading back a number\<close>

definition no_digit :: "nat \<Rightarrow> string \<Rightarrow> bool" where
  "no_digit r s = (case s of [] \<Rightarrow> True | c # _ \<Rightarrow> to_digit r c = None)"

declare read_groups.simps [simp del]

lemma read_digits_app:
  assumes "\<forall>c \<in> set ds. to_digit r c \<noteq> None" "cnt + length ds \<le> maxd" "no_digit r rest"
    "parse_digits r m acc ds = Some v"
  shows "read_digits r maxd acc cnt (ds @ rest) = Some (v, cnt + length ds, rest)"
  using assms
proof (induction ds arbitrary: acc cnt)
  case Nil
  then show ?case by (cases rest) (auto simp: no_digit_def)
next
  case (Cons c cs)
  then show ?case by (auto split: option.splits if_splits)
qed

lemma fmt_radix_length: "1 < r \<Longrightarrow> n < r ^ Suc k \<Longrightarrow> length (fmt_radix r n) \<le> Suc k"
proof (induction k arbitrary: n)
  case 0
  then show ?case by (subst fmt_radix.simps) simp
next
  case (Suc k)
  show ?case
  proof (cases "n < r")
    case True
    then show ?thesis by (subst fmt_radix.simps) simp
  next
    case False
    from Suc.prems have "n div r < r ^ Suc k"
      by (metis less_mult_imp_div_less mult.commute power_Suc)
    with Suc False show ?thesis by (subst fmt_radix.simps) simp
  qed
qed

lemma fmt_radix_max: "1 < r \<Longrightarrow> 0 < k \<Longrightarrow> n < r ^ k \<Longrightarrow> length (fmt_radix r n) \<le> k"
  using fmt_radix_length [of r n "k - 1"] by simp

lemma hd_fmt_radix: "1 < r \<Longrightarrow> r \<le> 16 \<Longrightarrow> 1 < length (fmt_radix r n) \<Longrightarrow> hd (fmt_radix r n) \<noteq> CHR ''0''"
proof (induction r n rule: fmt_radix.induct)
  case (1 r n)
  then have big: "\<not> n < r" by (auto simp: fmt_radix.simps [of r n])
  have eq: "fmt_radix r n = fmt_radix r (n div r) @ [digit_char (n mod r)]"
    using 1 big by (simp add: fmt_radix.simps [of r n])
  show ?case
  proof (cases "n div r < r")
    case True
    have pos: "0 < n div r" using big "1.prems" by (simp add: div_greater_zero_iff)
    have "byte_of (digit_char (n div r)) \<noteq> 48" using True pos "1.prems" by (simp add: digit_char_byte)
    then have "digit_char (n div r) \<noteq> CHR ''0''" by (auto simp: byte_of_def)
    with True eq show ?thesis by (simp add: fmt_radix.simps [of r "n div r"])
  next
    case False
    with "1.prems" have "1 < length (fmt_radix r (n div r))"
      by (subst fmt_radix.simps) (simp add: Suc_lessI)
    with 1 big show ?thesis by (simp add: eq)
  qed
qed

lemma read_number_fmt:
  assumes "1 < r" "r \<le> 16" "n \<le> m" "n < r ^ k" "0 < k" "no_digit r rest"
  shows "read_number r k z m (fmt_radix r n @ rest) = Some (n, rest)"
proof -
  have digs: "\<forall>c \<in> set (fmt_radix r n). to_digit r c \<noteq> None"
    using assms(1,2) fmt_radix_digits [of r _ n] to_digit_digit_char by fastforce
  have "read_digits r k 0 0 (fmt_radix r n @ rest) = Some (n, length (fmt_radix r n), rest)"
    using read_digits_app [OF digs _ assms(6) parse_fmt_radix [OF assms(1-3)], of 0 k]
      fmt_radix_max [OF assms(1,5,4)] by simp
  moreover have "1 < length (fmt_radix r n) \<longrightarrow> hd (fmt_radix r n @ rest) \<noteq> CHR ''0''"
    using hd_fmt_radix [OF assms(1,2)] by (simp add: hd_append)
  ultimately show ?thesis using assms(3) by (auto simp: read_number_def)
qed

section \<open>Reading back an IPv4 address\<close>

lemma unat_u8_bound: "unat (b :: u8) \<le> 255"
  using unat_bound [of b] by simp

lemma unat_u16_bound: "unat (b :: u16) \<le> 65535"
  using unat_bound [of b] by simp

lemma read_octet_fmt: "no_digit 10 rest \<Longrightarrow> read_octet (fmt_dec (unat b) @ rest) = Some (unat b, rest)"
  for b :: u8
  using read_number_fmt [of 10 "unat b" 255 3 rest False] unat_u8_bound [of b]
  by (simp add: read_octet_def fmt_dec_def)

lemma no_digit_dot: "no_digit 10 (CHR ''.'' # s)"
  by (simp add: no_digit_def to_digit_def byte_of_def)

lemma no_digit_colon: "no_digit r (CHR '':'' # s)"
  by (simp add: no_digit_def to_digit_def byte_of_def)

lemma no_digit_Nil [simp]: "no_digit r []"
  by (simp add: no_digit_def)

lemma read_ipv4_show:
  assumes "no_digit 10 rest"
  shows "read_ipv4 (show_ipv4 ip @ rest) = Some (ip, rest)"
proof (cases ip)
  case (Ipv4 a b c d)
  then show ?thesis
    using assms
    by (simp add: read_ipv4_def show_ipv4_def read_separator_def read_octet_fmt no_digit_dot)
qed

lemma read_octet_digits:
  assumes "read_octet s = Some (n, rest)"
  shows "\<exists>ds. s = ds @ rest \<and> (\<forall>c \<in> set ds. to_digit 10 c \<noteq> None)"
proof -
  have *: "read_digits 10 maxd acc cnt s = Some (v, k, rest) \<Longrightarrow>
      \<exists>ds. s = ds @ rest \<and> (\<forall>c \<in> set ds. to_digit 10 c \<noteq> None)" for maxd acc cnt v k
  proof (induction s arbitrary: acc cnt)
    case (Cons c cs)
    show ?case
    proof (cases "to_digit 10 c")
      case None
      with Cons.prems show ?thesis by auto
    next
      case (Some d)
      with Cons.prems have "read_digits 10 maxd (acc * 10 + d) (Suc cnt) cs = Some (v, k, rest)"
        by (simp split: if_splits)
      then obtain ds where "cs = ds @ rest" "\<forall>x \<in> set ds. to_digit 10 x \<noteq> None"
        using Cons.IH by blast
      with Some show ?thesis by (intro exI [of _ "c # ds"]) auto
    qed
  qed simp
  from assms obtain k where "read_digits 10 3 0 0 s = Some (n, k, rest)"
    by (auto simp: read_octet_def read_number_def split: option.splits if_splits)
  then show ?thesis by (rule *)
qed

text \<open>An IPv4 read succeeds only when the first character that is no decimal digit is a dot.\<close>

lemma read_ipv4_dot:
  assumes "read_ipv4 s = Some r"
  shows "\<exists>ds t. s = ds @ CHR ''.'' # t \<and> (\<forall>c \<in> set ds. to_digit 10 c \<noteq> None)"
proof -
  from assms obtain a s1 b s2 where "read_octet s = Some (a, s1)"
    and b: "read_separator CHR ''.'' 1 read_octet s1 = Some (b, s2)"
    by (auto simp: read_ipv4_def read_separator_def split: bind_splits)
  then obtain ds where "s = ds @ s1" "\<forall>c \<in> set ds. to_digit 10 c \<noteq> None"
    using read_octet_digits by blast
  moreover from b obtain t where "s1 = CHR ''.'' # t"
    by (auto simp: read_separator_def split: list.splits if_splits)
  ultimately show ?thesis by blast
qed

lemma hex_no_dot: "CHR ''.'' \<notin> set (fmt_hex n)"
proof
  assume "CHR ''.'' \<in> set (fmt_hex n)"
  then obtain d where "d < 16" "CHR ''.'' = digit_char d"
    using fmt_radix_digits [of 16 "CHR ''.''" n] by (auto simp: fmt_hex_def)
  then have "byte_of CHR ''.'' \<in> {48..57} \<union> {97..102}" using digit_char_bytes by metis
  then show False by (simp add: byte_of_def)
qed

lemma read_ipv4_hex_colon: "read_ipv4 (fmt_hex n @ CHR '':'' # t) = None"
proof (rule ccontr)
  assume "read_ipv4 (fmt_hex n @ CHR '':'' # t) \<noteq> None"
  then obtain r where "read_ipv4 (fmt_hex n @ CHR '':'' # t) = Some r" by blast
  from read_ipv4_dot [OF this] obtain ds u where
    eq: "fmt_hex n @ CHR '':'' # t = ds @ CHR ''.'' # u"
    and ds: "\<forall>c \<in> set ds. to_digit 10 c \<noteq> None" by blast
  have "CHR '':'' \<notin> set ds" using ds by (auto simp: to_digit_def byte_of_def)
  moreover from eq have "CHR '':'' \<in> set ds \<or> CHR ''.'' \<in> set (fmt_hex n)"
    by (auto simp: append_eq_append_conv2 Cons_eq_append_conv append_eq_Cons_conv)
  ultimately show False using hex_no_dot by blast
qed

lemma read_ipv4_hex_end: "read_ipv4 (fmt_hex n) = None"
proof (rule ccontr)
  assume "read_ipv4 (fmt_hex n) \<noteq> None"
  then obtain r where "read_ipv4 (fmt_hex n) = Some r" by blast
  from read_ipv4_dot [OF this] hex_no_dot [of n] show False by auto
qed

section \<open>Reading back an IPv6 address\<close>

text \<open>What may follow a run of groups: the end of the text or a double colon.\<close>

definition ends_groups :: "string \<Rightarrow> bool" where
  "ends_groups rest \<longleftrightarrow> rest = [] \<or> (\<exists>t. rest = ''::'' @ t)"

lemma read_hex_group:
  "no_digit 16 rest \<Longrightarrow> read_number 16 4 True 65535 (fmt_hex (unat g) @ rest) = Some (unat g, rest)"
  for g :: u16
  using read_number_fmt [of 16 "unat g" 65535 4 rest True] unat_u16_bound [of g]
  by (simp add: fmt_hex_def)

lemma read_number_colon: "read_number r k z m (CHR '':'' # t) = None"
  using no_digit_colon [of r t] by (simp add: read_number_def no_digit_def)

lemma read_number_Nil: "read_number r k z m [] = None"
  by (simp add: read_number_def)

lemma read_ipv4_Nil: "read_ipv4 [] = None"
  by (simp add: read_ipv4_def read_separator_def read_octet_def read_number_Nil)

lemma read_ipv4_colon: "read_ipv4 (CHR '':'' # t) = None"
  by (simp add: read_ipv4_def read_separator_def read_octet_def read_number_colon)

lemma read_separator_stop:
  assumes "ends_groups rest"
  shows "read_separator CHR '':'' i read_ipv4 rest = None"
    "read_separator CHR '':'' i (read_number r k z m) rest = None"
  using assms
  by (auto simp: ends_groups_def read_separator_def read_number_colon read_ipv4_colon
      read_number_Nil read_ipv4_Nil)

lemma read_groups_stop: "ends_groups rest \<Longrightarrow> read_groups limit i rest = ([], False, rest)"
  by (subst read_groups.simps) (simp add: read_separator_stop)

definition sep_prefix :: "nat \<Rightarrow> string" where
  "sep_prefix i = (if i = 0 then [] else '':'')"

lemma read_separator_prefix: "read_separator CHR '':'' i f (sep_prefix i @ s) = f s"
  by (simp add: read_separator_def sep_prefix_def)

lemma group_after:
  assumes "ends_groups rest"
  shows "no_digit 16 rest" "read_ipv4 (fmt_hex n @ rest) = None"
  using assms by (auto simp: ends_groups_def no_digit_colon read_ipv4_hex_end read_ipv4_hex_colon)

lemma read_groups_show:
  assumes "ends_groups rest" "gs \<noteq> []" "i + length gs \<le> limit"
  shows "read_groups limit i (sep_prefix i @ show_groups gs @ rest) = (map unat gs, False, rest)"
  using assms
proof (induction gs arbitrary: i)
  case (Cons g gs)
  have i: "\<not> limit \<le> i" using Cons.prems by simp
  show ?case
  proof (cases "gs = []")
    case True
    have "read_groups limit (Suc i) rest = ([], False, rest)"
      using Cons.prems by (intro read_groups_stop)
    with True i show ?thesis
      by (simp add: read_groups.simps [of limit i] show_groups_def read_separator_prefix
          group_after [OF Cons.prems(1)] read_hex_group)
  next
    case False
    then obtain h hs where gs: "gs = h # hs" by (cases gs) auto
    have IH: "read_groups limit (Suc i) (CHR '':'' # show_groups gs @ rest) =
        (map unat gs, False, rest)"
      using Cons.IH [of "Suc i"] Cons.prems False by (simp add: sep_prefix_def)
    have shown: "show_groups (g # gs) @ rest = fmt_hex (unat g) @ CHR '':'' # show_groups gs @ rest"
      by (simp add: show_groups_def gs)
    show ?thesis
      using i IH
      by (simp add: read_groups.simps [of limit i] shown read_separator_prefix read_ipv4_hex_colon
          read_hex_group no_digit_colon)
  qed
qed simp

lemma read_groups_show0:
  assumes "ends_groups rest" "length gs \<le> limit"
  shows "read_groups limit 0 (show_groups gs @ rest) = (map unat gs, False, rest)"
proof (cases "gs = []")
  case True
  then show ?thesis using assms by (simp add: show_groups_def read_groups_stop)
next
  case False
  then show ?thesis using read_groups_show [of rest gs 0 limit] assms by (simp add: sep_prefix_def)
qed

definition span_ok :: "u16 list \<Rightarrow> nat \<times> nat \<Rightarrow> bool" where
  "span_ok xs sp \<longleftrightarrow> fst sp + snd sp \<le> length xs \<and>
     (\<forall>j. fst sp \<le> j \<and> j < fst sp + snd sp \<longrightarrow> xs ! j = 0)"

lemma zero_span_ok:
  assumes "xs = pre @ ss" "i = length pre" "span_ok xs longest" "span_ok xs cur"
    "snd cur > 0 \<longrightarrow> fst cur + snd cur = i"
  shows "span_ok xs (zero_span i longest cur ss)"
  using assms
proof (induction ss arbitrary: pre i longest cur)
  case (Cons s ss)
  show ?case
  proof (cases "s = 0")
    case True
    define cur' where "cur' = (if snd cur = 0 then i else fst cur, snd cur + 1)"
    have "xs ! i = 0" using Cons.prems(1,2) True by simp
    then have c: "span_ok xs cur'" "fst cur' + snd cur' = Suc i"
      using Cons.prems by (auto simp: cur'_def span_ok_def less_Suc_eq)
    then have "span_ok xs (zero_span (Suc i) (if snd cur' > snd longest then cur' else longest) cur' ss)"
      using Cons.prems by (intro Cons.IH [of "pre @ [s]"]) auto
    moreover have "zero_span i longest cur (s # ss) =
        zero_span (Suc i) (if snd cur' > snd longest then cur' else longest) cur' ss"
      using True by (simp add: cur'_def Let_def)
    ultimately show ?thesis by simp
  next
    case False
    have "span_ok xs (zero_span (Suc i) longest (0, 0) ss)"
      using Cons.prems by (intro Cons.IH [of "pre @ [s]"]) (auto simp: span_ok_def)
    with False show ?thesis by simp
  qed
qed simp

lemma span_zeros:
  assumes "span_ok xs (st, len)"
  shows "take st xs @ replicate len 0 @ drop (st + len) xs = xs"
proof (rule nth_equalityI)
  show "length (take st xs @ replicate len 0 @ drop (st + len) xs) = length xs"
    using assms by (auto simp: span_ok_def)
next
  fix j assume "j < length (take st xs @ replicate len 0 @ drop (st + len) xs)"
  with assms show "(take st xs @ replicate len 0 @ drop (st + len) xs) ! j = xs ! j"
    by (auto simp: span_ok_def nth_append)
qed

lemma ipv6_of_groups_segments: "ipv6_of_groups (map unat (segments ip)) = Some ip"
  by (cases ip) simp

lemma length_segments [simp]: "length (segments ip) = 8"
  by (cases ip) simp

lemma read_ipv6_full: "read_ipv6 (show_groups (segments ip)) = Some (ip, [])"
proof -
  have "read_groups 8 0 (show_groups (segments ip)) = (map unat (segments ip), False, [])"
    using read_groups_show0 [of "[]" "segments ip" 8] by (simp add: ends_groups_def)
  then show ?thesis by (simp add: read_ipv6_def ipv6_of_groups_segments)
qed

lemma read_ipv6_compressed:
  assumes "span_ok (segments ip) (st, len)" "1 < len"
  shows "read_ipv6 (show_groups (take st (segments ip)) @ ''::'' @
           show_groups (drop (st + len) (segments ip))) = Some (ip, [])"
proof -
  let ?h = "take st (segments ip)" and ?t = "drop (st + len) (segments ip)"
  have bound: "st + len \<le> 8" using assms(1) by (simp add: span_ok_def)
  have head: "read_groups 8 0 (show_groups ?h @ ''::'' @ show_groups ?t) =
      (map unat ?h, False, ''::'' @ show_groups ?t)"
    by (rule read_groups_show0) (auto simp: ends_groups_def)
  have "read_groups (7 - st) 0 (show_groups ?t @ []) = (map unat ?t, False, [])"
    by (rule read_groups_show0) (use assms(2) bound in \<open>auto simp: ends_groups_def\<close>)
  then have tail: "read_groups (7 - st) 0 (show_groups ?t) = (map unat ?t, False, [])" by simp
  have "map unat ?h @ replicate (8 - st - (8 - (st + len))) 0 @ map unat ?t =
      map unat (?h @ replicate len 0 @ ?t)"
    using bound by simp
  also have "\<dots> = map unat (segments ip)"
    using span_zeros [OF assms(1)] by simp
  finally have groups: "ipv6_of_groups
      (map unat ?h @ replicate (8 - st - (8 - (st + len))) 0 @ map unat ?t) = Some ip"
    by (simp add: ipv6_of_groups_segments)
  have "st < 8" using assms(2) bound by simp
  with head tail groups bound show ?thesis
    by (simp add: read_ipv6_def min_def)
qed

lemma group_of_mapped: "group_of_octets (of_nat (unat g div 256)) (of_nat (unat g mod 256)) = unat g"
  for g :: u16
proof -
  have "unat g div 256 < 256" using unat_u16_bound [of g] by simp
  then show ?thesis by (simp add: group_of_octets_def unat_of_nat)
qed

lemma read_ipv6_mapped:
  assumes "to_ipv4_mapped ip = Some v4"
  shows "read_ipv6 (''::ffff:'' @ show_ipv4 v4) = Some (ip, [])"
proof -
  obtain g h where ip: "ip = Ipv6 0 0 0 0 0 0xFFFF g h"
    and v4: "v4 = Ipv4 (of_nat (unat g div 256)) (of_nat (unat g mod 256))
                       (of_nat (unat h div 256)) (of_nat (unat h mod 256))"
    using assms by (cases ip) (auto split: if_splits)
  have "digit_char 15 = CHR ''f''" by code_simp
  then have ffff: "''ffff'' = fmt_hex (unat (0xFFFF :: u16))"
    by (simp add: fmt_hex_def fmt_radix.simps)
  have v4read: "read_ipv4 (show_ipv4 v4) = Some (v4, [])"
    using read_ipv4_show [of "[]" v4] by simp
  have embedded: "read_groups 7 (Suc 0) (CHR '':'' # show_ipv4 v4) = ([unat g, unat h], True, [])"
    by (subst read_groups.simps) (simp add: read_separator_def v4read, simp add: v4 group_of_mapped)
  have "read_groups 7 0 (fmt_hex (unat f) @ CHR '':'' # show_ipv4 v4) =
      ([unat f, unat g, unat h], True, [])" for f :: u16
    by (subst read_groups.simps)
      (simp add: read_separator_def read_ipv4_hex_colon read_hex_group no_digit_colon embedded)
  from this [of "0xFFFF"] have tail:
    "read_groups 7 0 (''ffff:'' @ show_ipv4 v4) = ([0xFFFF, unat g, unat h], True, [])"
    unfolding ffff [symmetric] by simp
  have "read_groups 8 0 (''::'' @ ''ffff:'' @ show_ipv4 v4) = ([], False, ''::'' @ ''ffff:'' @ show_ipv4 v4)"
    by (rule read_groups_stop) (simp add: ends_groups_def)
  moreover have "replicate 5 (0::nat) = [0, 0, 0, 0, 0]" by (simp add: numeral_eq_Suc)
  ultimately show ?thesis using tail by (simp add: read_ipv6_def ip)
qed

lemma read_ipv6_show: "read_ipv6 (show_ipv6 ip) = Some (ip, [])"
proof (cases "to_ipv4_mapped ip")
  case (Some v4)
  then show ?thesis by (simp add: show_ipv6_def read_ipv6_mapped del: append.simps)
next
  case None
  obtain st len where sp: "zero_span 0 (0, 0) (0, 0) (segments ip) = (st, len)" by fastforce
  have "span_ok (segments ip) (zero_span 0 (0, 0) (0, 0) (segments ip))"
    by (rule zero_span_ok [of _ "[]"]) (auto simp: span_ok_def)
  with sp have "span_ok (segments ip) (st, len)" by simp
  with None sp show ?thesis
    by (simp add: show_ipv6_def Let_def read_ipv6_full read_ipv6_compressed del: append.simps)
qed

lemma read_ipv4_show_ipv6: "read_ipv4 (show_ipv6 ip) = None"
proof (cases "to_ipv4_mapped ip")
  case (Some v4)
  then show ?thesis by (simp add: show_ipv6_def read_ipv4_colon)
next
  case None
  have "read_ipv4 (show_groups gs @ rest) = None" if "gs \<noteq> []" "ends_groups rest" for gs rest
  proof (cases gs)
    case (Cons g gs')
    then show ?thesis
      by (cases gs') (use that group_after(2) [OF that(2)] read_ipv4_hex_colon in
          \<open>auto simp: show_groups_def\<close>)
  qed (use that in simp)
  note groups = this
  obtain st len where sp: "zero_span 0 (0, 0) (0, 0) (segments ip) = (st, len)" by fastforce
  have segs: "segments ip \<noteq> []" by (cases ip) simp
  have dcolon: "ends_groups (''::'' @ t)" for t by (auto simp: ends_groups_def)
  have "read_ipv4 (show_groups (take st (segments ip)) @ ''::'' @ t) = None" for t
    using groups [OF _ dcolon [of t]] by (cases "take st (segments ip) = []")
      (auto simp: show_groups_def read_ipv4_colon)
  with None sp segs groups [of "segments ip" "[]"] show ?thesis
    by (simp add: show_ipv6_def Let_def ends_groups_def)
qed

theorem parse_show_ip: "parse_ip (show_ip ip) = Some ip"
proof (cases ip)
  case (V4 a)
  then show ?thesis using read_ipv4_show [of "[]" a] by (simp add: parse_ip_def show_ip_def)
next
  case (V6 a)
  then show ?thesis
    by (simp add: parse_ip_def show_ip_def read_ipv6_show read_ipv4_show_ipv6)
qed

end
