(* ===== verification/Client_Id.thy ===== *)
theory Client_Id
  imports Net_Addr "HOL-Library.List_Lexorder" "HOL-Library.Product_Lexorder"
begin

text \<open>
  \<open>crates/mw-core/src/client.rs\<close>: a client is a MAC and an IP address, written \<open>mac@ip\<close> as a
  storage key. The lemmas show that the key determines the client: parsing it gives the
  client back, so keys of different clients differ.
\<close>

section \<open>Client identity\<close>

datatype mac_addr = Mac u8 u8 u8 u8 u8 u8

record client_id =
  cl_mac :: mac_addr
  cl_ip :: ip_addr

fun mac_bytes :: "mac_addr \<Rightarrow> u8 list" where
  "mac_bytes (Mac a b c d e f) = [a, b, c, d, e, f]"

fun mac_of_bytes :: "nat list \<Rightarrow> mac_addr option" where
  "mac_of_bytes [a, b, c, d, e, f] =
     Some (Mac (of_nat a) (of_nat b) (of_nat c) (of_nat d) (of_nat e) (of_nat f))"
| "mac_of_bytes _ = None"

definition client_new :: "mac_addr \<Rightarrow> ip_addr \<Rightarrow> client_id" where
  "client_new m i = \<lparr>cl_mac = m, cl_ip = i\<rparr>"

definition mac_string :: "client_id \<Rightarrow> string" where
  "mac_string c = join_with '':'' (map fmt_02x (mac_bytes (cl_mac c)))"

definition storage_key :: "client_id \<Rightarrow> string" where
  "storage_key c = mac_string c @ ''@'' @ show_ip (cl_ip c)"

datatype client_ref_parse_error = ClientRefParseError string

definition show_parse_error :: "client_ref_parse_error \<Rightarrow> string" where
  "show_parse_error e = (case e of ClientRefParseError s \<Rightarrow> ''invalid client ref: '' @ s)"

text \<open>The loop of \<open>parse_mac\<close> over the six parts, stopping at the first that is no byte.\<close>

fun parse_mac_parts :: "string list \<Rightarrow> nat list option" where
  "parse_mac_parts [] = Some []"
| "parse_mac_parts (p # ps) =
     (case from_str_radix 16 255 p of
        None \<Rightarrow> None
      | Some b \<Rightarrow> map_option (\<lambda>bs. b # bs) (parse_mac_parts ps))"

definition parse_mac :: "string \<Rightarrow> mac_addr option" where
  "parse_mac s =
     (let parts = split_at_char CHR '':'' s
      in if length parts \<noteq> 6 then None
         else Option.bind (parse_mac_parts parts) mac_of_bytes)"

definition parse_client :: "string \<Rightarrow> client_ref_parse_error + client_id" where
  "parse_client s =
     (let (mac_s, ip_s) = (case split_once_at CHR ''@'' s of
                             Some (m, i) \<Rightarrow> (m, Some i)
                           | None \<Rightarrow> (s, None))
      in case parse_mac mac_s of
           None \<Rightarrow> Inl (ClientRefParseError s)
         | Some m \<Rightarrow>
             (case ip_s of
                Some i \<Rightarrow> (case parse_ip i of
                             Some a \<Rightarrow> Inr (client_new m a)
                           | None \<Rightarrow> Inl (ClientRefParseError s))
              | None \<Rightarrow> Inr (client_new m (V4 (Ipv4 0 0 0 0)))))"

section \<open>The orders of MAC and IP addresses\<close>

text \<open>Arrays compare lexicographically, and every IPv4 address is below every IPv6 address.\<close>

definition ip_key :: "ip_addr \<Rightarrow> nat list" where
  "ip_key ip = (case ip of V4 a \<Rightarrow> 0 # map unat (octets a) | V6 a \<Rightarrow> 1 # map unat (segments a))"

lemma mac_bytes_inject: "mac_bytes a = mac_bytes b \<longleftrightarrow> a = b"
  by (cases a; cases b) simp

lemma ip_key_inject: "ip_key a = ip_key b \<longleftrightarrow> a = b"
proof -
  have 4: "map unat (octets x) = map unat (octets y) \<longleftrightarrow> x = y" for x y
    by (cases x; cases y) (simp add: word_unat_eq_iff)
  have 6: "map unat (segments x) = map unat (segments y) \<longleftrightarrow> x = y" for x y
    by (cases x; cases y) (simp add: word_unat_eq_iff)
  show ?thesis by (cases a; cases b) (simp_all add: ip_key_def 4 6)
qed

instantiation mac_addr :: linorder
begin

definition less_eq_mac_addr :: "mac_addr \<Rightarrow> mac_addr \<Rightarrow> bool" where
  "less_eq_mac_addr a b \<longleftrightarrow> mac_bytes a \<le> mac_bytes b"

definition less_mac_addr :: "mac_addr \<Rightarrow> mac_addr \<Rightarrow> bool" where
  "less_mac_addr a b \<longleftrightarrow> mac_bytes a < mac_bytes b"

instance
  by standard (auto simp: less_eq_mac_addr_def less_mac_addr_def mac_bytes_inject less_le)

end

instantiation ip_addr :: linorder
begin

definition less_eq_ip_addr :: "ip_addr \<Rightarrow> ip_addr \<Rightarrow> bool" where
  "less_eq_ip_addr a b \<longleftrightarrow> ip_key a \<le> ip_key b"

definition less_ip_addr :: "ip_addr \<Rightarrow> ip_addr \<Rightarrow> bool" where
  "less_ip_addr a b \<longleftrightarrow> ip_key a < ip_key b"

instance
  by standard (auto simp: less_eq_ip_addr_def less_ip_addr_def ip_key_inject less_le)

end

section \<open>Reading back a client\<close>

lemma fmt_02x_chars: "c \<in> set (fmt_02x b) \<Longrightarrow> byte_of c \<in> {48..57} \<union> {97..102}"
proof -
  assume "c \<in> set (fmt_02x b)"
  then consider "c = digit_char (unat b div 16)" | "c = digit_char (unat b mod 16)"
    by (auto simp: fmt_02x_def)
  then obtain d where "d < 16" "c = digit_char d"
  proof cases
    case 1
    with that [of "unat b div 16"] unat_u8_bound [of b] show ?thesis by simp
  next
    case 2
    with that [of "unat b mod 16"] show ?thesis by simp
  qed
  then show ?thesis using digit_char_bytes by simp
qed

lemma parse_fmt_02x: "from_str_radix 16 255 (fmt_02x b) = Some (unat b)"
proof -
  have hi: "unat b div 16 < 16" using unat_u8_bound [of b] by simp
  have "hd (fmt_02x b) \<in> set (fmt_02x b)" by (simp add: fmt_02x_def)
  then have "hd (fmt_02x b) \<noteq> CHR ''+''"
    using fmt_02x_chars [of "hd (fmt_02x b)" b] by (auto simp: byte_of_def)
  then show ?thesis
    using hi unat_u8_bound [of b]
    by (simp add: from_str_radix_def fmt_02x_def to_digit_digit_char)
qed

lemma mac_string_no_at: "CHR ''@'' \<notin> set (mac_string c)"
proof -
  have "CHR ''@'' \<notin> set (fmt_02x b)" for b
    using fmt_02x_chars [of "CHR ''@''" b] by (auto simp: byte_of_def)
  then show ?thesis by (cases "cl_mac c") (simp add: mac_string_def)
qed

lemma parse_mac_string: "parse_mac (mac_string c) = Some (cl_mac c)"
proof -
  obtain a1 a2 a3 a4 a5 a6 where m: "cl_mac c = Mac a1 a2 a3 a4 a5 a6"
    by (cases "cl_mac c")
  have nocolon: "CHR '':'' \<notin> set (fmt_02x b)" for b
    using fmt_02x_chars [of "CHR '':''" b] by (auto simp: byte_of_def)
  have "split_at_char CHR '':'' (mac_string c) = map fmt_02x (mac_bytes (cl_mac c))"
    unfolding split_at_char_def mac_string_def
    by (rule split_on_join) (auto simp: m nocolon)
  then show ?thesis by (simp add: parse_mac_def m parse_fmt_02x)
qed

lemma parse_client_mac:
  "parse_client (mac_string c) = Inr (client_new (cl_mac c) (V4 (Ipv4 0 0 0 0)))"
  using mac_string_no_at [of c] split_once_at_None [of "CHR ''@''" "mac_string c"]
  by (simp add: parse_client_def parse_mac_string)

lemma parse_client_key: "parse_client (storage_key c) = Inr c"
  using split_once_at_append [OF mac_string_no_at [of c], of "show_ip (cl_ip c)"]
  by (simp add: parse_client_def storage_key_def parse_mac_string parse_show_ip client_new_def)

lemma storage_key_inject [simp]: "storage_key a = storage_key b \<longleftrightarrow> a = b"
  by (metis parse_client_key sum.inject(2))

text \<open>
  C20: the storage key of a client, IPv4 or IPv6, parses back to the same client, and the
  MAC alone parses to the client with the unspecified address.
\<close>

theorem client_key_roundtrip:
  "parse_client (storage_key c) = Inr c \<and>
   parse_client (mac_string c) = Inr (c\<lparr>cl_ip := V4 (Ipv4 0 0 0 0)\<rparr>)"
  by (cases c) (simp add: parse_client_key parse_client_mac client_new_def)

end
