(* ===== verification/Policy_Merge.thy ===== *)
theory Policy_Merge
  imports Rule_Engine Client_Id
begin

text \<open>
  \<open>crates/mw-core/src/policy.rs\<close>: manual and automatic policies, their merge into the action
  to enforce, the choice of the strongest violation, and the stored form of a manual policy.
  Adding to an \<open>Instant\<close> or a \<open>SystemTime\<close> panics out of range, so the functions that do are
  partial. The merge is shown to be the join of what is active; the stored form loses less
  than two seconds of the expiry.
\<close>

section \<open>Policies\<close>

record manual_policy =
  mp_throttle :: "u8 option"
  mp_blocked :: bool
  mp_until :: "instant option"

definition manual_expired :: "manual_policy \<Rightarrow> instant \<Rightarrow> bool" where
  "manual_expired p now = (case mp_until p of None \<Rightarrow> False | Some u \<Rightarrow> now \<ge> u)"

record stored_manual_policy =
  sp_throttle :: "u8 option"
  sp_blocked :: bool
  sp_until_unix_secs :: "u64 option"

text \<open>The system clock is in nanoseconds since the epoch and may be before it.\<close>

type_synonym system_time = int

definition system_add :: "nat \<Rightarrow> system_time option" where
  "system_add secs = (if secs < 2 ^ 63 then Some (int secs * int nanos_per_sec) else None)"

definition to_runtime :: "stored_manual_policy \<Rightarrow> instant \<Rightarrow> system_time \<Rightarrow> manual_policy option" where
  "to_runtime s now now_sys =
     (case sp_until_unix_secs s of
        None \<Rightarrow> Some \<lparr>mp_throttle = sp_throttle s, mp_blocked = sp_blocked s, mp_until = None\<rparr>
      | Some secs \<Rightarrow>
          (case system_add (unat secs) of
             None \<Rightarrow> None
           | Some target \<Rightarrow>
               (case (if now_sys \<le> target then instant_add now (nat (target - now_sys)) else Some now) of
                  None \<Rightarrow> None
                | Some u \<Rightarrow>
                    Some \<lparr>mp_throttle = sp_throttle s, mp_blocked = sp_blocked s, mp_until = Some u\<rparr>)))"

definition from_runtime :: "manual_policy \<Rightarrow> instant \<Rightarrow> system_time \<Rightarrow> stored_manual_policy" where
  "from_runtime p now now_sys =
     \<lparr>sp_throttle = mp_throttle p, sp_blocked = mp_blocked p,
      sp_until_unix_secs =
        map_option (\<lambda>u. let delta = duration_since u now
                        in sat_add (of_nat (dur_as_secs (nat now_sys))) (of_nat (dur_as_secs delta)))
          (mp_until p)\<rparr>"

record auto_policy =
  ap_drop_rate :: u8
  ap_blocked :: bool
  ap_rule_id :: rule_id
  ap_until :: instant

definition from_action :: "rule_id \<Rightarrow> action \<Rightarrow> instant \<Rightarrow> duration \<Rightarrow> auto_policy option" where
  "from_action rid act now cooldown =
     (case act of
        ActBlock \<Rightarrow>
          map_option (\<lambda>u. \<lparr>ap_drop_rate = 100, ap_blocked = True, ap_rule_id = rid, ap_until = u\<rparr>)
            (instant_add now cooldown)
      | ActThrottle drop_rate \<Rightarrow>
          map_option (\<lambda>u. \<lparr>ap_drop_rate = drop_rate, ap_blocked = False, ap_rule_id = rid, ap_until = u\<rparr>)
            (instant_add now cooldown))"

definition auto_expired :: "auto_policy \<Rightarrow> instant \<Rightarrow> bool" where
  "auto_expired a now = (now \<ge> ap_until a)"

record client_policy =
  cp_manual :: "manual_policy option"
  cp_auto :: "auto_policy option"

definition client_policy_default :: client_policy where
  "client_policy_default = \<lparr>cp_manual = None, cp_auto = None\<rparr>"

type_synonym policy_map = "(client_id, client_policy) hmap"

datatype effective_action = EffNone | EffThrottle u8 | EffBlock

fun drop_rate :: "effective_action \<Rightarrow> u8" where
  "drop_rate EffNone = 0"
| "drop_rate (EffThrottle r) = r"
| "drop_rate EffBlock = 100"

definition is_blocked :: "effective_action \<Rightarrow> bool" where
  "is_blocked a = (a = EffBlock)"

section \<open>Merging\<close>

definition filter_opt :: "('a \<Rightarrow> bool) \<Rightarrow> 'a option \<Rightarrow> 'a option" where
  "filter_opt P x = (case x of Some a \<Rightarrow> if P a then Some a else None | None \<Rightarrow> None)"

definition active_manual :: "client_policy \<Rightarrow> instant \<Rightarrow> manual_policy option" where
  "active_manual p now = filter_opt (\<lambda>m. \<not> manual_expired m now) (cp_manual p)"

definition active_auto :: "client_policy \<Rightarrow> instant \<Rightarrow> auto_policy option" where
  "active_auto p now = filter_opt (\<lambda>a. \<not> auto_expired a now) (cp_auto p)"

text \<open>The part of \<open>merge_policy\<close> after the manual policy has not decided.\<close>

definition merge_auto :: "auto_policy option \<Rightarrow> effective_action" where
  "merge_auto auto =
     (case auto of
        Some a \<Rightarrow> if ap_blocked a then EffBlock
                  else if ap_drop_rate a > 0 then EffThrottle (ap_drop_rate a)
                  else EffNone
      | None \<Rightarrow> EffNone)"

definition merge_policy :: "client_policy \<Rightarrow> instant \<Rightarrow> effective_action" where
  "merge_policy policy now =
     (let manual = active_manual policy now; auto = active_auto policy now
      in case manual of
           Some m \<Rightarrow>
             if mp_blocked m then EffBlock
             else (case mp_throttle m of
                     Some rate \<Rightarrow>
                       if (case auto of Some a \<Rightarrow> ap_blocked a | None \<Rightarrow> False) then EffBlock
                       else EffThrottle (max rate (case auto of Some a \<Rightarrow> ap_drop_rate a | None \<Rightarrow> 0))
                   | None \<Rightarrow> merge_auto auto)
         | None \<Rightarrow> merge_auto auto)"

section \<open>The strongest violation\<close>

definition stronger :: "auto_policy \<Rightarrow> auto_policy \<Rightarrow> auto_policy" where
  "stronger prev cand =
     (if ap_blocked cand \<and> \<not> ap_blocked prev then cand
      else if ap_blocked prev \<and> \<not> ap_blocked cand then prev
      else if ap_drop_rate cand > ap_drop_rate prev then cand
      else prev)"

fun strongest_loop :: "auto_policy option \<Rightarrow> violation list \<Rightarrow> instant \<Rightarrow> duration \<Rightarrow> auto_policy option option" where
  "strongest_loop best [] now cooldown = Some best"
| "strongest_loop best (v # vs) now cooldown =
     (case from_action (v_rule_id v) (v_action v) now cooldown of
        None \<Rightarrow> None
      | Some cand \<Rightarrow>
          strongest_loop (Some (case best of None \<Rightarrow> cand | Some prev \<Rightarrow> stronger prev cand)) vs now cooldown)"

definition strongest_auto :: "violation list \<Rightarrow> instant \<Rightarrow> duration \<Rightarrow> auto_policy option option" where
  "strongest_auto vs now cooldown = strongest_loop None vs now cooldown"

section \<open>The merge is the join of the active policies\<close>

definition manual_blocks :: "client_policy \<Rightarrow> instant \<Rightarrow> bool" where
  "manual_blocks p now = (case active_manual p now of Some m \<Rightarrow> mp_blocked m | None \<Rightarrow> False)"

definition manual_rate :: "client_policy \<Rightarrow> instant \<Rightarrow> u8" where
  "manual_rate p now =
     (case active_manual p now of Some m \<Rightarrow> (case mp_throttle m of Some r \<Rightarrow> r | None \<Rightarrow> 0) | None \<Rightarrow> 0)"

definition auto_blocks :: "client_policy \<Rightarrow> instant \<Rightarrow> bool" where
  "auto_blocks p now = (case active_auto p now of Some a \<Rightarrow> ap_blocked a | None \<Rightarrow> False)"

definition auto_rate :: "client_policy \<Rightarrow> instant \<Rightarrow> u8" where
  "auto_rate p now = (case active_auto p now of Some a \<Rightarrow> ap_drop_rate a | None \<Rightarrow> 0)"

lemmas merge_defs = merge_policy_def merge_auto_def manual_blocks_def manual_rate_def auto_blocks_def
  auto_rate_def Let_def is_blocked_def

lemma u8_max_zero [simp]: "max (a::u8) 0 = a" "max 0 (a::u8) = a"
  by (simp_all add: max_def)

lemma merge_policy_blocked: "is_blocked (merge_policy p now) \<longleftrightarrow> manual_blocks p now \<or> auto_blocks p now"
  by (cases "active_manual p now"; cases "active_auto p now"; cases "mp_throttle (the (active_manual p now))")
    (auto simp: merge_defs not_less)

lemma merge_policy_rate:
  "drop_rate (merge_policy p now) =
     (if manual_blocks p now \<or> auto_blocks p now then 100 else max (manual_rate p now) (auto_rate p now))"
  by (cases "active_manual p now"; cases "active_auto p now"; cases "mp_throttle (the (active_manual p now))")
    (auto simp: merge_defs not_less)

text \<open>
  C15: the action enforced at a moment blocks exactly when an unexpired manual policy or an
  unexpired automatic policy blocks; otherwise its drop rate is the larger of the two active
  rates, an absent one counting as zero; and without any active policy nothing is enforced.
\<close>

theorem merge_policy_join:
  "(is_blocked (merge_policy p now) \<longleftrightarrow> manual_blocks p now \<or> auto_blocks p now) \<and>
   drop_rate (merge_policy p now) =
     (if manual_blocks p now \<or> auto_blocks p now then 100 else max (manual_rate p now) (auto_rate p now)) \<and>
   (active_manual p now = None \<and> active_auto p now = None \<longrightarrow> merge_policy p now = EffNone)"
  by (auto simp: merge_policy_blocked merge_policy_rate) (simp add: merge_policy_def merge_auto_def)

theorem merge_policy_join_witness:
  "merge_policy \<lparr>cp_manual = Some \<lparr>mp_throttle = Some 30, mp_blocked = True, mp_until = Some 5\<rparr>, cp_auto = None\<rparr> 7
     = EffNone"
  using merge_policy_join
    [of "\<lparr>cp_manual = Some \<lparr>mp_throttle = Some 30, mp_blocked = True, mp_until = Some 5\<rparr>, cp_auto = None\<rparr>" 7]
  by (simp add: active_manual_def active_auto_def filter_opt_def manual_expired_def)

section \<open>The strongest violation is the first maximal one\<close>

fun action_rank :: "action \<Rightarrow> nat" where
  "action_rank (ActThrottle d) = unat d"
| "action_rank ActBlock = 256"

definition policy_of :: "violation \<Rightarrow> instant \<Rightarrow> auto_policy" where
  "policy_of v until =
     \<lparr>ap_drop_rate = (case v_action v of ActThrottle d \<Rightarrow> d | ActBlock \<Rightarrow> 100),
      ap_blocked = (v_action v = ActBlock), ap_rule_id = v_rule_id v, ap_until = until\<rparr>"

lemma from_action_policy_of:
  "from_action (v_rule_id v) (v_action v) now cooldown = map_option (policy_of v) (instant_add now cooldown)"
  by (cases "v_action v"; cases "instant_add now cooldown") (simp_all add: from_action_def policy_of_def)

lemma stronger_rank:
  "stronger (policy_of u t) (policy_of v t) =
     (if action_rank (v_action u) < action_rank (v_action v) then policy_of v t else policy_of u t)"
proof -
  have "\<not> 256 < unat d" for d :: u8 using unat_bound [of d] by simp
  moreover have "unat d < 256" for d :: u8 using unat_bound [of d] by simp
  ultimately show ?thesis
    by (cases "v_action u"; cases "v_action v") (simp_all add: stronger_def policy_of_def word_less_nat_alt)
qed

text \<open>The first element of maximal rank, kept from \<open>u\<close> on.\<close>

lemma strongest_loop_first_max:
  assumes "instant_add now cooldown = Some t"
  shows "\<exists>pre v post. u # vs = pre @ v # post \<and>
     strongest_loop (Some (policy_of u t)) vs now cooldown = Some (Some (policy_of v t)) \<and>
     (\<forall>x \<in> set pre. action_rank (v_action x) < action_rank (v_action v)) \<and>
     (\<forall>x \<in> set post. action_rank (v_action x) \<le> action_rank (v_action v))"
proof (induction vs arbitrary: u)
  case (Cons a vs)
  show ?case
  proof (cases "action_rank (v_action u) < action_rank (v_action a)")
    case True
    obtain pre v post where *: "a # vs = pre @ v # post"
      "strongest_loop (Some (policy_of a t)) vs now cooldown = Some (Some (policy_of v t))"
      "\<forall>x \<in> set pre. action_rank (v_action x) < action_rank (v_action v)"
      "\<forall>x \<in> set post. action_rank (v_action x) \<le> action_rank (v_action v)"
      using Cons.IH [of a] by blast
    have "action_rank (v_action a) \<le> action_rank (v_action v)"
      using * by (cases pre) (auto intro: less_imp_le)
    moreover have "strongest_loop (Some (policy_of u t)) (a # vs) now cooldown = Some (Some (policy_of v t))"
      using True *(2) assms by (simp add: from_action_policy_of stronger_rank)
    ultimately show ?thesis
      using True * by - (rule exI [of _ "u # pre"], rule exI [of _ v], rule exI [of _ post], auto)
  next
    case False
    obtain pre v post where *: "u # vs = pre @ v # post"
      "strongest_loop (Some (policy_of u t)) vs now cooldown = Some (Some (policy_of v t))"
      "\<forall>x \<in> set pre. action_rank (v_action x) < action_rank (v_action v)"
      "\<forall>x \<in> set post. action_rank (v_action x) \<le> action_rank (v_action v)"
      using Cons.IH [of u] by blast
    have step: "strongest_loop (Some (policy_of u t)) (a # vs) now cooldown = Some (Some (policy_of v t))"
      using False * assms by (simp add: from_action_policy_of stronger_rank)
    show ?thesis
    proof (cases pre)
      case Nil
      with * False step show ?thesis
        by - (rule exI [of _ "[]"], rule exI [of _ v], rule exI [of _ "a # post"], auto)
    next
      case (Cons y ys)
      with * False step show ?thesis
        by - (rule exI [of _ "u # a # ys"], rule exI [of _ v], rule exI [of _ post], auto)
    qed
  qed
qed (auto intro: exI [of _ "[]"])

lemma strongest_auto_cases:
  assumes "vs \<noteq> []" "instant_add now cooldown = Some t"
  shows "\<exists>pre v post. vs = pre @ v # post \<and>
     strongest_auto vs now cooldown = Some (Some (policy_of v t)) \<and>
     (\<forall>x \<in> set pre. action_rank (v_action x) < action_rank (v_action v)) \<and>
     (\<forall>x \<in> set post. action_rank (v_action x) \<le> action_rank (v_action v))"
  using assms strongest_loop_first_max [of now cooldown t "hd vs" "tl vs"]
  by (cases vs) (auto simp: strongest_auto_def from_action_policy_of)

lemma strongest_auto_None: "strongest_auto vs now cooldown = None \<longleftrightarrow> vs \<noteq> [] \<and> instant_add now cooldown = None"
proof (cases "instant_add now cooldown")
  case None
  then show ?thesis by (cases vs) (simp_all add: strongest_auto_def from_action_policy_of)
next
  case (Some t)
  then show ?thesis using strongest_auto_cases [of vs now cooldown t] by (cases vs) (auto simp: strongest_auto_def)
qed

lemma strongest_auto_Nil [simp]: "strongest_auto [] now cooldown = Some None"
  by (simp add: strongest_auto_def)

text \<open>
  Without a violation there is no automatic policy; with one, the policy is that of the
  first violation of maximal strength, where blocking is stronger than every throttle and
  throttles are ordered by drop rate, and it lasts the cooldown from now. The only failure is
  a cooldown that leaves the range of the clock.
\<close>

lemma strongest_auto_first_max:
  "strongest_auto [] now cooldown = Some None \<and>
   (vs \<noteq> [] \<longrightarrow>
      (case instant_add now cooldown of
         None \<Rightarrow> strongest_auto vs now cooldown = None
       | Some t \<Rightarrow> \<exists>pre v post. vs = pre @ v # post \<and>
           strongest_auto vs now cooldown = Some (Some (policy_of v t)) \<and>
           (\<forall>x \<in> set pre. action_rank (v_action x) < action_rank (v_action v)) \<and>
           (\<forall>x \<in> set post. action_rank (v_action x) \<le> action_rank (v_action v))))"
  using strongest_auto_cases [of vs now cooldown] strongest_auto_None [of vs now cooldown]
  by (simp split: option.splits)

lemma strongest_auto_first_max_example:
  "let a = \<lparr>v_rule_id = ''a'', v_value = 9, v_limit = 5, v_action = ActThrottle 50\<rparr>;
       b = \<lparr>v_rule_id = ''b'', v_value = 9, v_limit = 5, v_action = ActBlock\<rparr>
   in \<exists>pre v post. [a, b] = pre @ v # post \<and>
        strongest_auto [a, b] 3 4 = Some (Some (policy_of v 7)) \<and>
        (\<forall>x \<in> set pre. action_rank (v_action x) < action_rank (v_action v)) \<and>
        (\<forall>x \<in> set post. action_rank (v_action x) \<le> action_rank (v_action v))"
proof -
  have "instant_add 3 4 = Some 7" by (simp add: instant_add_def instant_limit_def nanos_per_sec_def)
  then show ?thesis
    unfolding Let_def
    using strongest_auto_first_max [of 3 4
        "[\<lparr>v_rule_id = ''a'', v_value = 9, v_limit = 5, v_action = ActThrottle 50\<rparr>,
          \<lparr>v_rule_id = ''b'', v_value = 9, v_limit = 5, v_action = ActBlock\<rparr>]"]
    by (simp only: option.case list.distinct not_False_eq_True simp_thms)
qed

section \<open>Storing a manual policy\<close>

lemma dur_as_secs_bounds:
  "dur_as_secs d * nanos_per_sec \<le> d \<and> d < dur_as_secs d * nanos_per_sec + nanos_per_sec"
  using secs_bounds [of d] by (simp add: algebra_simps)

lemma dur_as_secs_limit: "d < instant_limit \<Longrightarrow> dur_as_secs d < 2 ^ 63"
  by (simp add: dur_as_secs_def instant_limit_def nanos_per_sec_def)

lemma stored_secs:
  assumes "mp_until p = Some u" "now \<le> u" "0 \<le> now_sys" "nat now_sys + (u - now) < instant_limit"
  shows "\<exists>e. sp_until_unix_secs (from_runtime p now now_sys) = Some e \<and> unat e < 2 ^ 63 \<and>
     now_sys + int (u - now) - 2 * int nanos_per_sec < int (unat e) * int nanos_per_sec \<and>
     int (unat e) * int nanos_per_sec \<le> now_sys + int (u - now)"
proof -
  define a where "a = dur_as_secs (nat now_sys)"
  define b where "b = dur_as_secs (u - now)"
  have ab: "a * nanos_per_sec \<le> nat now_sys" "nat now_sys < a * nanos_per_sec + nanos_per_sec"
    "b * nanos_per_sec \<le> u - now" "u - now < b * nanos_per_sec + nanos_per_sec"
    using dur_as_secs_bounds by (simp_all add: a_def b_def)
  have "(a + b) * nanos_per_sec < 2 ^ 63 * nanos_per_sec"
    using ab assms(4) unfolding instant_limit_def add_mult_distrib by linarith
  then have lim: "a + b < 2 ^ 63" by simp
  then have "a mod 2 ^ 64 = a" "b mod 2 ^ 64 = b" by simp_all
  then have secs: "unat (sat_add (of_nat a) (of_nat b) :: u64) = a + b"
    using lim by (simp add: sat_simps unsigned_of_nat take_bit_eq_mod)
  have "now_sys + int (u - now) - 2 * int nanos_per_sec < int (a + b) * int nanos_per_sec"
    "int (a + b) * int nanos_per_sec \<le> now_sys + int (u - now)"
    using ab assms(3) unfolding of_nat_add of_nat_mult [symmetric] add_mult_distrib distrib_right
    by (simp_all flip: of_nat_mult)
  moreover have "sp_until_unix_secs (from_runtime p now now_sys) = Some (sat_add (of_nat a) (of_nat b))"
    using assms(1) by (auto simp: from_runtime_def Let_def duration_since_def a_def b_def)
  ultimately show ?thesis using lim secs by (intro exI [of _ "sat_add (of_nat a) (of_nat b)"]) simp
qed

lemma stored_expiry_lemma:
  assumes "from_runtime p now now_sys = s"
    and "mp_until p = Some u" "now \<le> u" "u < instant_limit"
    and "0 \<le> now_sys"
    and "nat now_sys + (u - now) < instant_limit"
    and "to_runtime s now' now_sys' = Some q"
  shows "mp_throttle q = mp_throttle p \<and> mp_blocked q = mp_blocked p \<and>
     (\<exists>u' target. mp_until q = Some u' \<and>
        now_sys + int (u - now) - 2 * int nanos_per_sec < target \<and> target \<le> now_sys + int (u - now) \<and>
        (if now_sys' \<le> target then now_sys' + int (u' - now') = target \<and> now' \<le> u' else u' = now'))"
proof -
  obtain e where e: "sp_until_unix_secs s = Some e" "unat e < 2 ^ 63"
    "now_sys + int (u - now) - 2 * int nanos_per_sec < int (unat e) * int nanos_per_sec"
    "int (unat e) * int nanos_per_sec \<le> now_sys + int (u - now)"
    using stored_secs [OF assms(2,3,5,6)] unfolding assms(1) by blast
  define target where "target = int (unat e) * int nanos_per_sec"
  have s: "sp_throttle s = mp_throttle p" "sp_blocked s = mp_blocked p"
    using assms(1) by (auto simp: from_runtime_def)
  have sys: "system_add (unat e) = Some target"
    using e(2) by (simp add: system_add_def target_def)
  have "now_sys + int (u - now) - 2 * int nanos_per_sec < target" "target \<le> now_sys + int (u - now)"
    using e(3,4) by (simp_all only: target_def)
  then show ?thesis
    using assms(7) by (auto simp: to_runtime_def s e(1) sys instant_add_def split: if_splits intro!: exI [of _ target])
qed

text \<open>
  C36: a manual policy that is stored and read back, possibly by another process with another
  monotonic clock, keeps its throttle and its block, and its expiry on the system clock is
  never later and less than two seconds earlier than it was.
\<close>

theorem stored_policy_expiry:
  assumes "from_runtime p now now_sys = s"
    and "mp_until p = Some u" "now \<le> u" "u < instant_limit"
    and "0 \<le> now_sys"
    and "nat now_sys + (u - now) < instant_limit"
    and "to_runtime s now' now_sys' = Some q"
  shows "mp_throttle q = mp_throttle p \<and> mp_blocked q = mp_blocked p \<and>
     (\<exists>u' target. mp_until q = Some u' \<and>
        now_sys + int (u - now) - 2 * int nanos_per_sec < target \<and> target \<le> now_sys + int (u - now) \<and>
        (if now_sys' \<le> target then now_sys' + int (u' - now') = target \<and> now' \<le> u' else u' = now'))"
  by (rule stored_expiry_lemma [OF assms])

theorem stored_policy_expiry_witness:
  "\<exists>u'. to_runtime (from_runtime \<lparr>mp_throttle = Some 20, mp_blocked = False, mp_until = Some 9500000000\<rparr>
          1000000000 7000000000) 2000000000 8000000000
      = Some \<lparr>mp_throttle = Some 20, mp_blocked = False, mp_until = Some u'\<rparr> \<and>
     7000000000 + int (9500000000 - 1000000000) - 2 * int nanos_per_sec
       < 8000000000 + int u' - 2000000000"
proof -
  let ?p = "\<lparr>mp_throttle = Some 20, mp_blocked = False, mp_until = Some 9500000000\<rparr>"
  let ?s = "from_runtime ?p 1000000000 7000000000"
  have s: "?s = \<lparr>sp_throttle = Some 20, sp_blocked = False, sp_until_unix_secs = Some 15\<rparr>"
    by (simp add: from_runtime_def Let_def duration_since_def dur_as_secs_def nanos_per_sec_def sat_add_def)
  have r: "to_runtime ?s 2000000000 8000000000 =
      Some \<lparr>mp_throttle = Some 20, mp_blocked = False, mp_until = Some 9000000000\<rparr>"
    by (simp add: s to_runtime_def system_add_def instant_add_def instant_limit_def nanos_per_sec_def)
  show ?thesis
    using stored_policy_expiry [OF refl _ _ _ _ _ r, of 9500000000]
    by (auto simp: r instant_limit_def nanos_per_sec_def)
qed

end
