(* ===== verification/Xdp_Program.thy ===== *)
theory Xdp_Program
  imports MW_Prelude
begin

text \<open>
  The XDP program of \<open>crates/mw-ebpf/src/lib.rs\<close>. It overlays C structs on the bytes of the packet, so
  their multi-byte fields have the byte order of the host, which is an argument here. The verdict on a
  packet depends on its bytes only, and on the random number.
\<close>

unbundle bit_operations_syntax

section \<open>Byte order\<close>

datatype byte_order = LittleEndian | BigEndian

text \<open>A field at consecutive bytes of memory, \<open>from_be\<close>, and \<open>to_ne_bytes\<close>.\<close>

fun u16_ne :: "byte_order \<Rightarrow> u8 \<Rightarrow> u8 \<Rightarrow> u16" where
  "u16_ne BigEndian a b = push_bit 8 (ucast a) OR ucast b"
| "u16_ne LittleEndian a b = push_bit 8 (ucast b) OR ucast a"

fun u16_from_be :: "byte_order \<Rightarrow> u16 \<Rightarrow> u16" where
  "u16_from_be BigEndian x = x"
| "u16_from_be LittleEndian x = push_bit 8 x OR drop_bit 8 x"

definition u32_of :: "u8 \<Rightarrow> u8 \<Rightarrow> u8 \<Rightarrow> u8 \<Rightarrow> u32" where
  "u32_of a b c d = push_bit 24 (ucast a) OR push_bit 16 (ucast b) OR push_bit 8 (ucast c) OR ucast d"

fun u32_ne :: "byte_order \<Rightarrow> u8 \<Rightarrow> u8 \<Rightarrow> u8 \<Rightarrow> u8 \<Rightarrow> u32" where
  "u32_ne BigEndian a b c d = u32_of a b c d"
| "u32_ne LittleEndian a b c d = u32_of d c b a"

definition u32_be_bytes :: "u32 \<Rightarrow> u8 list" where
  "u32_be_bytes x = [ucast (drop_bit 24 x), ucast (drop_bit 16 x), ucast (drop_bit 8 x), ucast x]"

fun u32_to_ne_bytes :: "byte_order \<Rightarrow> u32 \<Rightarrow> u8 list" where
  "u32_to_ne_bytes BigEndian x = u32_be_bytes x"
| "u32_to_ne_bytes LittleEndian x = rev (u32_be_bytes x)"

section \<open>Headers and policies\<close>

record client_policy_entry =
  pe_blocked :: u8
  pe_drop_rate :: u8
  pe_until_unix :: u32

type_synonym client_key = "u8 list"
type_synonym kernel_map = "(client_key, client_policy_entry) hmap"

datatype xdp_action = XDP_PASS | XDP_DROP

definition ETH_P_IP :: nat where "ETH_P_IP = 2048"
definition ETH_HDR_LEN :: nat where "ETH_HDR_LEN = 14"
definition IP_HDR_MIN :: nat where "IP_HDR_MIN = 20"

record eth_hdr =
  h_dest :: "u8 list"
  h_source :: "u8 list"
  h_proto :: u16

record ipv4_hdr =
  ihl_version :: u8
  tos :: u8
  tot_len :: u16
  ip_id :: u16
  frag_off :: u16
  ttl :: u8
  ip_protocol :: u8
  ip_check :: u16
  saddr :: u32
  daddr :: u32

text \<open>The structs as they lie over 14 and 20 bytes; with \<open>repr(C)\<close> neither has padding.\<close>

definition eth_hdr_of :: "byte_order \<Rightarrow> u8 list \<Rightarrow> eth_hdr" where
  "eth_hdr_of ne bs = \<lparr>h_dest = take 6 bs, h_source = take 6 (drop 6 bs), h_proto = u16_ne ne (bs ! 12) (bs ! 13)\<rparr>"

definition ipv4_hdr_of :: "byte_order \<Rightarrow> u8 list \<Rightarrow> ipv4_hdr" where
  "ipv4_hdr_of ne bs =
     \<lparr>ihl_version = bs ! 0, tos = bs ! 1, tot_len = u16_ne ne (bs ! 2) (bs ! 3), ip_id = u16_ne ne (bs ! 4) (bs ! 5),
      frag_off = u16_ne ne (bs ! 6) (bs ! 7), ttl = bs ! 8, ip_protocol = bs ! 9, ip_check = u16_ne ne (bs ! 10) (bs ! 11),
      saddr = u32_ne ne (bs ! 12) (bs ! 13) (bs ! 14) (bs ! 15), daddr = u32_ne ne (bs ! 16) (bs ! 17) (bs ! 18) (bs ! 19)\<rparr>"

text \<open>\<open>ptr_at\<close> for a struct of \<open>len\<close> bytes that \<open>view\<close> reads: an error unless the packet holds all of them.\<close>

definition ptr_at :: "nat \<Rightarrow> (u8 list \<Rightarrow> 't) \<Rightarrow> u8 list \<Rightarrow> nat \<Rightarrow> unit + 't" where
  "ptr_at len view pkt offset =
     (if offset + len > length pkt then Inl () else Inr (view (take len (drop offset pkt))))"

section \<open>The program\<close>

definition try_microwaf :: "byte_order \<Rightarrow> kernel_map \<Rightarrow> u8 list \<Rightarrow> u32 \<Rightarrow> unit + xdp_action" where
  "try_microwaf ne policy_map pkt prandom =
     (case ptr_at 14 (eth_hdr_of ne) pkt 0 of
        Inl e \<Rightarrow> Inl e
      | Inr eth \<Rightarrow>
          if unat (u16_from_be ne (h_proto eth)) \<noteq> ETH_P_IP then Inr XDP_PASS
          else (case ptr_at 20 (ipv4_hdr_of ne) pkt ETH_HDR_LEN of
                  Inl e \<Rightarrow> Inl e
                | Inr ip \<Rightarrow>
                    let ihl = unat (ihl_version ip AND 0x0F) * 4
                    in if ihl < IP_HDR_MIN then Inr XDP_PASS
                       else (case hm_get policy_map (h_source eth @ u32_to_ne_bytes ne (saddr ip)) of
                               None \<Rightarrow> Inr XDP_PASS
                             | Some policy \<Rightarrow>
                                 if pe_blocked policy \<noteq> 0 then Inr XDP_DROP
                                 else if pe_drop_rate policy > 0 \<and>
                                         unat prandom mod 100 < unat (pe_drop_rate policy)
                                      then Inr XDP_DROP
                                      else Inr XDP_PASS)))"

definition microwaf :: "byte_order \<Rightarrow> kernel_map \<Rightarrow> u8 list \<Rightarrow> u32 \<Rightarrow> xdp_action" where
  "microwaf ne policy_map pkt prandom =
     (case try_microwaf ne policy_map pkt prandom of Inr a \<Rightarrow> a | Inl _ \<Rightarrow> XDP_PASS)"

section \<open>What the headers hold\<close>

definition be16 :: "u8 \<Rightarrow> u8 \<Rightarrow> nat" where
  "be16 hi lo = unat hi * 256 + unat lo"

lemma bit_u8: "bit a n \<Longrightarrow> n < 8" for a :: u8
  using bit_imp_le_length [of a n] by simp

lemma u16_swap: "push_bit 8 (push_bit 8 (ucast b) OR ucast a) OR drop_bit 8 (push_bit 8 (ucast b) OR ucast a) =
    (push_bit 8 (ucast a) OR ucast b :: u16)" for a b :: u8
  by (rule bit_eqI) (auto simp: bit_simps dest: bit_u8)

lemma u16_from_be_ne: "u16_from_be ne (u16_ne ne a b) = push_bit 8 (ucast a) OR ucast b"
  using u16_swap by (cases ne) auto

lemma unat_u16_be: "unat (push_bit 8 (ucast a) OR ucast b :: u16) = be16 a b" for a b :: u8
proof -
  have "push_bit 8 (ucast a) AND ucast b = (0 :: u16)"
    by (rule bit_eqI) (auto simp: bit_simps dest: bit_u8)
  then have "push_bit 8 (ucast a) OR ucast b = (push_bit 8 (ucast a) + ucast b :: u16)" by (simp add: disjunctive_add_eq_or)
  moreover have "unat a * 256 + unat b < 65536" using unat_bound [of a] unat_bound [of b] by simp
  moreover have "unat (ucast x :: u16) = unat x" for x :: u8
    using unat_bound [of x] by (simp add: unsigned_ucast_eq take_bit_nat_eq_self)
  ultimately show ?thesis by (simp add: be16_def push_bit_eq_mult unat_word_ariths mult.commute)
qed

lemma u32_be_bytes_of: "u32_be_bytes (u32_of a b c d) = [a, b, c, d]"
proof -
  have "(ucast (drop_bit 24 (u32_of a b c d)) :: u8) = a" "(ucast (drop_bit 16 (u32_of a b c d)) :: u8) = b"
    "(ucast (drop_bit 8 (u32_of a b c d)) :: u8) = c" "(ucast (u32_of a b c d) :: u8) = d"
    unfolding u32_of_def by (rule bit_eqI, auto simp: bit_simps dest: bit_u8)+
  then show ?thesis by (simp add: u32_be_bytes_def)
qed

lemma u32_ne_bytes: "u32_to_ne_bytes ne (u32_ne ne a b c d) = [a, b, c, d]"
  by (cases ne) (simp_all add: u32_be_bytes_of)

lemma unat_low_nibble: "unat (v AND 0x0F) = unat v mod 16" for v :: u8
proof -
  have "v AND 0x0F = take_bit 4 v" by (simp add: take_bit_eq_mask mask_eq_exp_minus_1)
  moreover have "unat (take_bit 4 v) = take_bit 4 (unat v)" by (rule unsigned_take_bit_eq)
  ultimately show ?thesis by (simp only: take_bit_eq_mod) simp
qed

text \<open>The client of an Ethernet frame that carries IPv4 with a header of at least 20 bytes.\<close>

definition xdp_key :: "u8 list \<Rightarrow> client_key option" where
  "xdp_key pkt =
     (if length pkt \<ge> 34 \<and> be16 (pkt ! 12) (pkt ! 13) = 2048 \<and> 5 \<le> unat (pkt ! 14) mod 16
      then Some (take 6 (drop 6 pkt) @ take 4 (drop 26 pkt)) else None)"

lemma take_source: "length pkt \<ge> 34 \<Longrightarrow> take 4 (drop 26 pkt) = [pkt ! 26, pkt ! 27, pkt ! 28, pkt ! 29]"
  by (rule nth_equalityI) (auto simp: less_Suc_eq numeral_eq_Suc)

text \<open>Whatever the byte order, the program reads the type, the header length and the source as on the wire.\<close>

lemma try_microwaf_key:
  "length pkt \<ge> 34 \<Longrightarrow>
   try_microwaf ne m pkt rnd =
     Inr (case xdp_key pkt of
            None \<Rightarrow> XDP_PASS
          | Some k \<Rightarrow>
              (case hm_get m k of
                 None \<Rightarrow> XDP_PASS
               | Some p \<Rightarrow>
                   if pe_blocked p \<noteq> 0 then XDP_DROP
                   else if pe_drop_rate p > 0 \<and> unat rnd mod 100 < unat (pe_drop_rate p) then XDP_DROP else XDP_PASS))"
  by (simp add: try_microwaf_def ptr_at_def eth_hdr_of_def ipv4_hdr_of_def u16_from_be_ne unat_u16_be u32_ne_bytes unat_low_nibble
      xdp_key_def ETH_P_IP_def ETH_HDR_LEN_def IP_HDR_MIN_def Let_def take_source drop_take take_drop [symmetric]
      split: option.splits)

lemma try_microwaf_short: "length pkt < 34 \<Longrightarrow> try_microwaf ne m pkt rnd \<in> {Inl (), Inr XDP_PASS}"
  by (auto simp: try_microwaf_def ptr_at_def ETH_HDR_LEN_def)

lemma microwaf_drop_iff:
  "microwaf ne m pkt rnd = XDP_DROP \<longleftrightarrow>
     (\<exists>k p. xdp_key pkt = Some k \<and> hm_get m k = Some p \<and>
        (pe_blocked p \<noteq> 0 \<or> unat rnd mod 100 < unat (pe_drop_rate p)))"
proof (cases "length pkt \<ge> 34")
  case True
  have z: "n < unat d \<Longrightarrow> 0 < d" for n and d :: u8 by (simp add: word_less_nat_alt)
  show ?thesis by (auto dest: z simp: microwaf_def try_microwaf_key [OF True] split: option.splits)
next
  case False
  then show ?thesis using try_microwaf_short [of pkt ne m rnd] by (auto simp: microwaf_def xdp_key_def)
qed

text \<open>
  C27: the XDP program decides every packet, in the same way on hosts of either byte order. A packet that is no complete IPv4 frame with a
  header of 20 bytes or more passes, as does one whose source has no entry; an entry that
  blocks drops every packet, and one with a drop rate drops exactly when the random number
  modulo 100 is below the rate.
\<close>

theorem xdp_verdict:
  "microwaf ne m pkt rnd = XDP_DROP \<longleftrightarrow>
     (\<exists>k p. xdp_key pkt = Some k \<and> hm_get m k = Some p \<and>
        (0 < pe_blocked p \<or> unat rnd mod 100 < unat (pe_drop_rate p)))"
  by (simp add: microwaf_drop_iff word_neq_0_conv)

text \<open>
  Of the hundred remainders of the random number, a throttled client's packet is dropped
  for exactly as many as its drop rate, up to all of them.
\<close>

lemma xdp_drop_fraction:
  assumes "xdp_key pkt = Some k" "hm_get m k = Some p" "pe_blocked p = 0"
  shows "card {r. r < 100 \<and> microwaf ne m pkt (of_nat r) = XDP_DROP} = min 100 (unat (pe_drop_rate p))"
proof -
  have "microwaf ne m pkt (of_nat r) = XDP_DROP \<longleftrightarrow> r < unat (pe_drop_rate p)" if "r < 100" for r
    using that assms by (simp add: microwaf_drop_iff unsigned_of_nat take_bit_eq_mod)
  then have "{r. r < 100 \<and> microwaf ne m pkt (of_nat r) = XDP_DROP} = {..<min 100 (unat (pe_drop_rate p))}"
    by auto
  then show ?thesis by simp
qed

lemma xdp_drop_fraction_example:
  "card {r. r < 100 \<and> microwaf ne [([0,0,0,0,0,0,10,0,0,1], \<lparr>pe_blocked = 0, pe_drop_rate = 30, pe_until_unix = 0\<rparr>)]
      [0,0,0,0,0,0, 0,0,0,0,0,0, 8,0, 0x45,0,0,0, 0,0,0,0, 0,0,0,0, 10,0,0,1, 0,0,0,0] (of_nat r) = XDP_DROP} = 30"
proof -
  let ?p = "\<lparr>pe_blocked = 0, pe_drop_rate = 30, pe_until_unix = 0\<rparr>"
  let ?pkt = "[0,0,0,0,0,0, 0,0,0,0,0,0, 8,0, 0x45,0,0,0, 0,0,0,0, 0,0,0,0, 10,0,0,1, 0,0,0,0] :: u8 list"
  have "xdp_key ?pkt = Some [0,0,0,0,0,0,10,0,0,1]"
    by (simp add: xdp_key_def be16_def)
  from xdp_drop_fraction [OF this, of "[([0,0,0,0,0,0,10,0,0,1], ?p)]" ?p] show ?thesis
    by (simp add: hm_simps)
qed

end
