(* ===== verification/Enforcement.thy ===== *)
theory Enforcement
  imports Policy_Merge Xdp_Program
begin

text \<open>
  Enforcement: the \<open>Enforcer\<close> trait and its two map-backed implementations of
  \<open>crates/mw-core/src/enforcer.rs\<close>, and \<open>BpfEnforcer\<close> of \<open>crates/microwaf/src/ebpf.rs\<close>. The locale \<open>enforcer\<close> is the contract of the trait:
  the action last applied to a client is the one in force until it is cleared. All three
  implementations satisfy it, \<open>BpfEnforcer\<close> for IPv4 clients only and in its mirror only.
\<close>

section \<open>Enforcers that record\<close>

type_synonym action_map = "(client_id, effective_action) hmap"

record permissive_enforcer =
  pe_log :: action_map

definition permissive_apply :: "client_id \<Rightarrow> effective_action \<Rightarrow> permissive_enforcer \<Rightarrow> permissive_enforcer" where
  "permissive_apply c a e = e\<lparr>pe_log := hm_insert c a (pe_log e)\<rparr>"

definition permissive_clear :: "client_id \<Rightarrow> permissive_enforcer \<Rightarrow> permissive_enforcer" where
  "permissive_clear c e = e\<lparr>pe_log := hm_remove c (pe_log e)\<rparr>"

definition permissive_snapshot :: "permissive_enforcer \<Rightarrow> action_map" where
  "permissive_snapshot e = pe_log e"

definition permissive_get :: "permissive_enforcer \<Rightarrow> client_id \<Rightarrow> effective_action option" where
  "permissive_get e c = hm_get (pe_log e) c"

record fake_enforcer =
  fe_applied :: action_map

definition fake_apply :: "client_id \<Rightarrow> effective_action \<Rightarrow> fake_enforcer \<Rightarrow> fake_enforcer" where
  "fake_apply c a e = e\<lparr>fe_applied := hm_insert c a (fe_applied e)\<rparr>"

definition fake_clear :: "client_id \<Rightarrow> fake_enforcer \<Rightarrow> fake_enforcer" where
  "fake_clear c e = e\<lparr>fe_applied := hm_remove c (fe_applied e)\<rparr>"

section \<open>The BPF enforcer\<close>

text \<open>
  Loading the program creates \<open>CLIENT_POLICY\<close> empty in the kernel, drops the handle to it and
  returns a handle that holds only the userspace mirror. The kernel map is kept here next to
  the mirror, so that what the code writes to each is explicit.
\<close>

record bpf_enforcer =
  be_policies :: "(client_key, bool \<times> u8) hmap"
  be_client_policy :: kernel_map

definition bpf_load_and_attach :: bpf_enforcer where
  "bpf_load_and_attach = \<lparr>be_policies = [], be_client_policy = []\<rparr>"

definition bpf_key :: "client_id \<Rightarrow> client_key option" where
  "bpf_key client =
     (case cl_ip client of
        V4 v4 \<Rightarrow> Some (mac_bytes (cl_mac client) @ octets v4)
      | V6 _ \<Rightarrow> None)"

definition bpf_clear :: "client_id \<Rightarrow> bpf_enforcer \<Rightarrow> bpf_enforcer" where
  "bpf_clear client e =
     (case bpf_key client of
        Some key \<Rightarrow> e\<lparr>be_policies := hm_remove key (be_policies e)\<rparr>
      | None \<Rightarrow> e)"

definition bpf_apply :: "client_id \<Rightarrow> effective_action \<Rightarrow> bpf_enforcer \<Rightarrow> bpf_enforcer" where
  "bpf_apply client act e =
     (case bpf_key client of
        None \<Rightarrow> e
      | Some key \<Rightarrow>
          (case act of
             EffNone \<Rightarrow> bpf_clear client e
           | EffBlock \<Rightarrow> e\<lparr>be_policies := hm_insert key (True, 100) (be_policies e)\<rparr>
           | EffThrottle rate \<Rightarrow> e\<lparr>be_policies := hm_insert key (False, rate) (be_policies e)\<rparr>))"

text \<open>A sequence of calls on an enforcer.\<close>

datatype enf_op = Apply client_id effective_action | Clear client_id

definition bpf_step :: "enf_op \<Rightarrow> bpf_enforcer \<Rightarrow> bpf_enforcer" where
  "bpf_step op e = (case op of Apply c a \<Rightarrow> bpf_apply c a e | Clear c \<Rightarrow> bpf_clear c e)"

section \<open>The contract of an enforcer\<close>

locale enforcer =
  fixes apply_action :: "client_id \<Rightarrow> effective_action \<Rightarrow> 'e \<Rightarrow> 'e"
    and clear_action :: "client_id \<Rightarrow> 'e \<Rightarrow> 'e"
    and in_force :: "'e \<Rightarrow> client_id \<Rightarrow> effective_action"
    and supported :: "'e \<Rightarrow> client_id \<Rightarrow> bool"
  assumes force_apply: "supported e c \<Longrightarrow> in_force (apply_action c a e) c' = (if c' = c then a else in_force e c')"
    and force_clear: "supported e c \<Longrightarrow> in_force (clear_action c e) c' = (if c' = c then EffNone else in_force e c')"
    and force_skip: "\<not> supported e c \<Longrightarrow> apply_action c a e = e" "\<not> supported e c \<Longrightarrow> clear_action c e = e"
    and supported_stable: "supported (apply_action c a e) = supported e" "supported (clear_action c e) = supported e"
begin

definition step :: "enf_op \<Rightarrow> 'e \<Rightarrow> 'e" where
  "step op e = (case op of Apply c a \<Rightarrow> apply_action c a e | Clear c \<Rightarrow> clear_action c e)"

definition effect :: "client_id \<Rightarrow> effective_action \<Rightarrow> enf_op \<Rightarrow> effective_action" where
  "effect c cur op =
     (case op of Apply c' a \<Rightarrow> if c' = c then a else cur | Clear c' \<Rightarrow> if c' = c then EffNone else cur)"

lemma force_step:
  assumes "supported e c"
  shows "in_force (step op e) c = effect c (in_force e c) op" and "supported (step op e) = supported e"
proof -
  show "supported (step op e) = supported e"
    by (cases op) (simp_all add: step_def supported_stable)
  show "in_force (step op e) c = effect c (in_force e c) op"
  proof (cases op)
    case (Apply c' a)
    with assms show ?thesis
      by (cases "supported e c'") (auto simp: step_def effect_def force_apply force_skip)
  next
    case (Clear c')
    with assms show ?thesis
      by (cases "supported e c'") (auto simp: step_def effect_def force_clear force_skip)
  qed
qed

lemma last_wins: "supported e c \<Longrightarrow> in_force (fold step ops e) c = foldl (effect c) (in_force e c) ops"
  by (induction ops arbitrary: e) (simp_all add: force_step)

lemma in_force_other:
  "c' \<noteq> c \<Longrightarrow> in_force (apply_action c a e) c' = in_force e c'"
  "c' \<noteq> c \<Longrightarrow> in_force (clear_action c e) c' = in_force e c'"
  by (cases "supported e c"; simp add: force_apply force_clear force_skip)+

end

definition permissive_in_force :: "permissive_enforcer \<Rightarrow> client_id \<Rightarrow> effective_action" where
  "permissive_in_force e c = hm_get_or (pe_log e) c EffNone"

definition fake_in_force :: "fake_enforcer \<Rightarrow> client_id \<Rightarrow> effective_action" where
  "fake_in_force e c = hm_get_or (fe_applied e) c EffNone"

definition bpf_supported :: "client_id \<Rightarrow> bool" where
  "bpf_supported c = (case cl_ip c of V4 _ \<Rightarrow> True | V6 _ \<Rightarrow> False)"

definition bpf_in_force :: "bpf_enforcer \<Rightarrow> client_id \<Rightarrow> effective_action" where
  "bpf_in_force e c =
     (case Option.bind (bpf_key c) (hm_get (be_policies e)) of
        None \<Rightarrow> EffNone
      | Some (blocked, rate) \<Rightarrow> if blocked then EffBlock else EffThrottle rate)"

lemma bpf_key_Some_inject:
  "bpf_key a = Some k \<Longrightarrow> bpf_key b = Some k \<longleftrightarrow> a = b"
proof -
  assume a: "bpf_key a = Some k"
  obtain x where x: "cl_ip a = V4 x" using a by (cases "cl_ip a") (auto simp: bpf_key_def)
  have "bpf_key b = Some k \<longleftrightarrow> cl_mac b = cl_mac a \<and> cl_ip b = cl_ip a"
  proof (cases "cl_ip b")
    case (V4 y)
    have "mac_bytes (cl_mac b) @ octets y = mac_bytes (cl_mac a) @ octets x \<longleftrightarrow>
        cl_mac b = cl_mac a \<and> y = x"
      by (cases "cl_mac a"; cases "cl_mac b"; cases x; cases y) auto
    with a x V4 show ?thesis by (auto simp: bpf_key_def)
  next
    case (V6 y)
    with x show ?thesis by (simp add: bpf_key_def)
  qed
  then show ?thesis by (cases a; cases b) auto
qed

lemma bpf_supported_key: "bpf_supported c \<longleftrightarrow> (\<exists>k. bpf_key c = Some k)"
  by (cases "cl_ip c") (simp_all add: bpf_supported_def bpf_key_def)

interpretation permissive: enforcer permissive_apply permissive_clear permissive_in_force "\<lambda>_ _. True"
  by unfold_locales
    (auto simp: permissive_in_force_def permissive_apply_def permissive_clear_def hm_get_or_def hm_simps)

interpretation fake: enforcer fake_apply fake_clear fake_in_force "\<lambda>_ _. True"
  by unfold_locales (auto simp: fake_in_force_def fake_apply_def fake_clear_def hm_get_or_def hm_simps)

lemma bpf_force_clear:
  assumes "bpf_key c = Some k"
  shows "bpf_in_force (bpf_clear c e) c' = (if c' = c then EffNone else bpf_in_force e c')"
  using bpf_key_Some_inject [OF assms, of c'] assms
  by (cases "bpf_key c'") (auto simp: bpf_in_force_def bpf_clear_def hm_simps)

lemma bpf_force_apply:
  assumes "bpf_key c = Some k"
  shows "bpf_in_force (bpf_apply c a e) c' = (if c' = c then a else bpf_in_force e c')"
proof (cases "a = EffNone")
  case True
  with assms show ?thesis by (simp add: bpf_apply_def bpf_force_clear)
next
  case False
  with bpf_key_Some_inject [OF assms, of c'] assms show ?thesis
    by (cases a; cases "bpf_key c'") (auto simp: bpf_in_force_def bpf_apply_def hm_simps)
qed

lemma bpf_unsupported: "bpf_key c = None \<Longrightarrow> bpf_apply c a e = e" "bpf_key c = None \<Longrightarrow> bpf_clear c e = e"
  by (simp_all add: bpf_apply_def bpf_clear_def)

interpretation bpf: enforcer bpf_apply bpf_clear bpf_in_force "\<lambda>_. bpf_supported"
  by unfold_locales (auto simp: bpf_supported_key bpf_force_apply bpf_force_clear bpf_unsupported)

section \<open>Any enforcer\<close>

text \<open>The \<open>Arc<dyn Enforcer>\<close> of the daemon: one of the implementations.\<close>

datatype any_enforcer = EnfPermissive permissive_enforcer | EnfFake fake_enforcer | EnfBpf bpf_enforcer

fun any_apply :: "client_id \<Rightarrow> effective_action \<Rightarrow> any_enforcer \<Rightarrow> any_enforcer" where
  "any_apply c a (EnfPermissive e) = EnfPermissive (permissive_apply c a e)"
| "any_apply c a (EnfFake e) = EnfFake (fake_apply c a e)"
| "any_apply c a (EnfBpf e) = EnfBpf (bpf_apply c a e)"

fun any_clear :: "client_id \<Rightarrow> any_enforcer \<Rightarrow> any_enforcer" where
  "any_clear c (EnfPermissive e) = EnfPermissive (permissive_clear c e)"
| "any_clear c (EnfFake e) = EnfFake (fake_clear c e)"
| "any_clear c (EnfBpf e) = EnfBpf (bpf_clear c e)"

fun any_in_force :: "any_enforcer \<Rightarrow> client_id \<Rightarrow> effective_action" where
  "any_in_force (EnfPermissive e) c = permissive_in_force e c"
| "any_in_force (EnfFake e) c = fake_in_force e c"
| "any_in_force (EnfBpf e) c = bpf_in_force e c"

fun any_supported :: "any_enforcer \<Rightarrow> client_id \<Rightarrow> bool" where
  "any_supported (EnfBpf e) c = bpf_supported c"
| "any_supported _ c = True"

interpretation any: enforcer any_apply any_clear any_in_force any_supported
proof
  fix e c a c'
  show "any_supported e c \<Longrightarrow> any_in_force (any_apply c a e) c' = (if c' = c then a else any_in_force e c')"
    by (cases e) (simp_all add: permissive.force_apply fake.force_apply bpf.force_apply)
  show "any_supported e c \<Longrightarrow> any_in_force (any_clear c e) c' = (if c' = c then EffNone else any_in_force e c')"
    by (cases e) (simp_all add: permissive.force_clear fake.force_clear bpf.force_clear)
  show "\<not> any_supported e c \<Longrightarrow> any_apply c a e = e" "\<not> any_supported e c \<Longrightarrow> any_clear c e = e"
    by (cases e; simp add: bpf.force_skip)+
  show "any_supported (any_apply c a e) = any_supported e" "any_supported (any_clear c e) = any_supported e"
    by (cases e; simp add: fun_eq_iff)+
qed

section \<open>The enforcer and the XDP program\<close>

text \<open>
  C28: nothing the BPF enforcer does reaches the kernel map, so the XDP program passes every
  packet of every client, blocked ones included.
\<close>

theorem xdp_never_drops:
  "microwaf ne (be_client_policy (fold bpf_step ops bpf_load_and_attach)) pkt rnd = XDP_PASS"
proof -
  have step: "be_client_policy (bpf_step op e) = be_client_policy e" for op e
    by (cases op) (auto simp: bpf_step_def bpf_apply_def bpf_clear_def split: option.splits effective_action.splits)
  have "be_client_policy (fold bpf_step ops e) = be_client_policy e" for e
    by (induction ops arbitrary: e) (simp_all add: step)
  then have "microwaf ne (be_client_policy (fold bpf_step ops bpf_load_and_attach)) pkt rnd \<noteq> XDP_DROP"
    by (simp add: microwaf_drop_iff bpf_load_and_attach_def hm_simps)
  then show ?thesis by (cases "microwaf ne (be_client_policy (fold bpf_step ops bpf_load_and_attach)) pkt rnd") auto
qed

end
