(* ===== verification/Counter_Store.thy ===== *)
theory Counter_Store
  imports Client_Id Rule_Types
begin

text \<open>
  \<open>crates/mw-core/src/counters.rs\<close>: the counters the sniffer feeds and the decision loop
  reads. The locale \<open>rule_counters\<close> is what the two sides rely on: counters start at zero and
  an increment adds to its own key only, saturating. Over any sequence of increments a counter
  is then the saturating sum of its own increments, and it never decreases.
\<close>

section \<open>The store\<close>

record cumulative_counters =
  cc_requests :: u64
  cc_bytes :: u64
  cc_connections :: u64
  cc_ws_connections :: u64

definition cumulative_default :: cumulative_counters where
  "cumulative_default = \<lparr>cc_requests = 0, cc_bytes = 0, cc_connections = 0, cc_ws_connections = 0\<rparr>"

record counter_key =
  ck_client :: client_id
  ck_rule_id :: rule_id

type_synonym triple = "u64 \<times> u64 \<times> u64"

record counter_store =
  cs_by_rule :: "(counter_key, triple) hmap"
  cs_by_client :: "(client_id, cumulative_counters) hmap"

definition counter_store_default :: counter_store where
  "counter_store_default = \<lparr>cs_by_rule = [], cs_by_client = []\<rparr>"

fun triple_add :: "triple \<Rightarrow> triple \<Rightarrow> triple" where
  "triple_add (a, b, c) (x, y, z) = (sat_add a x, sat_add b y, sat_add c z)"

definition cs_add :: "client_id \<Rightarrow> rule_id \<Rightarrow> u64 \<Rightarrow> u64 \<Rightarrow> u64 \<Rightarrow> counter_store \<Rightarrow> counter_store" where
  "cs_add client rule req bytes conn s =
     (let k = \<lparr>ck_client = client, ck_rule_id = rule\<rparr>;
          e = hm_get_or (cs_by_rule s) k (0, 0, 0);
          s = s\<lparr>cs_by_rule := hm_insert k (triple_add e (req, bytes, conn)) (cs_by_rule s)\<rparr>;
          d = hm_get_or (cs_by_client s) client cumulative_default;
          d = d\<lparr>cc_requests := sat_add (cc_requests d) req,
                cc_bytes := sat_add (cc_bytes d) bytes,
                cc_connections := sat_add (cc_connections d) conn\<rparr>
      in s\<lparr>cs_by_client := hm_insert client d (cs_by_client s)\<rparr>)"

definition add_requests :: "client_id \<Rightarrow> rule_id \<Rightarrow> u64 \<Rightarrow> counter_store \<Rightarrow> counter_store" where
  "add_requests client rule n = cs_add client rule n 0 0"

definition add_bytes :: "client_id \<Rightarrow> rule_id \<Rightarrow> u64 \<Rightarrow> counter_store \<Rightarrow> counter_store" where
  "add_bytes client rule n = cs_add client rule 0 n 0"

definition add_connections :: "client_id \<Rightarrow> rule_id \<Rightarrow> u64 \<Rightarrow> counter_store \<Rightarrow> counter_store" where
  "add_connections client rule n = cs_add client rule 0 0 n"

definition add_ws_connection :: "client_id \<Rightarrow> counter_store \<Rightarrow> counter_store" where
  "add_ws_connection client s =
     (let e = hm_get_or (cs_by_client s) client cumulative_default
      in s\<lparr>cs_by_client :=
             hm_insert client (e\<lparr>cc_ws_connections := sat_add (cc_ws_connections e) 1\<rparr>) (cs_by_client s)\<rparr>)"

definition snapshot_rules :: "counter_store \<Rightarrow> (counter_key, triple) hmap" where
  "snapshot_rules s = cs_by_rule s"

definition snapshot_clients :: "counter_store \<Rightarrow> (client_id, cumulative_counters) hmap" where
  "snapshot_clients s = cs_by_client s"

definition get_rule :: "counter_store \<Rightarrow> client_id \<Rightarrow> rule_id \<Rightarrow> triple" where
  "get_rule s client rule =
     hm_get_or (cs_by_rule s) \<lparr>ck_client = client, ck_rule_id = rule\<rparr> (0, 0, 0)"

definition cs_wf :: "counter_store \<Rightarrow> bool" where
  "cs_wf s \<longleftrightarrow> hm_wf (cs_by_rule s) \<and> hm_wf (cs_by_client s)"

section \<open>The contract of the counters\<close>

text \<open>The three components of a counter, and the order on them.\<close>

fun triple_get :: "metric \<Rightarrow> triple \<Rightarrow> u64" where
  "triple_get Requests (a, b, c) = a"
| "triple_get Bytes (a, b, c) = b"
| "triple_get Connections (a, b, c) = c"

definition triple_le :: "triple \<Rightarrow> triple \<Rightarrow> bool" where
  "triple_le s t \<longleftrightarrow> (\<forall>m. triple_get m s \<le> triple_get m t)"

lemma triple_get_add: "triple_get m (triple_add s t) = sat_add (triple_get m s) (triple_get m t)"
  by (cases m; cases s; cases t) simp_all

lemma triple_eqI: "(\<And>m. triple_get m s = triple_get m t) \<Longrightarrow> s = t"
proof -
  assume *: "\<And>m. triple_get m s = triple_get m t"
  show "s = t" using * [of Requests] * [of Bytes] * [of Connections] by (cases s; cases t) simp
qed

lemma triple_get_zero [simp]: "triple_get m (0, 0, 0) = 0"
  by (cases m) simp_all

lemma triple_le_refl [simp]: "triple_le t t"
  by (simp add: triple_le_def)

lemma triple_le_trans: "triple_le a b \<Longrightarrow> triple_le b c \<Longrightarrow> triple_le a c"
  unfolding triple_le_def using order_trans by blast

lemma triple_le_add: "triple_le t (triple_add t d)"
  by (simp add: triple_le_def triple_get_add sat_add_mono)

type_synonym counter_incr = "client_id \<times> rule_id \<times> triple"

definition incr_values :: "metric \<Rightarrow> client_id \<Rightarrow> rule_id \<Rightarrow> counter_incr list \<Rightarrow> u64 list" where
  "incr_values m c r incs =
     map (\<lambda>(c', r', d). triple_get m d) (filter (\<lambda>(c', r', d). c' = c \<and> r' = r) incs)"

locale rule_counters =
  fixes init :: 's
    and add_incr :: "counter_incr \<Rightarrow> 's \<Rightarrow> 's"
    and get_counter :: "'s \<Rightarrow> client_id \<Rightarrow> rule_id \<Rightarrow> triple"
  assumes get_init: "get_counter init c r = (0, 0, 0)"
    and get_add: "get_counter (add_incr (c, r, d) s) c' r' =
      (if c' = c \<and> r' = r then triple_add (get_counter s c r) d else get_counter s c' r')"
begin

lemma counter_mono: "triple_le (get_counter s c r) (get_counter (fold add_incr incs s) c r)"
proof (induction incs arbitrary: s)
  case (Cons i incs)
  obtain c' r' d where i: "i = (c', r', d)" by (cases i)
  have "triple_le (get_counter s c r) (get_counter (add_incr i s) c r)"
    by (simp add: i get_add triple_le_add)
  with Cons.IH [of "add_incr i s"] show ?case by (auto intro: triple_le_trans)
qed simp

lemma counter_total:
  "triple_get m (get_counter (fold add_incr incs s) c r) =
     sat_add (triple_get m (get_counter s c r)) (sat_sum (incr_values m c r incs))"
proof (induction incs arbitrary: s)
  case (Cons i incs)
  obtain c' r' d where i: "i = (c', r', d)" by (cases i)
  show ?case using Cons.IH [of "add_incr i s"]
    by (auto simp: i get_add incr_values_def triple_get_add sat_add_assoc)
qed (simp add: incr_values_def)

lemma counter_total_init:
  "triple_get m (get_counter (fold add_incr incs init) c r) = sat_sum (incr_values m c r incs)"
  by (simp add: counter_total get_init)

end

definition cs_incr :: "counter_incr \<Rightarrow> counter_store \<Rightarrow> counter_store" where
  "cs_incr i s = (case i of (c, r, (a, b, n)) \<Rightarrow> cs_add c r a b n s)"

lemma get_rule_add:
  "get_rule (cs_add c r a b n s) c' r' =
     (if c' = c \<and> r' = r then triple_add (get_rule s c r) (a, b, n) else get_rule s c' r')"
  by (auto simp: get_rule_def cs_add_def Let_def hm_get_or_def hm_simps)

interpretation counters: rule_counters counter_store_default cs_incr get_rule
proof
  fix c r d s c' r'
  show "get_rule counter_store_default c r = (0, 0, 0)"
    by (simp add: get_rule_def counter_store_default_def hm_get_or_def hm_simps)
  show "get_rule (cs_incr (c, r, d) s) c' r' =
      (if c' = c \<and> r' = r then triple_add (get_rule s c r) d else get_rule s c' r')"
    by (cases d) (simp add: cs_incr_def get_rule_add)
qed

lemma cs_wf_default [simp]: "cs_wf counter_store_default"
  by (simp add: cs_wf_def counter_store_default_def)

lemma cs_wf_add [simp]: "cs_wf s \<Longrightarrow> cs_wf (cs_add c r a b n s)"
  by (simp add: cs_wf_def cs_add_def Let_def)

lemma cs_wf_add_ws [simp]: "cs_wf s \<Longrightarrow> cs_wf (add_ws_connection c s)"
  by (simp add: cs_wf_def add_ws_connection_def Let_def)

lemma cs_wf_adds [simp]:
  "cs_wf s \<Longrightarrow> cs_wf (add_requests c r n s)"
  "cs_wf s \<Longrightarrow> cs_wf (add_bytes c r n s)"
  "cs_wf s \<Longrightarrow> cs_wf (add_connections c r n s)"
  by (simp_all add: add_requests_def add_bytes_def add_connections_def)

section \<open>The diagnostics per client\<close>

fun cum_get :: "metric \<Rightarrow> cumulative_counters \<Rightarrow> u64" where
  "cum_get Requests d = cc_requests d"
| "cum_get Bytes d = cc_bytes d"
| "cum_get Connections d = cc_connections d"

definition client_counter :: "counter_store \<Rightarrow> client_id \<Rightarrow> metric \<Rightarrow> u64" where
  "client_counter s c m = cum_get m (hm_get_or (cs_by_client s) c cumulative_default)"

definition client_values :: "metric \<Rightarrow> client_id \<Rightarrow> counter_incr list \<Rightarrow> u64 list" where
  "client_values m c incs = map (\<lambda>(c', r', d). triple_get m d) (filter (\<lambda>(c', r', d). c' = c) incs)"

lemma client_counter_incr:
  "client_counter (cs_incr (c', r', d) s) c m =
     (if c' = c then sat_add (client_counter s c m) (triple_get m d) else client_counter s c m)"
  by (cases d; cases m) (auto simp: client_counter_def cs_incr_def cs_add_def Let_def hm_get_or_def hm_simps)

lemma client_counter_total:
  "client_counter (fold cs_incr incs s) c m = sat_add (client_counter s c m) (sat_sum (client_values m c incs))"
proof (induction incs arbitrary: s)
  case (Cons i incs)
  obtain c' r' d where i: "i = (c', r', d)" by (cases i)
  show ?case using Cons.IH [of "cs_incr i s"]
    by (auto simp: i client_counter_incr client_values_def sat_add_assoc)
qed (simp add: client_values_def)

text \<open>
  From the empty store, after any sequence of increments, each counter of a client and a
  rule is the saturating sum of the increments made for exactly that client and rule, the
  client's diagnostic counter is the saturating sum over all its rules, and so it is never
  below any of its rule counters.
\<close>

lemma counter_totals:
  "triple_get m (get_rule (fold cs_incr incs counter_store_default) c r) = sat_sum (incr_values m c r incs) \<and>
   client_counter (fold cs_incr incs counter_store_default) c m = sat_sum (client_values m c incs) \<and>
   triple_get m (get_rule (fold cs_incr incs counter_store_default) c r)
     \<le> client_counter (fold cs_incr incs counter_store_default) c m"
proof -
  have init: "client_counter counter_store_default c m = 0"
    by (cases m) (simp_all add: client_counter_def counter_store_default_def hm_get_or_def hm_simps cumulative_default_def)
  have total: "client_counter (fold cs_incr incs counter_store_default) c m = sat_sum (client_values m c incs)"
    by (simp add: client_counter_total init)
  have "sat_sum (incr_values m c r incs) \<le> sat_sum (client_values m c incs)"
    unfolding incr_values_def client_values_def by (rule sat_sum_filter_mono) auto
  with total show ?thesis by (simp add: counters.counter_total_init)
qed

end
