(* ===== verification/Rule_Config.thy ===== *)
theory Rule_Config
  imports Rule_Engine "HOL-Library.Char_ord" "HOL-Library.List_Lexorder"
begin

text \<open>
  Configuration: \<open>crates/mw-core/src/config.rs\<close> and the loading half of
  \<open>crates/microwaf/src/config.rs\<close>. The YAML library is a parameter (\<open>yaml_api\<close>), the directory is
  an explicit store, and whether an operating system call succeeds is a parameter of each
  operation. A loaded configuration always has a well-formed rule set; seeding creates what is
  missing and never touches a live file.
\<close>

section \<open>Configuration data\<close>

record daemon_config =
  dc_mode :: mode
  dc_interface :: "string option"
  dc_cooldown_secs :: u64
  dc_stats_snapshot_secs :: u64
  dc_allow_users :: "string list"

definition daemon_config_default :: daemon_config where
  "daemon_config_default =
     \<lparr>dc_mode = Enforce, dc_interface = Some ''any'', dc_cooldown_secs = 30, dc_stats_snapshot_secs = 5,
      dc_allow_users = [''root'', ''bigfred'', ''bigfred-wizard'']\<rparr>"

record sets_config =
  sc_sets :: "(string, string list) hmap"

definition sets_config_default :: sets_config where
  "sets_config_default = \<lparr>sc_sets = []\<rparr>"

datatype config_action = CfgThrottle u8 | CfgBlock

fun action_from :: "config_action \<Rightarrow> action" where
  "action_from (CfgThrottle r) = ActThrottle r"
| "action_from CfgBlock = ActBlock"

record config_rule =
  cr_id :: string
  cr_protocol :: string
  cr_ports :: "u16 list option"
  cr_metric :: string
  cr_window :: string
  cr_limit :: u64
  cr_action :: config_action
  cr_min_threshold :: u64
  cr_match :: "string option"

text \<open>What the code takes from \<open>serde_yaml\<close>, with \<open>'y\<close> its value type.\<close>

record 'y yaml_api =
  y_from_str :: "string \<Rightarrow> string + 'y"
  y_is_sequence :: "'y \<Rightarrow> bool"
  y_is_mapping :: "'y \<Rightarrow> bool"
  y_rule_list :: "'y \<Rightarrow> string + config_rule list"
  y_rule :: "'y \<Rightarrow> string + config_rule"
  y_daemon :: "string \<Rightarrow> string + daemon_config"
  y_sets :: "string \<Rightarrow> string + sets_config"

section \<open>Compiling rules\<close>

definition compile :: "'p cel_api \<Rightarrow> config_rule \<Rightarrow> config_error + 'p rule" where
  "compile api c =
     (case protocol_from_str (cr_protocol c) of
        Inl e \<Rightarrow> Inl e
      | Inr protocol \<Rightarrow>
     (case metric_from_str (cr_metric c) of
        Inl e \<Rightarrow> Inl e
      | Inr metric \<Rightarrow>
     (case window_from_str (cr_window c) of
        Inl e \<Rightarrow> Inl e
      | Inr window \<Rightarrow>
     (case (case cr_match c of
              Some src \<Rightarrow>
                if src \<noteq> [] then
                  (case compile_match api src of
                     Inl e \<Rightarrow> Inl (CelCompile (cr_id c) e)
                   | Inr m \<Rightarrow> Inr (Some m))
                else Inr None
            | None \<Rightarrow> Inr None) of
        Inl e \<Rightarrow> Inl e
      | Inr compiled \<Rightarrow>
          let rule = \<lparr>r_id = cr_id c, r_protocol = protocol, r_ports = cr_ports c, r_metric = metric,
                      r_window = window, r_limit = cr_limit c, r_action = action_from (cr_action c),
                      r_min_threshold = cr_min_threshold c, r_match = compiled, r_match_src = cr_match c\<rparr>
          in case validate rule of
               Inl e \<Rightarrow> Inl e
             | Inr _ \<Rightarrow> Inr rule))))"

definition parse_rules_yaml :: "'y yaml_api \<Rightarrow> string \<Rightarrow> config_error + config_rule list" where
  "parse_rules_yaml y s =
     (case y_from_str y s of
        Inl e \<Rightarrow> Inl (ParseError e)
      | Inr v \<Rightarrow>
          if y_is_sequence y v then
            (case y_rule_list y v of Inl e \<Rightarrow> Inl (ParseError e) | Inr rs \<Rightarrow> Inr rs)
          else if y_is_mapping y v then
            (case y_rule y v of Inl e \<Rightarrow> Inl (ParseError e) | Inr one \<Rightarrow> Inr [one])
          else Inl (ParseError ''rules file must be a list or a single mapping''))"

text \<open>The loop of \<open>compile_ruleset\<close>.\<close>

fun compile_all :: "'p cel_api \<Rightarrow> config_rule list \<Rightarrow> config_error + 'p rule list" where
  "compile_all api [] = Inr []"
| "compile_all api (c # cs) =
     (case compile api c of
        Inl e \<Rightarrow> Inl e
      | Inr r \<Rightarrow> (case compile_all api cs of Inl e \<Rightarrow> Inl e | Inr rs \<Rightarrow> Inr (r # rs)))"

definition compile_ruleset :: "'p cel_api \<Rightarrow> config_rule list \<Rightarrow> config_error + 'p rule_set" where
  "compile_ruleset api configs =
     (if length configs > MAX_RULES then Inl (TooManyRules (length configs) MAX_RULES)
      else case compile_all api configs of
             Inl e \<Rightarrow> Inl e
           | Inr rules \<Rightarrow> rule_set_new rules)"

section \<open>The configuration directory\<close>

text \<open>A directory that exists maps file names to contents; \<open>rules.d\<close> is inside the root.\<close>

record config_dir =
  cd_root :: "(string, string) hmap option"
  cd_rules :: "(string, string) hmap option"

datatype cfg_path = RootFile string | RulesFile string

datatype io_op = MkRoot | MkRules | WriteFile cfg_path | ReadFile cfg_path | ListRules

text \<open>Why loading fails: a call to the system, a YAML document, a rules file, or the rules together.\<close>

datatype load_error =
    IoFailed io_op string
  | YamlFailed cfg_path string
  | RulesFailed string config_error
  | CompileFailed config_error

text \<open>The answer of the operating system: \<open>None\<close> is success, \<open>Some\<close> the error.\<close>

type_synonym io_oracle = "io_op \<Rightarrow> string option"

definition files_of :: "(string, string) hmap option \<Rightarrow> (string, string) hmap" where
  "files_of d = (case d of Some m \<Rightarrow> m | None \<Rightarrow> [])"

fun file_get :: "config_dir \<Rightarrow> cfg_path \<Rightarrow> string option" where
  "file_get d (RootFile n) = hm_get (files_of (cd_root d)) n"
| "file_get d (RulesFile n) = hm_get (files_of (cd_rules d)) n"

fun file_put :: "cfg_path \<Rightarrow> string \<Rightarrow> config_dir \<Rightarrow> config_dir" where
  "file_put (RootFile n) body d = d\<lparr>cd_root := Some (hm_insert n body (files_of (cd_root d)))\<rparr>"
| "file_put (RulesFile n) body d = d\<lparr>cd_rules := Some (hm_insert n body (files_of (cd_rules d)))\<rparr>"

definition path_exists :: "config_dir \<Rightarrow> cfg_path \<Rightarrow> bool" where
  "path_exists d p = (file_get d p \<noteq> None)"

fun example_path :: "cfg_path \<Rightarrow> cfg_path" where
  "example_path (RootFile n) = RootFile (n @ ''.example'')"
| "example_path (RulesFile n) = RulesFile (n @ ''.example'')"

definition newline :: char where "newline = CHR 0x0A"

definition unlines :: "string list \<Rightarrow> string" where
  "unlines ls = concat (map (\<lambda>l. l @ [newline]) ls)"

definition write_text :: "io_oracle \<Rightarrow> cfg_path \<Rightarrow> string \<Rightarrow> config_dir \<Rightarrow> (load_error + unit) \<times> config_dir" where
  "write_text io p body d =
     (let out = (if body \<noteq> [] \<and> last body = newline then body else body @ [newline])
      in case io (WriteFile p) of
           Some e \<Rightarrow> (Inl (IoFailed (WriteFile p) e), d)
         | None \<Rightarrow> (Inr (), file_put p out d))"

definition write_example :: "io_oracle \<Rightarrow> cfg_path \<Rightarrow> string \<Rightarrow> config_dir \<Rightarrow> (load_error + cfg_path) \<times> config_dir" where
  "write_example io p body d =
     (case write_text io (example_path p) body d of
        (Inl e, d') \<Rightarrow> (Inl e, d')
      | (Inr _, d') \<Rightarrow> (Inr (example_path p), d'))"

definition seed_if_missing :: "io_oracle \<Rightarrow> cfg_path \<Rightarrow> string \<Rightarrow> config_dir \<Rightarrow> (load_error + bool) \<times> config_dir" where
  "seed_if_missing io p body d =
     (if path_exists d p then (Inr False, d)
      else case write_text io p body d of
             (Inl e, d') \<Rightarrow> (Inl e, d')
           | (Inr _, d') \<Rightarrow> (Inr True, d'))"

text \<open>\<open>Path::extension\<close> of a file name: after the last dot, unless that is the first character.\<close>

definition file_extension :: "string \<Rightarrow> string option" where
  "file_extension n =
     (let ext = takeWhile (\<lambda>c. c \<noteq> CHR ''.'') (rev n); stem = drop (length ext + 1) (rev n)
      in if length ext = length n \<or> stem = [] then None else Some (rev ext))"

definition ends_with :: "string \<Rightarrow> string \<Rightarrow> bool" where
  "ends_with s suf = (length suf \<le> length s \<and> drop (length s - length suf) s = suf)"

definition is_rules_yaml :: "string \<Rightarrow> bool" where
  "is_rules_yaml n =
     (if ends_with n ''.example'' then False
      else case file_extension n of
             Some e \<Rightarrow> e = ''yaml'' \<or> e = ''yml''
           | None \<Rightarrow> False)"

definition rules_dir_has_yaml :: "io_oracle \<Rightarrow> config_dir \<Rightarrow> bool" where
  "rules_dir_has_yaml io d =
     (case io ListRules of
        Some _ \<Rightarrow> False
      | None \<Rightarrow> list_ex is_rules_yaml (hm_keys (files_of (cd_rules d))))"

definition DEFAULT_DAEMON_YAML :: string where
  "DEFAULT_DAEMON_YAML = unlines
     [''mode: enforce'', ''# NIC name, or `any` to sniff on all interfaces (default)'', ''interface: any'',
      ''cooldownSecs: 30'', ''statsSnapshotSecs: 5'', ''allowUsers:'', ''  - root'', ''  - bigfred'',
      ''  - bigfred-wizard'']"

definition DEFAULT_SETS_YAML :: string where
  "DEFAULT_SETS_YAML = unlines [''allowlist:'', ''  - 10.0.0.0/8'', ''  - 192.168.0.0/16'']"

definition DEFAULT_RULES_YAML :: string where
  "DEFAULT_RULES_YAML = unlines
     [''- id: http-rps-100'', ''  protocol: http'', ''  ports: [80, 443]'', ''  metric: requests'',
      ''  window: per-second'', ''  limit: 100'', ''  action: { kind: throttle, dropRate: 50 }'',
      ''  minThreshold: 50'', [],
      ''- id: z21-rps'', ''  protocol: z21'', ''  ports: [21105, 21106]'', ''  metric: requests'',
      ''  window: per-second'', ''  limit: 500'', ''  action: { kind: throttle, dropRate: 50 }'',
      ''  minThreshold: 200'', [],
      ''- id: wt-speed-spam'', ''  protocol: withrottle'', ''  ports: [12090]'', ''  metric: requests'',
      ''  window: per-second'', ''  limit: 30'', ''  action: { kind: block }'', ''  minThreshold: 10'',
      ''  match: '' @ [CHR 0x27] @ ''withrottle.prefix == '' @ [CHR 0x22] @ ''M0A'' @ [CHR 0x22, CHR 0x27], [],
      ''- id: tcp-conn-per-sec'', ''  protocol: tcp'', ''  ports: [5000]'', ''  metric: connections'',
      ''  window: per-second'', ''  limit: 20'', ''  action: { kind: throttle, dropRate: 60 }'',
      ''  minThreshold: 10'']"

abbreviation daemon_path :: cfg_path where "daemon_path \<equiv> RootFile ''daemon.yaml''"
abbreviation sets_path :: cfg_path where "sets_path \<equiv> RootFile ''sets.yaml''"
abbreviation baseline_path :: cfg_path where "baseline_path \<equiv> RulesFile ''00-baseline.yaml''"

definition mkdirs :: "config_dir \<Rightarrow> config_dir" where
  "mkdirs d = d\<lparr>cd_root := Some (files_of (cd_root d)), cd_rules := Some (files_of (cd_rules d))\<rparr>"

definition ensure_config_files :: "io_oracle \<Rightarrow> config_dir \<Rightarrow> (load_error + unit) \<times> config_dir" where
  "ensure_config_files io d =
     (case io MkRoot of
        Some e \<Rightarrow> (Inl (IoFailed MkRoot e), d)
      | None \<Rightarrow>
     (case io MkRules of
        Some e \<Rightarrow> (Inl (IoFailed MkRules e), d\<lparr>cd_root := Some (files_of (cd_root d))\<rparr>)
      | None \<Rightarrow>
     (let d = mkdirs d;
          d = snd (write_example io daemon_path DEFAULT_DAEMON_YAML d);
          d = snd (write_example io sets_path DEFAULT_SETS_YAML d);
          d = snd (write_example io baseline_path DEFAULT_RULES_YAML d)
      in case seed_if_missing io daemon_path DEFAULT_DAEMON_YAML d of
           (Inl e, d) \<Rightarrow> (Inl e, d)
         | (Inr _, d) \<Rightarrow>
             (case seed_if_missing io sets_path DEFAULT_SETS_YAML d of
                (Inl e, d) \<Rightarrow> (Inl e, d)
              | (Inr _, d) \<Rightarrow>
                  if \<not> rules_dir_has_yaml io d then
                    (case seed_if_missing io baseline_path DEFAULT_RULES_YAML d of
                       (Inl e, d) \<Rightarrow> (Inl e, d)
                     | (Inr _, d) \<Rightarrow> (Inr (), d))
                  else (Inr (), d)))))"

section \<open>Loading\<close>

definition read_file :: "io_oracle \<Rightarrow> config_dir \<Rightarrow> cfg_path \<Rightarrow> load_error + string" where
  "read_file io d p =
     (case io (ReadFile p) of
        Some e \<Rightarrow> Inl (IoFailed (ReadFile p) e)
      | None \<Rightarrow> (case file_get d p of Some s \<Rightarrow> Inr s | None \<Rightarrow> Inl (IoFailed (ReadFile p) ''not found'')))"

definition load_daemon :: "io_oracle \<Rightarrow> 'y yaml_api \<Rightarrow> config_dir \<Rightarrow> load_error + daemon_config" where
  "load_daemon io y d =
     (if \<not> path_exists d daemon_path then Inr daemon_config_default
      else case read_file io d daemon_path of Inl e \<Rightarrow> Inl e | 
             Inr s \<Rightarrow> (case y_daemon y s of Inl e \<Rightarrow> Inl (YamlFailed daemon_path e) | Inr c \<Rightarrow> Inr c))"

definition load_sets :: "io_oracle \<Rightarrow> 'y yaml_api \<Rightarrow> config_dir \<Rightarrow> load_error + sets_config" where
  "load_sets io y d =
     (if \<not> path_exists d sets_path then Inr sets_config_default
      else case read_file io d sets_path of Inl e \<Rightarrow> Inl e | 
             Inr s \<Rightarrow> (case y_sets y s of Inl e \<Rightarrow> Inl (YamlFailed sets_path e) | Inr c \<Rightarrow> Inr c))"

text \<open>The loop of \<open>load_rules\<close> over the sorted files.\<close>

fun load_rule_files :: "io_oracle \<Rightarrow> 'y yaml_api \<Rightarrow> config_dir \<Rightarrow> string list \<Rightarrow> load_error + config_rule list" where
  "load_rule_files io y d [] = Inr []"
| "load_rule_files io y d (f # fs) =
     (case read_file io d (RulesFile f) of
        Inl e \<Rightarrow> Inl e
      | Inr s \<Rightarrow>
          (case parse_rules_yaml y s of
             Inl e \<Rightarrow> Inl (RulesFailed f e)
           | Inr cfgs \<Rightarrow>
               (case load_rule_files io y d fs of Inl e \<Rightarrow> Inl e | Inr rest \<Rightarrow> Inr (cfgs @ rest))))"

definition rule_files :: "config_dir \<Rightarrow> string list" where
  "rule_files d = sort (filter is_rules_yaml (hm_keys (files_of (cd_rules d))))"

definition load_rules :: "io_oracle \<Rightarrow> 'y yaml_api \<Rightarrow> 'p cel_api \<Rightarrow> config_dir \<Rightarrow> load_error + 'p rule_set" where
  "load_rules io y api d =
     (if cd_rules d = None then Inr rule_set_default
      else case io ListRules of
             Some e \<Rightarrow> Inl (IoFailed ListRules e)
           | None \<Rightarrow>
               (case load_rule_files io y d (rule_files d) of
                  Inl e \<Rightarrow> Inl e
                | Inr cfgs \<Rightarrow>
                    (case compile_ruleset api cfgs of
                       Inl e \<Rightarrow> Inl (CompileFailed e)
                     | Inr rs \<Rightarrow> Inr rs)))"

record 'p live_config =
  lc_daemon :: daemon_config
  lc_sets :: sets_config
  lc_rules :: "'p rule_set"

definition live_load :: "io_oracle \<Rightarrow> 'y yaml_api \<Rightarrow> 'p cel_api \<Rightarrow> config_dir \<Rightarrow> (load_error + 'p live_config) \<times> config_dir" where
  "live_load io y api d =
     (case ensure_config_files io d of
        (Inl e, d) \<Rightarrow> (Inl e, d)
      | (Inr _, d) \<Rightarrow>
          (case load_daemon io y d of
             Inl e \<Rightarrow> (Inl e, d)
           | Inr daemon \<Rightarrow>
               (case load_sets io y d of
                  Inl e \<Rightarrow> (Inl e, d)
                | Inr sets \<Rightarrow>
                    (case load_rules io y api d of
                       Inl e \<Rightarrow> (Inl e, d)
                     | Inr rules \<Rightarrow> (Inr \<lparr>lc_daemon = daemon, lc_sets = sets, lc_rules = rules\<rparr>, d)))))"

text \<open>\<open>env\<close> is the process environment.\<close>

definition path_join :: "string \<Rightarrow> string \<Rightarrow> string" where
  "path_join a b = (if a = [] then b else if last a = CHR ''/'' then a @ b else a @ ''/'' @ b)"

definition resolve_config_dir :: "(string \<Rightarrow> string option) \<Rightarrow> string option \<Rightarrow> string" where
  "resolve_config_dir env override =
     (case override of
        Some p \<Rightarrow> p
      | None \<Rightarrow>
          (case env ''MICROWAF_CONFIG_DIR'' of
             Some p \<Rightarrow> p
           | None \<Rightarrow>
               let data = (case env ''BIGFRED_DATA_DIR'' of
                             Some v \<Rightarrow> v
                           | None \<Rightarrow> (case env ''DATA_DIR'' of Some v \<Rightarrow> v | None \<Rightarrow> ''/etc''))
               in if data = ''/etc'' then ''/etc/microwaf'' else path_join data ''etc/microwaf''))"

section \<open>Compiled rule sets\<close>

lemma compile_id: "compile api c = Inr r \<Longrightarrow> r_id r = cr_id c \<and> valid_rule r"
  by (auto simp: compile_def Let_def validate_ok [symmetric] split: sum.splits)

lemma compile_all_ok:
  "compile_all api cs = Inr rs \<longleftrightarrow> list_all2 (\<lambda>c r. compile api c = Inr r) cs rs"
proof (induction cs arbitrary: rs)
  case (Cons c cs)
  show ?case by (cases rs) (auto simp: Cons.IH [symmetric] split: sum.splits)
qed auto

lemma compile_all_ids:
  "list_all2 (\<lambda>c r. compile api c = Inr r) cs rs \<Longrightarrow>
     map r_id rs = map cr_id cs \<and> (\<forall>r \<in> set rs. valid_rule r) \<and> length rs = length cs"
  by (induction rule: list_all2_induct) (auto dest: compile_id)

lemma compile_ruleset_iff:
  "compile_ruleset api cs = Inr rs \<longleftrightarrow>
     length cs \<le> MAX_RULES \<and> distinct (map cr_id cs) \<and> rs_wf rs \<and>
     list_all2 (\<lambda>c r. compile api c = Inr r) cs (rs_rules rs)"
proof -
  have "compile_ruleset api cs = Inr rs \<longleftrightarrow>
      length cs \<le> MAX_RULES \<and> compile_all api cs = Inr (rs_rules rs) \<and> rs_wf rs"
  proof (cases "compile_all api cs")
    case (Inr rules)
    have "rule_set_new rules = Inr rs \<longleftrightarrow> rs = \<lparr>rs_rules = rules\<rparr> \<and> rs_wf rs"
      by (auto simp: rule_set_new_def rs_wf_def check_rules_ok split: sum.splits)
        (auto simp: check_rules_ok dest: arg_cong [where f = "\<lambda>x. x = Inr ()"])
    with Inr show ?thesis by (cases rs) (auto simp: compile_ruleset_def)
  qed (simp add: compile_ruleset_def)
  then show ?thesis
    using compile_all_ids [of api cs "rs_rules rs"] by (auto simp: compile_all_ok rs_wf_def)
qed

text \<open>
  C16: a list of configured rules compiles exactly when it has at most 256 rules, each rule
  compiles on its own and the ids differ; the rule set is then the compiled rules in the order
  of the files, and it is well-formed.
\<close>

theorem compile_ruleset_correct:
  "compile_ruleset api cs = Inr rs \<longleftrightarrow>
     length cs \<le> MAX_RULES \<and> distinct (map cr_id cs) \<and> rs_wf rs \<and>
     list_all2 (\<lambda>c r. compile api c = Inr r) cs (rs_rules rs)"
  by (rule compile_ruleset_iff)

section \<open>Seeding the directory\<close>

definition is_example :: "cfg_path \<Rightarrow> bool" where
  "is_example p = (case p of RootFile n \<Rightarrow> ends_with n ''.example'' | RulesFile n \<Rightarrow> ends_with n ''.example'')"

definition io_fine :: io_oracle where
  "io_fine op = None"

lemma file_get_put [simp]: "file_get (file_put p body d) q = (if q = p then Some body else file_get d q)"
  by (cases p; cases q) (auto simp: files_of_def hm_simps)

lemma file_get_mkdirs [simp]: "file_get (mkdirs d) q = file_get d q"
  by (cases q) (simp_all add: mkdirs_def files_of_def)

lemma file_get_mkroot [simp]: "file_get (d\<lparr>cd_root := Some (files_of (cd_root d))\<rparr>) q = file_get d q"
  by (cases q) (simp_all add: files_of_def)

declare file_get.simps [simp del] file_put.simps [simp del]

lemma is_example_example_path: "is_example (example_path p)"
  by (cases p) (simp_all add: is_example_def ends_with_def)

lemma example_path_neq [simp]: "example_path p \<noteq> p"
  by (cases p) auto

lemma file_get_write_example:
  "\<not> is_example q \<Longrightarrow> file_get (snd (write_example io p body d)) q = file_get d q"
  using is_example_example_path [of p]
  by (auto simp: write_example_def write_text_def Let_def split: option.splits)

lemma file_get_seed:
  "file_get d q = Some x \<Longrightarrow> file_get (snd (seed_if_missing io p body d)) q = Some x"
  by (auto simp: seed_if_missing_def write_text_def path_exists_def Let_def split: option.splits)

lemma file_get_seed':
  "seed_if_missing io p body d = (r, d') \<Longrightarrow> file_get d q = Some x \<Longrightarrow> file_get d' q = Some x"
  using file_get_seed [of d q x io p body] by simp

lemma ensure_keeps:
  assumes "\<not> is_example q" "file_get d q = Some x"
  shows "file_get (snd (ensure_config_files io d)) q = Some x"
proof -
  let ?d = "snd (write_example io baseline_path DEFAULT_RULES_YAML
     (snd (write_example io sets_path DEFAULT_SETS_YAML
        (snd (write_example io daemon_path DEFAULT_DAEMON_YAML (mkdirs d))))))"
  have "file_get ?d q = Some x" using assms by (simp add: file_get_write_example)
  then show ?thesis
    using assms(2)
    by (auto simp: ensure_config_files_def Let_def split: option.splits sum.splits prod.splits
        dest!: file_get_seed' [where q = q and x = x])
qed

text \<open>What the directory holds after the three examples are written without a failure.\<close>

lemma unlines_newline: "ls \<noteq> [] \<Longrightarrow> unlines ls \<noteq> [] \<and> last (unlines ls) = newline"
  by (cases ls rule: rev_cases) (simp_all add: unlines_def)

lemma default_yaml_newline:
  "DEFAULT_DAEMON_YAML \<noteq> [] \<and> last DEFAULT_DAEMON_YAML = newline"
  "DEFAULT_SETS_YAML \<noteq> [] \<and> last DEFAULT_SETS_YAML = newline"
  "DEFAULT_RULES_YAML \<noteq> [] \<and> last DEFAULT_RULES_YAML = newline"
  unfolding DEFAULT_DAEMON_YAML_def DEFAULT_SETS_YAML_def DEFAULT_RULES_YAML_def
  by (rule unlines_newline, rule list.distinct)+

lemmas fine_writes = write_example_def write_text_def seed_if_missing_def io_fine_def default_yaml_newline

definition seeded :: "config_dir \<Rightarrow> config_dir" where
  "seeded d =
     (let d = file_put (example_path daemon_path) DEFAULT_DAEMON_YAML (mkdirs d);
          d = file_put (example_path sets_path) DEFAULT_SETS_YAML d;
          d = file_put (example_path baseline_path) DEFAULT_RULES_YAML d;
          d = (if path_exists d daemon_path then d else file_put daemon_path DEFAULT_DAEMON_YAML d);
          d = (if path_exists d sets_path then d else file_put sets_path DEFAULT_SETS_YAML d)
      in if rules_dir_has_yaml io_fine d \<or> path_exists d baseline_path then d
         else file_put baseline_path DEFAULT_RULES_YAML d)"

lemma ensure_fine: "ensure_config_files io_fine d = (Inr (), seeded d)"
  by (simp add: ensure_config_files_def seeded_def fine_writes Let_def)

lemma has_yaml_iff:
  "rules_dir_has_yaml io_fine d \<longleftrightarrow> (\<exists>n. is_rules_yaml n \<and> file_get d (RulesFile n) \<noteq> None)"
  by (auto simp: rules_dir_has_yaml_def io_fine_def list_ex_iff hm_keys_dom dom_def file_get.simps)

lemma is_rules_yaml_example: "\<not> is_rules_yaml (n @ ''.example'')"
  by (simp add: is_rules_yaml_def ends_with_def)

lemma is_rules_yaml_baseline: "is_rules_yaml ''00-baseline.yaml''"
  by code_simp

lemma seeded_files:
  "file_get (seeded d) (example_path daemon_path) = Some DEFAULT_DAEMON_YAML"
  "file_get (seeded d) (example_path sets_path) = Some DEFAULT_SETS_YAML"
  "file_get (seeded d) (example_path baseline_path) = Some DEFAULT_RULES_YAML"
  "file_get d daemon_path = None \<Longrightarrow> file_get (seeded d) daemon_path = Some DEFAULT_DAEMON_YAML"
  "file_get d sets_path = None \<Longrightarrow> file_get (seeded d) sets_path = Some DEFAULT_SETS_YAML"
  by (simp_all add: seeded_def Let_def path_exists_def)

lemma seeded_baseline:
  assumes "\<not> rules_dir_has_yaml io_fine d"
  shows "file_get (seeded d) baseline_path = Some DEFAULT_RULES_YAML"
proof -
  have none: "is_rules_yaml n \<Longrightarrow> file_get d (RulesFile n) = None" for n
    using assms by (auto simp: has_yaml_iff)
  have "file_get d baseline_path = None" using none is_rules_yaml_baseline by blast
  moreover have "is_rules_yaml n \<Longrightarrow> n \<noteq> ''00-baseline.yaml.example''" for n
    using is_rules_yaml_example [of "''00-baseline.yaml''"] by auto
  ultimately show ?thesis
    using none by (auto simp: seeded_def Let_def path_exists_def has_yaml_iff)
qed

text \<open>
  Preparing the configuration directory never changes or removes a file that is not an
  example, whatever calls fail. When no call fails, the three examples hold the defaults, and
  a missing \<open>daemon.yaml\<close> or \<open>sets.yaml\<close> is created from them.
\<close>

lemma ensure_config_files_seeds:
  "(\<not> is_example q \<and> file_get d q = Some x \<longrightarrow> file_get (snd (ensure_config_files io d)) q = Some x) \<and>
   (\<exists>d'. ensure_config_files io_fine d = (Inr (), d') \<and>
      file_get d' (example_path daemon_path) = Some DEFAULT_DAEMON_YAML \<and>
      file_get d' (example_path sets_path) = Some DEFAULT_SETS_YAML \<and>
      file_get d' (example_path baseline_path) = Some DEFAULT_RULES_YAML \<and>
      (file_get d daemon_path = None \<longrightarrow> file_get d' daemon_path = Some DEFAULT_DAEMON_YAML) \<and>
      (file_get d sets_path = None \<longrightarrow> file_get d' sets_path = Some DEFAULT_SETS_YAML))"
  using ensure_keeps [of q d x io] by (auto simp: ensure_fine seeded_files simp del: example_path.simps)

lemma ensure_config_files_seeds_example:
  "file_get (snd (ensure_config_files (\<lambda>op. Some ''EROFS'')
     \<lparr>cd_root = Some [(''daemon.yaml'', ''mode: permissive'')], cd_rules = None\<rparr>)) daemon_path
   = Some ''mode: permissive''"
proof -
  have "\<not> is_example daemon_path" by (simp add: is_example_def ends_with_def)
  then show ?thesis
    using ensure_config_files_seeds [of daemon_path
        "\<lparr>cd_root = Some [(''daemon.yaml'', ''mode: permissive'')], cd_rules = None\<rparr>" "''mode: permissive''"
        "\<lambda>op. Some ''EROFS''"]
    by (simp add: file_get.simps files_of_def hm_simps)
qed

text \<open>
  A \<open>rules.d\<close> without any YAML file, also one an operator has emptied on purpose, is given
  the baseline rules again by the next load.
\<close>

lemma empty_rules_dir_reseeded:
  "\<not> rules_dir_has_yaml io_fine d \<Longrightarrow>
   file_get (snd (ensure_config_files io_fine d)) baseline_path = Some DEFAULT_RULES_YAML"
  by (simp add: ensure_fine seeded_baseline)

lemma empty_rules_dir_reseeded_example:
  "file_get (snd (ensure_config_files io_fine
     \<lparr>cd_root = Some [(''daemon.yaml'', ''mode: permissive'')], cd_rules = Some []\<rparr>)) baseline_path
   = Some DEFAULT_RULES_YAML"
  by (rule empty_rules_dir_reseeded) (simp add: rules_dir_has_yaml_def io_fine_def files_of_def hm_keys_def)

section \<open>Loading\<close>

lemma load_rules_ok:
  "load_rules io y api d = Inr rs \<Longrightarrow>
     rs_wf rs \<and> (cd_rules d \<noteq> None \<longrightarrow>
       (\<exists>cfgs. load_rule_files io y d (rule_files d) = Inr cfgs \<and> compile_ruleset api cfgs = Inr rs))"
proof -
  assume *: "load_rules io y api d = Inr rs"
  have "rs_wf rule_set_default" by (simp add: rs_wf_def rule_set_default_def)
  with * show ?thesis
    by (auto simp: load_rules_def compile_ruleset_iff split: if_splits option.splits sum.splits)
qed

lemma load_rule_files_concat:
  "load_rule_files io y d fs = Inr cfgs \<longleftrightarrow>
     (\<exists>css. list_all2 (\<lambda>f cs. \<exists>s. read_file io d (RulesFile f) = Inr s \<and> parse_rules_yaml y s = Inr cs) fs css \<and>
        cfgs = concat css)"
proof (induction fs arbitrary: cfgs)
  case (Cons f fs)
  let ?R = "\<lambda>f cs. \<exists>s. read_file io d (RulesFile f) = Inr s \<and> parse_rules_yaml y s = Inr cs"
  have "load_rule_files io y d (f # fs) = Inr cfgs \<longleftrightarrow>
      (\<exists>cs rest. ?R f cs \<and> load_rule_files io y d fs = Inr rest \<and> cfgs = cs @ rest)"
    by (auto split: sum.splits)
  also have "\<dots> \<longleftrightarrow> (\<exists>cs css. ?R f cs \<and> list_all2 ?R fs css \<and> cfgs = cs @ concat css)"
    unfolding Cons.IH by blast
  also have "\<dots> \<longleftrightarrow> (\<exists>css. list_all2 ?R (f # fs) css \<and> cfgs = concat css)"
    by (rule iffI, (elim exE conjE, rule_tac x = "cs # css" in exI, simp), auto simp: list_all2_Cons1)
  finally show ?case .
qed auto

text \<open>A directory that has its files already only gets the examples.\<close>

definition complete_dir :: "config_dir \<Rightarrow> bool" where
  "complete_dir d \<longleftrightarrow> path_exists d daemon_path \<and> path_exists d sets_path \<and> rules_dir_has_yaml io_fine d"

lemma yaml_keys_insert:
  "\<not> is_rules_yaml k \<Longrightarrow> filter is_rules_yaml (hm_keys (hm_insert k v m)) = filter is_rules_yaml (hm_keys m)"
  by (induction m) (auto simp: hm_insert_def hm_keys_def)

lemma seeded_complete:
  assumes "complete_dir d"
  shows "\<not> is_example q \<Longrightarrow> file_get (seeded d) q = file_get d q"
    and "rule_files (seeded d) = rule_files d" and "cd_rules (seeded d) \<noteq> None"
proof -
  let ?d = "file_put (example_path baseline_path) DEFAULT_RULES_YAML
     (file_put (example_path sets_path) DEFAULT_SETS_YAML
        (file_put (example_path daemon_path) DEFAULT_DAEMON_YAML (mkdirs d)))"
  have yaml: "rules_dir_has_yaml io_fine (file_put p b d') = rules_dir_has_yaml io_fine d'" if "is_example p" for p b d'
  proof -
    have "is_rules_yaml n \<Longrightarrow> p \<noteq> RulesFile n" for n
      using that by (auto simp: is_rules_yaml_def is_example_def)
    then show ?thesis by (auto simp: has_yaml_iff)
  qed
  have mk: "rules_dir_has_yaml io_fine (mkdirs d) = rules_dir_has_yaml io_fine d" by (simp add: has_yaml_iff)
  have put: "path_exists (file_put p b d') q" if "path_exists d' q" for p b d' q
    using that by (simp add: path_exists_def)
  have "path_exists ?d daemon_path" "path_exists ?d sets_path"
    using assms by (intro put, simp add: complete_dir_def path_exists_def)+
  moreover have "rules_dir_has_yaml io_fine ?d"
    using assms unfolding yaml [OF is_example_example_path] mk complete_dir_def by blast
  ultimately have d: "seeded d = ?d" by (simp only: seeded_def Let_def if_True simp_thms)
  show "file_get (seeded d) q = file_get d q" if "\<not> is_example q"
  proof -
    have "q \<noteq> example_path p" for p using that is_example_example_path by blast
    then show ?thesis unfolding d by (simp del: example_path.simps)
  qed
  show "rule_files (seeded d) = rule_files d" "cd_rules (seeded d) \<noteq> None"
    using is_rules_yaml_example [of "''00-baseline.yaml''"] unfolding d
    by (simp_all add: rule_files_def file_put.simps mkdirs_def files_of_def yaml_keys_insert)
qed

text \<open>What a complete directory says, read file by file; \<open>None\<close> when a file says nothing valid.\<close>

definition dir_says :: "'y yaml_api \<Rightarrow> 'p cel_api \<Rightarrow> config_dir \<Rightarrow> 'p live_config \<Rightarrow> bool" where
  "dir_says y api d live \<longleftrightarrow>
     (\<exists>s. file_get d daemon_path = Some s \<and> y_daemon y s = Inr (lc_daemon live)) \<and>
     (\<exists>s. file_get d sets_path = Some s \<and> y_sets y s = Inr (lc_sets live)) \<and>
     (\<exists>css. list_all2 (\<lambda>f cs. \<exists>s. file_get d (RulesFile f) = Some s \<and> parse_rules_yaml y s = Inr cs) (rule_files d) css \<and>
        compile_ruleset api (concat css) = Inr (lc_rules live))"

end
