(* ===== verification/Daemon_State.thy ===== *)
theory Daemon_State
  imports Enforcement Counter_Store Rule_Config
begin

text \<open>
  \<open>crates/microwaf/src/state.rs\<close>, the state the threads of the daemon share, and \<open>try_reload\<close> of
  \<open>config.rs\<close>. A reload that fails leaves the state alone; one that succeeds replaces the rules,
  the sets and the knobs, and nothing else.
\<close>

record 'p daemon_state =
  ds_mode :: mode
  ds_interface :: string
  ds_live :: "'p live_config"
  ds_policies :: policy_map
  ds_windows :: "(client_id, rule_windows) hmap"
  ds_counters :: counter_store
  ds_last_counters :: "(counter_key, triple) hmap"
  ds_would_be :: action_map
  ds_enforcer :: "any_enforcer option"

definition daemon_state_new :: "mode \<Rightarrow> string \<Rightarrow> 'p live_config \<Rightarrow> 'p daemon_state" where
  "daemon_state_new mode iface live =
     \<lparr>ds_mode = mode, ds_interface = iface, ds_live = live, ds_policies = [], ds_windows = [],
      ds_counters = counter_store_default, ds_last_counters = [], ds_would_be = [], ds_enforcer = None\<rparr>"

definition set_enforcer :: "any_enforcer \<Rightarrow> 'p daemon_state \<Rightarrow> 'p daemon_state" where
  "set_enforcer e st = st\<lparr>ds_enforcer := Some e\<rparr>"

definition state_apply :: "client_id \<Rightarrow> effective_action \<Rightarrow> 'p daemon_state \<Rightarrow> 'p daemon_state" where
  "state_apply c a st =
     (let st = (if ds_mode st = Permissive then st\<lparr>ds_would_be := hm_insert c a (ds_would_be st)\<rparr> else st)
      in st\<lparr>ds_enforcer := map_option (any_apply c a) (ds_enforcer st)\<rparr>)"

definition state_clear :: "client_id \<Rightarrow> 'p daemon_state \<Rightarrow> 'p daemon_state" where
  "state_clear c st =
     (let st = st\<lparr>ds_would_be := hm_remove c (ds_would_be st)\<rparr>
      in st\<lparr>ds_enforcer := map_option (any_clear c) (ds_enforcer st)\<rparr>)"

definition state_rules :: "'p daemon_state \<Rightarrow> 'p rule_set" where
  "state_rules st = lc_rules (ds_live st)"

definition state_sets :: "'p daemon_state \<Rightarrow> sets_config" where
  "state_sets st = lc_sets (ds_live st)"

definition daemon_cfg :: "'p daemon_state \<Rightarrow> daemon_config" where
  "daemon_cfg st = lc_daemon (ds_live st)"

definition allow_users :: "'p daemon_state \<Rightarrow> string list" where
  "allow_users st = dc_allow_users (daemon_cfg st)"

definition swap_live :: "'p live_config \<Rightarrow> 'p daemon_state \<Rightarrow> 'p daemon_state" where
  "swap_live live st = st\<lparr>ds_live := live\<rparr>"

definition try_reload ::
  "io_oracle \<Rightarrow> 'y yaml_api \<Rightarrow> 'p cel_api \<Rightarrow> config_dir \<Rightarrow> 'p daemon_state \<Rightarrow> 'p daemon_state \<times> config_dir" where
  "try_reload io y api d st =
     (case live_load io y api d of
        (Inr live, d') \<Rightarrow> (swap_live (live\<lparr>lc_daemon := (lc_daemon live)\<lparr>dc_mode := ds_mode st\<rparr>\<rparr>) st, d')
      | (Inl _, d') \<Rightarrow> (st, d'))"

section \<open>Invariant\<close>

definition ds_wf :: "'p daemon_state \<Rightarrow> bool" where
  "ds_wf st \<longleftrightarrow> rs_wf (state_rules st) \<and> hm_wf (ds_policies st) \<and> hm_wf (ds_windows st) \<and>
     hm_wf (ds_last_counters st) \<and> hm_wf (ds_would_be st) \<and> cs_wf (ds_counters st)"

lemma ds_wf_new: "rs_wf (lc_rules live) \<Longrightarrow> ds_wf (daemon_state_new mode iface live)"
  by (simp add: ds_wf_def daemon_state_new_def state_rules_def)

lemma live_load_rules: "live_load io y api d = (Inr live, d') \<Longrightarrow> rs_wf (lc_rules live)"
  by (auto simp: live_load_def dest: load_rules_ok split: prod.splits sum.splits)

lemma load_complete:
  assumes "complete_dir d"
  shows "fst (live_load io_fine y api d) = Inr live \<longleftrightarrow> dir_says y api d live"
    and "snd (live_load io_fine y api d) = seeded d"
proof -
  note dir = seeded_complete [OF assms]
  have ex: "\<not> is_example daemon_path" "\<not> is_example sets_path" by (simp_all add: is_example_def ends_with_def)
  have rules: "\<not> is_example (RulesFile f)" if "f \<in> set (rule_files d)" for f
    using that by (auto simp: rule_files_def is_rules_yaml_def is_example_def)
  obtain a b where ab: "file_get d daemon_path = Some a" "file_get d sets_path = Some b"
    using assms by (auto simp: complete_dir_def path_exists_def)
  let ?R = "\<lambda>d f cs. \<exists>s. file_get d (RulesFile f) = Some s \<and> parse_rules_yaml y s = Inr cs"
  have read: "read_file io_fine (seeded d) p = Inr s \<longleftrightarrow> file_get (seeded d) p = Some s" for p s
    by (simp add: read_file_def io_fine_def split: option.splits)
  have daemon: "load_daemon io_fine y (seeded d) = Inr dc \<longleftrightarrow> y_daemon y a = Inr dc" for dc
    using dir(1) [OF ex(1)] ab(1) by (auto simp: load_daemon_def path_exists_def read_file_def io_fine_def split: sum.splits)
  have sets: "load_sets io_fine y (seeded d) = Inr sc \<longleftrightarrow> y_sets y b = Inr sc" for sc
    using dir(1) [OF ex(2)] ab(2) by (auto simp: load_sets_def path_exists_def read_file_def io_fine_def split: sum.splits)
  have same: "list_all2 (?R (seeded d)) (rule_files d) css \<longleftrightarrow> list_all2 (?R d) (rule_files d) css" for css
    using dir(1) [OF rules] by (simp add: list_all2_conv_all_nth cong: conj_cong)
  have rules: "load_rules io_fine y api (seeded d) = Inr rs \<longleftrightarrow>
      (\<exists>css. list_all2 (?R d) (rule_files d) css \<and> compile_ruleset api (concat css) = Inr rs)" for rs
  proof -
    have "load_rules io_fine y api (seeded d) = Inr rs \<longleftrightarrow>
        (\<exists>cfgs. load_rule_files io_fine y (seeded d) (rule_files d) = Inr cfgs \<and> compile_ruleset api cfgs = Inr rs)"
      using dir(3) by (auto simp: load_rules_def io_fine_def dir(2) split: sum.splits)
    then show ?thesis unfolding load_rule_files_concat read same by blast
  qed
  have "fst (live_load io_fine y api d) = Inr live \<longleftrightarrow>
      load_daemon io_fine y (seeded d) = Inr (lc_daemon live) \<and> load_sets io_fine y (seeded d) = Inr (lc_sets live) \<and>
      load_rules io_fine y api (seeded d) = Inr (lc_rules live)"
    by (cases live) (auto simp: live_load_def ensure_fine split: sum.splits)
  then show "fst (live_load io_fine y api d) = Inr live \<longleftrightarrow> dir_says y api d live"
    unfolding daemon sets rules dir_says_def ab by simp
  show "snd (live_load io_fine y api d) = seeded d"
    by (simp add: live_load_def ensure_fine split: sum.splits)
qed


text \<open>A directory with one rule, and the same once \<open>sets.yaml\<close> is broken.\<close>

definition reload_rule :: config_rule where
  "reload_rule = \<lparr>cr_id = ''u'', cr_protocol = ''udp'', cr_ports = None, cr_metric = ''bytes'',
     cr_window = ''per-second'', cr_limit = 10, cr_action = CfgBlock, cr_min_threshold = 0, cr_match = None\<rparr>"

definition reload_yaml :: "unit yaml_api" where
  "reload_yaml =
     \<lparr>y_from_str = (\<lambda>_. Inr ()), y_is_sequence = (\<lambda>_. True), y_is_mapping = (\<lambda>_. False),
      y_rule_list = (\<lambda>_. Inr [reload_rule]), y_rule = (\<lambda>_. Inl ''no mapping''), y_daemon = (\<lambda>_. Inr (daemon_config_default\<lparr>dc_cooldown_secs := 5\<rparr>)),
      y_sets = (\<lambda>t. if t = ''['' then Inl ''unexpected end'' else Inr sets_config_default)\<rparr>"

definition reload_cel :: "unit cel_api" where
  "reload_cel = \<lparr>cel_compile = (\<lambda>_. Inr ()), cel_execute = (\<lambda>_ _. Inl ''no CEL'')\<rparr>"

definition reload_dir :: "string \<Rightarrow> config_dir" where
  "reload_dir sets = \<lparr>cd_root = Some [(''daemon.yaml'', ''d''), (''sets.yaml'', sets)], cd_rules = Some [(''u.yaml'', ''u'')]\<rparr>"

lemma reload_dir_facts:
  "complete_dir (reload_dir t)" "rule_files (reload_dir t) = [''u.yaml'']" "file_get (reload_dir t) daemon_path = Some ''d''"
  "file_get (reload_dir t) sets_path = Some t" "file_get (reload_dir t) (RulesFile ''u.yaml'') = Some ''u''"
proof -
  have yaml: "is_rules_yaml ''u.yaml''" by code_simp
  show files: "file_get (reload_dir t) daemon_path = Some ''d''" "file_get (reload_dir t) sets_path = Some t"
    "file_get (reload_dir t) (RulesFile ''u.yaml'') = Some ''u''"
    by (simp_all add: reload_dir_def file_get.simps files_of_def hm_simps)
  show "complete_dir (reload_dir t)" using yaml files by (auto simp: complete_dir_def path_exists_def has_yaml_iff)
  show "rule_files (reload_dir t) = [''u.yaml'']"
    using yaml by (simp add: rule_files_def reload_dir_def files_of_def hm_keys_def)
qed

lemma reload_compiles:
  "\<exists>rs. compile_ruleset reload_cel [reload_rule] = Inr rs \<and> map r_id (rs_rules rs) = [''u'']"
proof -
  have "(case compile_ruleset reload_cel [reload_rule] of
      Inr rs \<Rightarrow> map r_id (rs_rules rs) = [''u''] | Inl _ \<Rightarrow> False)"
    by code_simp
  then show ?thesis by (auto split: sum.splits)
qed

definition reload_start :: "unit daemon_state" where
  "reload_start = daemon_state_new Permissive ''any''
     \<lparr>lc_daemon = daemon_config_default, lc_sets = sets_config_default, lc_rules = rule_set_default\<rparr>"


section \<open>Applying and clearing\<close>

definition state_in_force :: "'p daemon_state \<Rightarrow> client_id \<Rightarrow> effective_action" where
  "state_in_force st c = (case ds_enforcer st of Some e \<Rightarrow> any_in_force e c | None \<Rightarrow> EffNone)"

definition state_enforces :: "'p daemon_state \<Rightarrow> client_id \<Rightarrow> bool" where
  "state_enforces st c = (case ds_enforcer st of Some e \<Rightarrow> any_supported e c | None \<Rightarrow> False)"

lemma state_apply_simps [simp]:
  "ds_mode (state_apply c a st) = ds_mode st"
  "ds_live (state_apply c a st) = ds_live st"
  "ds_policies (state_apply c a st) = ds_policies st"
  "ds_windows (state_apply c a st) = ds_windows st"
  "ds_counters (state_apply c a st) = ds_counters st"
  "ds_last_counters (state_apply c a st) = ds_last_counters st"
  "ds_interface (state_apply c a st) = ds_interface st"
  by (simp_all add: state_apply_def Let_def)

lemma state_clear_simps [simp]:
  "ds_mode (state_clear c st) = ds_mode st"
  "ds_live (state_clear c st) = ds_live st"
  "ds_policies (state_clear c st) = ds_policies st"
  "ds_windows (state_clear c st) = ds_windows st"
  "ds_counters (state_clear c st) = ds_counters st"
  "ds_last_counters (state_clear c st) = ds_last_counters st"
  "ds_interface (state_clear c st) = ds_interface st"
  by (simp_all add: state_clear_def Let_def)

lemma would_be_apply:
  "hm_get (ds_would_be (state_apply c a st)) c' =
     (if c' = c \<and> ds_mode st = Permissive then Some a else hm_get (ds_would_be st) c')"
  by (simp add: state_apply_def Let_def hm_simps)

lemma would_be_clear:
  "hm_get (ds_would_be (state_clear c st)) c' = (if c' = c then None else hm_get (ds_would_be st) c')"
  by (simp add: state_clear_def Let_def hm_simps)

lemma state_enforces_stable [simp]:
  "state_enforces (state_apply c a st) = state_enforces st"
  "state_enforces (state_clear c st) = state_enforces st"
  by (cases "ds_enforcer st"; simp add: fun_eq_iff state_enforces_def state_apply_def state_clear_def Let_def any.supported_stable)+

lemma in_force_apply:
  "state_in_force (state_apply c a st) c' =
     (if c' = c \<and> state_enforces st c then a else state_in_force st c')"
  by (cases "ds_enforcer st")
    (auto simp: state_in_force_def state_enforces_def state_apply_def Let_def any.force_apply any.in_force_other any.force_skip)

lemma in_force_clear:
  "state_in_force (state_clear c st) c' =
     (if c' = c \<and> state_enforces st c then EffNone else state_in_force st c')"
  by (cases "ds_enforcer st")
    (auto simp: state_in_force_def state_enforces_def state_clear_def Let_def any.force_clear any.in_force_other any.force_skip)

lemma ds_wf_apply [simp]: "ds_wf st \<Longrightarrow> ds_wf (state_apply c a st)"
  by (simp add: ds_wf_def state_rules_def) (simp add: state_apply_def Let_def)

lemma ds_wf_clear [simp]: "ds_wf st \<Longrightarrow> ds_wf (state_clear c st)"
  by (simp add: ds_wf_def state_rules_def) (simp add: state_clear_def Let_def)

end
