(* ===== verification/Json_Serde.thy ===== *)
theory Json_Serde
  imports MW_Prelude
begin

text \<open>
  JSON values and the shape of the code that \<open>#[derive(Serialize, Deserialize)]\<close> generates: a
  struct is read from an object (unknown keys ignored, a known key twice refused) or from an
  array by position, an absent field is an error unless it has a default, and an optional field
  may be null. The text syntax of JSON is the library's and not modelled. Decoding errors carry
  no message here.
\<close>

section \<open>Values\<close>

datatype json =
    JNull
  | JBool bool
  | JNum int
  | JFloat string
  | JStr string
  | JArr "json list"
  | JObj "(string \<times> json) list"

definition field_vals :: "(string \<times> json) list \<Rightarrow> string \<Rightarrow> json list" where
  "field_vals kvs n = map snd (filter (\<lambda>(k, v). k = n) kvs)"

text \<open>
  The raw fields of a struct, by the list of its field names, each with whether the field has a
  default when an array is too short.
\<close>

definition pad_fields :: "(string \<times> bool) list \<Rightarrow> json list \<Rightarrow> json option list option" where
  "pad_fields spec xs =
     (if length xs > length spec \<or> list_ex (\<lambda>(n, d). \<not> d) (drop (length xs) spec) then None
      else Some (map Some xs @ replicate (length spec - length xs) None))"

definition struct_fields :: "(string \<times> bool) list \<Rightarrow> json \<Rightarrow> json option list option" where
  "struct_fields spec j =
     (case j of
        JObj kvs \<Rightarrow>
          if list_ex (\<lambda>(n, d). length (field_vals kvs n) > 1) spec then None
          else Some (map (\<lambda>(n, d). case field_vals kvs n of [] \<Rightarrow> None | v # _ \<Rightarrow> Some v) spec)
      | JArr xs \<Rightarrow> pad_fields spec xs
      | _ \<Rightarrow> None)"

section \<open>Field decoders\<close>

definition req_field :: "(json \<Rightarrow> 'a option) \<Rightarrow> json option \<Rightarrow> 'a option" where
  "req_field dec f = (case f of Some j \<Rightarrow> dec j | None \<Rightarrow> None)"

definition dec_option :: "(json \<Rightarrow> 'a option) \<Rightarrow> json \<Rightarrow> 'a option option" where
  "dec_option dec j = (if j = JNull then Some None else map_option Some (dec j))"

definition opt_field :: "(json \<Rightarrow> 'a option) \<Rightarrow> json option \<Rightarrow> 'a option option" where
  "opt_field dec f = (case f of Some j \<Rightarrow> dec_option dec j | None \<Rightarrow> Some None)"

definition def_field :: "'a \<Rightarrow> (json \<Rightarrow> 'a option) \<Rightarrow> json option \<Rightarrow> 'a option" where
  "def_field d dec f = (case f of Some j \<Rightarrow> dec j | None \<Rightarrow> Some d)"

definition dec_uint :: "json \<Rightarrow> 'w::len word option" where
  "dec_uint j =
     (case j of JNum n \<Rightarrow> if 0 \<le> n \<and> n < 2 ^ LENGTH('w) then Some (of_int n) else None | _ \<Rightarrow> None)"

definition dec_string :: "json \<Rightarrow> string option" where
  "dec_string j = (case j of JStr s \<Rightarrow> Some s | _ \<Rightarrow> None)"

definition dec_bool :: "json \<Rightarrow> bool option" where
  "dec_bool j = (case j of JBool b \<Rightarrow> Some b | _ \<Rightarrow> None)"

fun traverse :: "('a \<Rightarrow> 'b option) \<Rightarrow> 'a list \<Rightarrow> 'b list option" where
  "traverse f [] = Some []"
| "traverse f (x # xs) =
     (case f x of None \<Rightarrow> None | Some y \<Rightarrow> map_option (\<lambda>ys. y # ys) (traverse f xs))"

definition dec_list :: "(json \<Rightarrow> 'a option) \<Rightarrow> json \<Rightarrow> 'a list option" where
  "dec_list dec j = (case j of JArr xs \<Rightarrow> traverse dec xs | _ \<Rightarrow> None)"

section \<open>Field encoders\<close>

definition enc_uint :: "'w::len word \<Rightarrow> json" where
  "enc_uint w = JNum (uint w)"

definition skip_none :: "string \<Rightarrow> ('a \<Rightarrow> json) \<Rightarrow> 'a option \<Rightarrow> (string \<times> json) list" where
  "skip_none n enc x = (case x of None \<Rightarrow> [] | Some v \<Rightarrow> [(n, enc v)])"

definition skip_empty :: "string \<Rightarrow> ('a list \<Rightarrow> json) \<Rightarrow> 'a list \<Rightarrow> (string \<times> json) list" where
  "skip_empty n enc xs = (if xs = [] then [] else [(n, enc xs)])"

definition skip_false :: "string \<Rightarrow> bool \<Rightarrow> (string \<times> json) list" where
  "skip_false n b = (if b then [(n, JBool True)] else [])"

definition enc_list :: "('a \<Rightarrow> json) \<Rightarrow> 'a list \<Rightarrow> json" where
  "enc_list enc xs = JArr (map enc xs)"

section \<open>Round trips\<close>

named_theorems serde

lemma field_vals_simps [serde]:
  "field_vals [] n = []"
  "field_vals ((k, v) # kvs) n = (if k = n then v # field_vals kvs n else field_vals kvs n)"
  "field_vals (xs @ ys) n = field_vals xs n @ field_vals ys n"
  by (simp_all add: field_vals_def)

lemma field_vals_skip [serde]:
  "field_vals (skip_none k enc x) n = (if k = n then (case x of None \<Rightarrow> [] | Some v \<Rightarrow> [enc v]) else [])"
  "field_vals (skip_empty k encl xs) n = (if k = n \<and> xs \<noteq> [] then [encl xs] else [])"
  "field_vals (skip_false k b) n = (if k = n \<and> b then [JBool True] else [])"
  by (auto simp: field_vals_def skip_none_def skip_empty_def skip_false_def split: option.splits)

lemma dec_enc_uint [serde]: "dec_uint (enc_uint w) = Some w"
  by (simp add: dec_uint_def enc_uint_def)

lemma enc_uint_not_null [serde]: "enc_uint w \<noteq> JNull"
  by (simp add: enc_uint_def)

lemma dec_string_JStr [serde]: "dec_string (JStr s) = Some s"
  by (simp add: dec_string_def)

lemma dec_bool_JBool [serde]: "dec_bool (JBool b) = Some b"
  by (simp add: dec_bool_def)

lemma traverse_map: "(\<And>x. x \<in> set xs \<Longrightarrow> dec (enc x) = Some x) \<Longrightarrow> traverse dec (map enc xs) = Some xs"
  by (induction xs) auto

lemma dec_enc_list: "(\<And>x. dec (enc x) = Some x) \<Longrightarrow> dec_list dec (enc_list enc xs) = Some xs"
  by (simp add: dec_list_def enc_list_def traverse_map)

lemma req_field_Some [serde]: "req_field dec (Some j) = dec j" "req_field dec None = None"
  by (simp_all add: req_field_def)

lemma opt_field_skip [serde]:
  "(\<And>v. dec (enc v) = Some v) \<Longrightarrow> (\<And>v. enc v \<noteq> JNull) \<Longrightarrow>
     opt_field dec (case (case x of None \<Rightarrow> [] | Some v \<Rightarrow> [enc v]) of [] \<Rightarrow> None | v # _ \<Rightarrow> Some v) = Some x"
  by (cases x) (simp_all add: opt_field_def dec_option_def)

lemma def_field_skip [serde]:
  "(\<And>v. dec (enc v) = Some v) \<Longrightarrow>
     def_field [] dec (case (if xs \<noteq> [] then [enc xs] else []) of [] \<Rightarrow> None | v # _ \<Rightarrow> Some v) = Some xs"
  by (cases xs) (simp_all add: def_field_def)

lemma def_field_Some [serde]: "def_field d dec (Some j) = dec j" "def_field d dec None = Some d"
  by (simp_all add: def_field_def)

end
