(* ===== verification/Persistence.thy ===== *)
theory Persistence
  imports Daemon_State Json_Serde "HOL-Library.Countable"
begin

text \<open>
  Persistence: the store traits of \<open>crates/mw-core/src/store.rs\<close>, the stores of
  \<open>crates/mw-store/src\<close> and their wiring in \<open>crates/microwaf/src/store.rs\<close>. The locale
  \<open>policy_store\<close> is the contract of \<open>ManualPolicyStore\<close>: a map from clients to stored policies.
  The in-memory store satisfies it; the Redis store does for every server with the documented
  behaviour of the five commands the code uses. The Redis client and the text form of JSON are
  parameters.
\<close>

section \<open>Stored data\<close>

record rule_window_snapshot =
  ws_rule_id :: rule_id
  ws_metric :: metric
  ws_buckets :: "u64 list"
  ws_cursor :: u64
  ws_last_advance_unix_secs :: u64

record stored_client_stats =
  st_cumulative :: cumulative_counters
  st_windows :: "rule_window_snapshot list"
  st_updated_unix_secs :: u64

text \<open>\<open>StoreError::Backend\<close> with the error whose text it carries.\<close>

datatype backend_cause = RedisError string | JsonError string | BadKey string | BadClient client_ref_parse_error
datatype store_error = Backend backend_cause

definition show_store_error :: "store_error \<Rightarrow> string" where
  "show_store_error e =
     (case e of Backend cause \<Rightarrow> ''store error: '' @
        (case cause of
           RedisError t \<Rightarrow> t
         | JsonError t \<Rightarrow> t
         | BadKey k \<Rightarrow> ''bad key '' @ k
         | BadClient c \<Rightarrow> show_parse_error c))"

definition enc_stored_policy :: "stored_manual_policy \<Rightarrow> json" where
  "enc_stored_policy p =
     JObj (skip_none ''throttle'' enc_uint (sp_throttle p) @ [(''blocked'', JBool (sp_blocked p))] @
       skip_none ''untilUnixSecs'' enc_uint (sp_until_unix_secs p))"

definition dec_stored_policy :: "json \<Rightarrow> stored_manual_policy option" where
  "dec_stored_policy j =
     (case struct_fields [(''throttle'', True), (''blocked'', True), (''untilUnixSecs'', True)] j of
        Some [t, b, u] \<Rightarrow> do {
          throttle \<leftarrow> opt_field dec_uint t;
          blocked \<leftarrow> def_field False dec_bool b;
          until \<leftarrow> opt_field dec_uint u;
          Some \<lparr>sp_throttle = throttle, sp_blocked = blocked, sp_until_unix_secs = until\<rparr>}
      | _ \<Rightarrow> None)"

lemma dec_enc_stored_policy [serde]: "dec_stored_policy (enc_stored_policy p) = Some p"
  by (cases p) (auto simp: dec_stored_policy_def enc_stored_policy_def struct_fields_def serde split: option.splits)

definition enc_cumulative :: "cumulative_counters \<Rightarrow> json" where
  "enc_cumulative c =
     JObj [(''requests'', enc_uint (cc_requests c)), (''bytes'', enc_uint (cc_bytes c)),
           (''connections'', enc_uint (cc_connections c)), (''wsConnections'', enc_uint (cc_ws_connections c))]"

definition enc_window_snapshot :: "rule_window_snapshot \<Rightarrow> json" where
  "enc_window_snapshot w =
     JObj [(''ruleId'', JStr (ws_rule_id w)), (''metric'', JStr (metric_as_str (ws_metric w))),
           (''buckets'', enc_list enc_uint (ws_buckets w)), (''cursor'', enc_uint (ws_cursor w)),
           (''lastAdvanceUnixSecs'', enc_uint (ws_last_advance_unix_secs w))]"

definition enc_stored_stats :: "stored_client_stats \<Rightarrow> json" where
  "enc_stored_stats s =
     JObj [(''cumulative'', enc_cumulative (st_cumulative s)),
           (''windows'', enc_list enc_window_snapshot (st_windows s)),
           (''updatedUnixSecs'', enc_uint (st_updated_unix_secs s))]"

definition dec_cumulative :: "json \<Rightarrow> cumulative_counters option" where
  "dec_cumulative j =
     (case struct_fields [(''requests'', False), (''bytes'', False), (''connections'', False), (''wsConnections'', False)] j of
        Some [r, b, c, w] \<Rightarrow> do {
          requests \<leftarrow> req_field dec_uint r;
          bytes \<leftarrow> req_field dec_uint b;
          connections \<leftarrow> req_field dec_uint c;
          ws \<leftarrow> req_field dec_uint w;
          Some \<lparr>cc_requests = requests, cc_bytes = bytes, cc_connections = connections, cc_ws_connections = ws\<rparr>}
      | _ \<Rightarrow> None)"

definition dec_metric :: "json \<Rightarrow> metric option" where
  "dec_metric j =
     (case j of
        JStr t \<Rightarrow> List.find (\<lambda>m. metric_as_str m = t) [Requests, Bytes, Connections]
      | JObj [(t, JNull)] \<Rightarrow> List.find (\<lambda>m. metric_as_str m = t) [Requests, Bytes, Connections]
      | _ \<Rightarrow> None)"

definition dec_window_snapshot :: "json \<Rightarrow> rule_window_snapshot option" where
  "dec_window_snapshot j =
     (case struct_fields [(''ruleId'', False), (''metric'', False), (''buckets'', False), (''cursor'', False),
        (''lastAdvanceUnixSecs'', False)] j of
        Some [r, m, b, c, l] \<Rightarrow> do {
          rule \<leftarrow> req_field dec_string r;
          metric \<leftarrow> req_field dec_metric m;
          buckets \<leftarrow> req_field (dec_list dec_uint) b;
          cursor \<leftarrow> req_field dec_uint c;
          last \<leftarrow> req_field dec_uint l;
          Some \<lparr>ws_rule_id = rule, ws_metric = metric, ws_buckets = buckets, ws_cursor = cursor,
            ws_last_advance_unix_secs = last\<rparr>}
      | _ \<Rightarrow> None)"

definition dec_stored_stats :: "json \<Rightarrow> stored_client_stats option" where
  "dec_stored_stats j =
     (case struct_fields [(''cumulative'', False), (''windows'', True), (''updatedUnixSecs'', False)] j of
        Some [c, w, u] \<Rightarrow> do {
          cumulative \<leftarrow> req_field dec_cumulative c;
          windows \<leftarrow> def_field [] (dec_list dec_window_snapshot) w;
          updated \<leftarrow> req_field dec_uint u;
          Some \<lparr>st_cumulative = cumulative, st_windows = windows, st_updated_unix_secs = updated\<rparr>}
      | _ \<Rightarrow> None)"

lemma dec_enc_cumulative [serde]: "dec_cumulative (enc_cumulative c) = Some c"
  by (cases c) (simp add: dec_cumulative_def enc_cumulative_def struct_fields_def serde)

lemma dec_enc_metric [serde]: "dec_metric (JStr (metric_as_str m)) = Some m"
  by (cases m) (simp_all add: dec_metric_def)

lemma dec_enc_window_snapshot [serde]: "dec_window_snapshot (enc_window_snapshot w) = Some w"
  by (cases w) (simp add: dec_window_snapshot_def enc_window_snapshot_def struct_fields_def serde dec_enc_list)

lemma dec_enc_stored_stats [serde]: "dec_stored_stats (enc_stored_stats s) = Some s"
  by (cases s) (simp add: dec_stored_stats_def enc_stored_stats_def struct_fields_def serde dec_enc_list)

section \<open>The contract of a policy store\<close>

definition load_correct :: "(store_error + (client_id \<times> stored_manual_policy) list) \<Rightarrow> (client_id \<rightharpoonup> stored_manual_policy) \<Rightarrow> bool" where
  "load_correct r m = (\<exists>xs. r = Inr xs \<and> distinct (map fst xs) \<and> map_of xs = m)"

locale policy_store =
  fixes load_all :: "'s \<Rightarrow> store_error + (client_id \<times> stored_manual_policy) list"
    and put :: "client_id \<Rightarrow> stored_manual_policy \<Rightarrow> 's \<Rightarrow> (store_error + unit) \<times> 's"
    and remove :: "client_id \<Rightarrow> 's \<Rightarrow> (store_error + unit) \<times> 's"
    and good :: "'s \<Rightarrow> bool"
    and contents :: "'s \<Rightarrow> client_id \<rightharpoonup> stored_manual_policy"
  assumes put_good: "good s \<Longrightarrow> good (snd (put c p s))"
    and remove_good: "good s \<Longrightarrow> good (snd (remove c s))"
    and put_contents: "good s \<Longrightarrow> fst (put c p s) = Inr () \<Longrightarrow> contents (snd (put c p s)) = (contents s)(c \<mapsto> p)"
    and remove_contents: "good s \<Longrightarrow> fst (remove c s) = Inr () \<Longrightarrow> contents (snd (remove c s)) = (contents s)(c := None)"
    and put_failed: "good s \<Longrightarrow> fst (put c p s) \<noteq> Inr () \<Longrightarrow>
      contents (snd (put c p s)) = contents s \<or> contents (snd (put c p s)) = (contents s)(c \<mapsto> p)"
    and remove_failed: "good s \<Longrightarrow> fst (remove c s) \<noteq> Inr () \<Longrightarrow>
      contents (snd (remove c s)) = contents s \<or> contents (snd (remove c s)) = (contents s)(c := None)"
    and load_contents: "good s \<Longrightarrow> load_all s = Inr xs \<Longrightarrow> load_correct (load_all s) (contents s)"
begin

text \<open>\<open>persist_manual\<close>: \<open>None\<close> removes.\<close>

definition persist :: "client_id \<Rightarrow> stored_manual_policy option \<Rightarrow> 's \<Rightarrow> (store_error + unit) \<times> 's" where
  "persist c p s = (case p of Some q \<Rightarrow> put c q s | None \<Rightarrow> remove c s)"

lemma persist_contents:
  "good s \<Longrightarrow> contents (snd (persist c p s)) = (contents s)(c := p) \<or>
     fst (persist c p s) \<noteq> Inr () \<and> contents (snd (persist c p s)) = contents s"
  using put_contents [of s c] put_failed [of s c] remove_contents [of s c] remove_failed [of s c]
  by (cases p) (auto simp: persist_def)

lemma persist_good: "good s \<Longrightarrow> good (snd (persist c p s))"
  by (cases p) (simp_all add: persist_def put_good remove_good)

text \<open>
  A sequence of writes next to the maps it can leave: a successful write changes its client's entry, after a
  failed one the entry may be the new or the old one.
\<close>

fun tracked ::
  "(client_id \<times> stored_manual_policy option) list \<Rightarrow> 's \<Rightarrow> (client_id \<rightharpoonup> stored_manual_policy) set \<Rightarrow>
   's \<times> (client_id \<rightharpoonup> stored_manual_policy) set" where
  "tracked [] s ms = (s, ms)"
| "tracked ((c, p) # ws) s ms =
     tracked ws (snd (persist c p s))
       ((\<lambda>m. m(c := p)) ` ms \<union> (if fst (persist c p s) = Inr () then {} else ms))"

lemma tracked_contents:
  "good s \<Longrightarrow> contents s \<in> ms \<Longrightarrow> good (fst (tracked ws s ms)) \<and>
     contents (fst (tracked ws s ms)) \<in> snd (tracked ws s ms)"
proof (induction ws arbitrary: s ms)
  case (Cons w ws)
  obtain c p where w: "w = (c, p)" by (cases w)
  have "contents (snd (persist c p s)) \<in> (\<lambda>m. m(c := p)) ` ms \<union> (if fst (persist c p s) = Inr () then {} else ms)"
    using persist_contents [OF Cons.prems(1), of c p] Cons.prems(2) by auto
  with Cons.IH [OF persist_good [OF Cons.prems(1), of c p]] show ?case by (simp add: w)
qed simp

lemma load_after_writes:
  "good s \<Longrightarrow> load_all (fst (tracked ws s {contents s})) = Inr xs \<Longrightarrow> map_of xs \<in> snd (tracked ws s {contents s})"
  using tracked_contents [of s "{contents s}" ws] load_contents [of "fst (tracked ws s {contents s})" xs]
  by (auto simp: load_correct_def)

end

section \<open>The in-memory store\<close>

record memory_store =
  ms_policies :: "(string, stored_manual_policy) hmap"
  ms_stats :: "(string, stored_client_stats) hmap"

definition memory_store_default :: memory_store where
  "memory_store_default = \<lparr>ms_policies = [], ms_stats = []\<rparr>"

text \<open>The loop of both \<open>load_all\<close>: parse each key, stop at the first that is no client.\<close>

fun parse_entries :: "(string \<times> 'v) list \<Rightarrow> store_error + (client_id \<times> 'v) list" where
  "parse_entries [] = Inr []"
| "parse_entries ((k, v) # rest) =
     (case parse_client k of
        Inl e \<Rightarrow> Inl (Backend (BadClient e))
      | Inr c \<Rightarrow> (case parse_entries rest of Inl e \<Rightarrow> Inl e | Inr xs \<Rightarrow> Inr ((c, v) # xs)))"

definition memory_load_policies :: "memory_store \<Rightarrow> store_error + (client_id \<times> stored_manual_policy) list" where
  "memory_load_policies s = parse_entries (ms_policies s)"

definition memory_put :: "client_id \<Rightarrow> stored_manual_policy \<Rightarrow> memory_store \<Rightarrow> (store_error + unit) \<times> memory_store" where
  "memory_put c p s = (Inr (), s\<lparr>ms_policies := hm_insert (storage_key c) p (ms_policies s)\<rparr>)"

definition memory_remove :: "client_id \<Rightarrow> memory_store \<Rightarrow> (store_error + unit) \<times> memory_store" where
  "memory_remove c s = (Inr (), s\<lparr>ms_policies := hm_remove (storage_key c) (ms_policies s)\<rparr>)"

definition memory_load_stats :: "memory_store \<Rightarrow> store_error + (client_id \<times> stored_client_stats) list" where
  "memory_load_stats s = parse_entries (ms_stats s)"

definition memory_put_batch :: "(client_id \<times> stored_client_stats) list \<Rightarrow> memory_store \<Rightarrow> (store_error + unit) \<times> memory_store" where
  "memory_put_batch stats s =
     (Inr (), s\<lparr>ms_stats := fold (\<lambda>(c, v) m. hm_insert (storage_key c) v m) stats (ms_stats s)\<rparr>)"

section \<open>The Redis store\<close>

text \<open>The commands of the Redis client that the code uses, on a server state \<open>'r\<close>.\<close>

record 'r redis_api =
  rd_get :: "string \<Rightarrow> 'r \<Rightarrow> string + string option"
  rd_set :: "string \<Rightarrow> string \<Rightarrow> 'r \<Rightarrow> (string + unit) \<times> 'r"
  rd_set_ex :: "string \<Rightarrow> string \<Rightarrow> u64 \<Rightarrow> 'r \<Rightarrow> (string + unit) \<times> 'r"
  rd_del :: "string list \<Rightarrow> 'r \<Rightarrow> (string + unit) \<times> 'r"
  rd_keys :: "string \<Rightarrow> 'r \<Rightarrow> string + string list"

record json_api =
  js_print :: "json \<Rightarrow> string"
  js_parse :: "string \<Rightarrow> json option"
  js_error :: string

definition SCHEMA_VERSION :: nat where "SCHEMA_VERSION = 1"
definition KEY_SCHEMA :: string where "KEY_SCHEMA = ''microwaf:schema_version''"
definition PREFIX_POLICY :: string where "PREFIX_POLICY = ''microwaf:policy:manual:''"
definition PREFIX_STATS :: string where "PREFIX_STATS = ''microwaf:stats:''"

definition redis_err :: "(string + 'a) \<times> 'r \<Rightarrow> (store_error + 'a) \<times> 'r" where
  "redis_err r = (case r of (Inl e, s) \<Rightarrow> (Inl (Backend (RedisError e)), s) | (Inr x, s) \<Rightarrow> (Inr x, s))"

definition ensure_schema :: "'r redis_api \<Rightarrow> 'r \<Rightarrow> (store_error + unit) \<times> 'r" where
  "ensure_schema api s =
     (case rd_get api KEY_SCHEMA s of
        Inl e \<Rightarrow> (Inl (Backend (RedisError e)), s)
      | Inr None \<Rightarrow> redis_err (rd_set api KEY_SCHEMA (fmt_dec SCHEMA_VERSION) s)
      | Inr (Some v) \<Rightarrow>
          let parsed = (case from_str_radix 10 (2 ^ 32 - 1) v of Some n \<Rightarrow> n | None \<Rightarrow> 0)
          in if parsed \<noteq> SCHEMA_VERSION then
               (case rd_keys api ''microwaf:*'' s of
                  Inl e \<Rightarrow> (Inl (Backend (RedisError e)), s)
                | Inr ks \<Rightarrow>
                    (case (if ks \<noteq> [] then rd_del api ks s else (Inr (), s)) of
                       (Inl e, s) \<Rightarrow> (Inl (Backend (RedisError e)), s)
                     | (Inr _, s) \<Rightarrow> redis_err (rd_set api KEY_SCHEMA (fmt_dec SCHEMA_VERSION) s)))
             else (Inr (), s))"

text \<open>\<open>RedisStore::connect\<close>: \<open>dial\<close> opens the client and its connection.\<close>

definition redis_connect :: "(string \<Rightarrow> string + 'r) \<Rightarrow> 'r redis_api \<Rightarrow> string \<Rightarrow> store_error + 'r" where
  "redis_connect dial api url =
     (case dial url of
        Inl e \<Rightarrow> Inl (Backend (RedisError e))
      | Inr conn \<Rightarrow> (case ensure_schema api conn of (Inl e, conn) \<Rightarrow> Inl e | (Inr _, conn) \<Rightarrow> Inr conn))"

definition policy_key :: "client_id \<Rightarrow> string" where
  "policy_key c = PREFIX_POLICY @ storage_key c"

definition stats_key :: "client_id \<Rightarrow> string" where
  "stats_key c = PREFIX_STATS @ storage_key c"

definition strip_prefix :: "string \<Rightarrow> string \<Rightarrow> string option" where
  "strip_prefix pre s = (if take (length pre) s = pre then Some (drop (length pre) s) else None)"

definition parse_client_from_key :: "string \<Rightarrow> string \<Rightarrow> store_error + client_id" where
  "parse_client_from_key key pre =
     (case strip_prefix pre key of
        None \<Rightarrow> Inl (Backend (BadKey key))
      | Some rest \<Rightarrow> (case parse_client rest of Inl e \<Rightarrow> Inl (Backend (BadClient e)) | Inr c \<Rightarrow> Inr c))"

text \<open>The loop of \<open>load_all\<close>; a key that is gone by the time of its \<open>GET\<close> is a type error.\<close>

fun redis_load_keys ::
  "'r redis_api \<Rightarrow> json_api \<Rightarrow> (json \<Rightarrow> 'v option) \<Rightarrow> string \<Rightarrow> string list \<Rightarrow> 'r \<Rightarrow> store_error + (client_id \<times> 'v) list" where
  "redis_load_keys api js dec pre [] s = Inr []"
| "redis_load_keys api js dec pre (k # ks) s =
     (case rd_get api k s of
        Inl e \<Rightarrow> Inl (Backend (RedisError e))
      | Inr None \<Rightarrow> Inl (Backend (RedisError ''nil''))
      | Inr (Some raw) \<Rightarrow>
          (case Option.bind (js_parse js raw) dec of
             None \<Rightarrow> Inl (Backend (JsonError (js_error js)))
           | Some v \<Rightarrow>
               (case parse_client_from_key k pre of
                  Inl e \<Rightarrow> Inl e
                | Inr c \<Rightarrow>
                    (case redis_load_keys api js dec pre ks s of Inl e \<Rightarrow> Inl e | Inr xs \<Rightarrow> Inr ((c, v) # xs)))))"

definition redis_load_policies ::
  "'r redis_api \<Rightarrow> json_api \<Rightarrow> 'r \<Rightarrow> store_error + (client_id \<times> stored_manual_policy) list" where
  "redis_load_policies api js s =
     (case rd_keys api (PREFIX_POLICY @ ''*'') s of
        Inl e \<Rightarrow> Inl (Backend (RedisError e))
      | Inr ks \<Rightarrow> redis_load_keys api js dec_stored_policy PREFIX_POLICY ks s)"

definition redis_load_stats ::
  "'r redis_api \<Rightarrow> json_api \<Rightarrow> 'r \<Rightarrow> store_error + (client_id \<times> stored_client_stats) list" where
  "redis_load_stats api js s =
     (case rd_keys api (PREFIX_STATS @ ''*'') s of
        Inl e \<Rightarrow> Inl (Backend (RedisError e))
      | Inr ks \<Rightarrow> redis_load_keys api js dec_stored_stats PREFIX_STATS ks s)"

definition unix_secs :: "system_time \<Rightarrow> u64" where
  "unix_secs now_sys = of_nat (dur_as_secs (nat now_sys))"

definition redis_put ::
  "'r redis_api \<Rightarrow> json_api \<Rightarrow> system_time \<Rightarrow> client_id \<Rightarrow> stored_manual_policy \<Rightarrow> 'r \<Rightarrow> (store_error + unit) \<times> 'r" where
  "redis_put api js now_sys c p s =
     (let raw = js_print js (enc_stored_policy p); key = policy_key c
      in case sp_until_unix_secs p of
           Some secs \<Rightarrow>
             let ttl = max (sat_sub secs (unix_secs now_sys)) 1
             in redis_err (rd_set_ex api key raw ttl s)
         | None \<Rightarrow> redis_err (rd_set api key raw s))"

definition redis_remove :: "'r redis_api \<Rightarrow> client_id \<Rightarrow> 'r \<Rightarrow> (store_error + unit) \<times> 'r" where
  "redis_remove api c s = redis_err (rd_del api [policy_key c] s)"

fun redis_put_batch ::
  "'r redis_api \<Rightarrow> json_api \<Rightarrow> (client_id \<times> stored_client_stats) list \<Rightarrow> 'r \<Rightarrow> (store_error + unit) \<times> 'r" where
  "redis_put_batch api js [] s = (Inr (), s)"
| "redis_put_batch api js ((c, v) # rest) s =
     (case rd_set api (stats_key c) (js_print js (enc_stored_stats v)) s of
        (Inl e, s) \<Rightarrow> (Inl (Backend (RedisError e)), s)
      | (Inr _, s) \<Rightarrow> redis_put_batch api js rest s)"

section \<open>The store of the daemon\<close>

datatype 'r store_backend = StRedis 'r | StMemory memory_store

text \<open>\<open>as_manual\<close> and \<open>as_stats\<close>: every operation goes to the store behind the backend.\<close>

definition backend_result :: "('s \<Rightarrow> 'r store_backend) \<Rightarrow> 'a \<times> 's \<Rightarrow> 'a \<times> 'r store_backend" where
  "backend_result mk r = (fst r, mk (snd r))"

record 'r store_env =
  se_redis :: "'r redis_api"
  se_json :: json_api

fun backend_put :: "'r store_env \<Rightarrow> system_time \<Rightarrow> client_id \<Rightarrow> stored_manual_policy \<Rightarrow> 'r store_backend \<Rightarrow> (store_error + unit) \<times> 'r store_backend" where
  "backend_put env now c p (StRedis r) = backend_result StRedis (redis_put (se_redis env) (se_json env) now c p r)"
| "backend_put env now c p (StMemory m) = backend_result StMemory (memory_put c p m)"

fun backend_remove :: "'r store_env \<Rightarrow> client_id \<Rightarrow> 'r store_backend \<Rightarrow> (store_error + unit) \<times> 'r store_backend" where
  "backend_remove env c (StRedis r) = backend_result StRedis (redis_remove (se_redis env) c r)"
| "backend_remove env c (StMemory m) = backend_result StMemory (memory_remove c m)"

fun backend_put_batch :: "'r store_env \<Rightarrow> (client_id \<times> stored_client_stats) list \<Rightarrow> 'r store_backend \<Rightarrow> (store_error + unit) \<times> 'r store_backend" where
  "backend_put_batch env b (StRedis r) = backend_result StRedis (redis_put_batch (se_redis env) (se_json env) b r)"
| "backend_put_batch env b (StMemory m) = backend_result StMemory (memory_put_batch b m)"

definition persist_manual ::
  "'r store_env \<Rightarrow> system_time \<Rightarrow> client_id \<Rightarrow> stored_manual_policy option \<Rightarrow> 'r store_backend \<Rightarrow> (store_error + unit) \<times> 'r store_backend" where
  "persist_manual env now c p s =
     (case p of Some q \<Rightarrow> backend_put env now c q s | None \<Rightarrow> backend_remove env c s)"

text \<open>\<open>hydrate\<close>, on what \<open>load_all\<close> answered; \<open>None\<close> is the panic of \<open>to_runtime\<close>.\<close>

fun hydrate_loop :: "instant \<Rightarrow> system_time \<Rightarrow> (client_id \<times> stored_manual_policy) list \<Rightarrow> policy_map \<Rightarrow> policy_map option" where
  "hydrate_loop now now_sys [] m = Some m"
| "hydrate_loop now now_sys ((c, stored) # rest) m =
     (case to_runtime stored now now_sys of
        None \<Rightarrow> None
      | Some p \<Rightarrow> hydrate_loop now now_sys rest (hm_insert c \<lparr>cp_manual = Some p, cp_auto = None\<rparr> m))"

definition hydrate ::
  "instant \<Rightarrow> system_time \<Rightarrow> (store_error + (client_id \<times> stored_manual_policy) list) \<Rightarrow> 'p daemon_state \<Rightarrow>
   (store_error + 'p daemon_state) option" where
  "hydrate now now_sys loaded st =
     (case loaded of
        Inl e \<Rightarrow> Some (Inl e)
      | Inr policies \<Rightarrow>
          map_option (\<lambda>m. Inr (st\<lparr>ds_policies := m\<rparr>)) (hydrate_loop now now_sys policies (ds_policies st)))"

definition snapshot_batch :: "system_time \<Rightarrow> 'p daemon_state \<Rightarrow> (client_id \<times> stored_client_stats) list" where
  "snapshot_batch now_sys st =
     map (\<lambda>(c, cum). (c, \<lparr>st_cumulative = cum, st_windows = [], st_updated_unix_secs = unix_secs now_sys\<rparr>))
       (snapshot_clients (ds_counters st))"

definition snapshot_stats ::
  "'r store_env \<Rightarrow> system_time \<Rightarrow> 'p daemon_state \<Rightarrow> 'r store_backend \<Rightarrow> (store_error + unit) \<times> 'r store_backend" where
  "snapshot_stats env now_sys st s =
     (let batch = snapshot_batch now_sys st
      in if batch \<noteq> [] then backend_put_batch env batch s else (Inr (), s))"

section \<open>The in-memory store meets the contract\<close>

definition memory_good :: "memory_store \<Rightarrow> bool" where
  "memory_good s \<longleftrightarrow> hm_wf (ms_policies s) \<and> set (hm_keys (ms_policies s)) \<subseteq> range storage_key"

definition memory_contents :: "memory_store \<Rightarrow> client_id \<rightharpoonup> stored_manual_policy" where
  "memory_contents s c = hm_get (ms_policies s) (storage_key c)"

lemma parse_entries_correct:
  "hm_wf m \<Longrightarrow> set (hm_keys m) \<subseteq> range storage_key \<Longrightarrow>
   \<exists>xs. parse_entries m = Inr xs \<and> distinct (map fst xs) \<and> map_of xs = (\<lambda>c. hm_get m (storage_key c)) \<and>
     storage_key ` fst ` set xs = set (hm_keys m)"
proof (induction m)
  case Nil
  then show ?case by (simp add: hm_keys_def hm_simps fun_eq_iff)
next
  case (Cons p m)
  obtain k v where p: "p = (k, v)" by (cases p)
  obtain c where k: "k = storage_key c" using Cons.prems by (auto simp: p hm_keys_def)
  have wf: "hm_wf m" "set (hm_keys m) \<subseteq> range storage_key" "k \<notin> set (hm_keys m)"
    using Cons.prems by (auto simp: p hm_wf_def hm_keys_def)
  obtain xs where xs: "parse_entries m = Inr xs" "distinct (map fst xs)"
    "map_of xs = (\<lambda>c. hm_get m (storage_key c))" "storage_key ` fst ` set xs = set (hm_keys m)"
    using Cons.IH wf by auto
  have "c \<notin> fst ` set xs" using xs(4) wf(3) by (auto simp: k)
  with xs show ?case
    by (auto simp: p k parse_client_key hm_simps fun_eq_iff hm_keys_def)
qed

interpretation memory: policy_store memory_load_policies memory_put memory_remove memory_good memory_contents
proof
  fix s c p xs
  assume good: "memory_good s"
  show "memory_good (snd (memory_put c p s))" "memory_good (snd (memory_remove c s))"
    using good by (auto simp: memory_good_def memory_put_def memory_remove_def hm_simps)
  show "memory_contents (snd (memory_put c p s)) = (memory_contents s)(c \<mapsto> p)"
    "memory_contents (snd (memory_remove c s)) = (memory_contents s)(c := None)"
    by (auto simp: memory_contents_def memory_put_def memory_remove_def hm_simps fun_eq_iff)
  show "load_correct (memory_load_policies s) (memory_contents s)"
    using parse_entries_correct [of "ms_policies s"] good
    by (auto simp: load_correct_def memory_load_policies_def memory_good_def memory_contents_def fun_eq_iff)
  show "fst (memory_put c p s) \<noteq> Inr () \<Longrightarrow>
      memory_contents (snd (memory_put c p s)) = memory_contents s \<or>
      memory_contents (snd (memory_put c p s)) = (memory_contents s)(c \<mapsto> p)"
    "fst (memory_remove c s) \<noteq> Inr () \<Longrightarrow>
      memory_contents (snd (memory_remove c s)) = memory_contents s \<or>
      memory_contents (snd (memory_remove c s)) = (memory_contents s)(c := None)"
    by (simp_all add: memory_put_def memory_remove_def)
qed

section \<open>The Redis store meets the contract\<close>

text \<open>
  The documented behaviour of the server: a map from keys to strings, some with a time to live, in
  nanoseconds left. Each command that answers has had its effect; one that fails may have had it or not, as
  when the connection is lost after the server has carried it out. \<open>SET\<close> gives a key no time to live,
  \<open>SETEX\<close> the seconds asked for. \<open>KEYS\<close> with a prefix and a star lists the keys with that prefix.
\<close>

type_synonym 'r redis_view = "'r \<Rightarrow> string \<rightharpoonup> string \<times> nat option"

definition redis_text :: "'r redis_view \<Rightarrow> 'r \<Rightarrow> string \<rightharpoonup> string" where
  "redis_text view s k = map_option fst (view s k)"

definition redis_behaves :: "'r redis_api \<Rightarrow> 'r redis_view \<Rightarrow> bool" where
  "redis_behaves api view \<longleftrightarrow>
     (\<forall>s k x. rd_get api k s = Inr x \<longrightarrow> x = redis_text view s k) \<and>
     (\<forall>s k v. view (snd (rd_set api k v s)) = (view s)(k \<mapsto> (v, None)) \<or>
        fst (rd_set api k v s) \<noteq> Inr () \<and> view (snd (rd_set api k v s)) = view s) \<and>
     (\<forall>s k v ttl. view (snd (rd_set_ex api k v ttl s)) = (view s)(k \<mapsto> (v, Some (unat ttl * nanos_per_sec))) \<or>
        fst (rd_set_ex api k v ttl s) \<noteq> Inr () \<and> view (snd (rd_set_ex api k v ttl s)) = view s) \<and>
     (\<forall>s ks. view (snd (rd_del api ks s)) = (view s) |` (- set ks) \<or>
        fst (rd_del api ks s) \<noteq> Inr () \<and> view (snd (rd_del api ks s)) = view s) \<and>
     (\<forall>s pre ks. rd_keys api (pre @ ''*'') s = Inr ks \<longrightarrow>
        distinct ks \<and> set ks = {k. view s k \<noteq> None \<and> take (length pre) k = pre})"

text \<open>What is left of an entry after \<open>d\<close> nanoseconds.\<close>

definition aged :: "nat \<Rightarrow> (string \<times> nat option) option \<Rightarrow> (string \<times> nat option) option" where
  "aged d e =
     (case e of
        Some (v, Some left) \<Rightarrow> if left \<le> d then None else Some (v, Some (left - d))
      | _ \<Rightarrow> e)"

lemma redis_behaves_del:
  "redis_behaves api view \<Longrightarrow> view (snd (rd_del api ks s)) = (view s) |` (- set ks) \<or>
     fst (rd_del api ks s) \<noteq> Inr () \<and> view (snd (rd_del api ks s)) = view s"
  unfolding redis_behaves_def by blast

lemma redis_behaves_set:
  "redis_behaves api view \<Longrightarrow> view (snd (rd_set api k v s)) = (view s)(k \<mapsto> (v, None)) \<or>
     fst (rd_set api k v s) \<noteq> Inr () \<and> view (snd (rd_set api k v s)) = view s"
  unfolding redis_behaves_def by blast

definition json_roundtrips :: "json_api \<Rightarrow> bool" where
  "json_roundtrips js \<longleftrightarrow> (\<forall>j. js_parse js (js_print js j) = Some j)"

definition redis_contents :: "json_api \<Rightarrow> 'r redis_view \<Rightarrow> 'r \<Rightarrow> client_id \<rightharpoonup> stored_manual_policy" where
  "redis_contents js view s c =
     Option.bind (redis_text view s (policy_key c)) (\<lambda>raw. Option.bind (js_parse js raw) dec_stored_policy)"

text \<open>Every key under the policy prefix belongs to a client and holds a policy.\<close>

definition redis_good :: "json_api \<Rightarrow> 'r redis_view \<Rightarrow> 'r \<Rightarrow> bool" where
  "redis_good js view s \<longleftrightarrow>
     (\<forall>k raw. redis_text view s k = Some raw \<and> take (length PREFIX_POLICY) k = PREFIX_POLICY \<longrightarrow>
        (\<exists>c p. k = policy_key c \<and> Option.bind (js_parse js raw) dec_stored_policy = Some p))"

lemma policy_key_inject [simp]: "policy_key a = policy_key b \<longleftrightarrow> a = b"
  by (simp add: policy_key_def)

lemma parse_client_policy_key: "parse_client_from_key (policy_key c) PREFIX_POLICY = Inr c"
  by (simp add: parse_client_from_key_def strip_prefix_def policy_key_def parse_client_key)

lemma take_policy_key: "take (length PREFIX_POLICY) (policy_key c) = PREFIX_POLICY"
  by (simp add: policy_key_def)

lemma redis_err_simps: "fst (redis_err r) = Inr () \<longleftrightarrow> fst r = Inr ()" "snd (redis_err r) = snd r"
  by (cases r; cases "fst r"; simp add: redis_err_def)+

text \<open>The time to live of a stored policy: to its end on the system clock, one second at least.\<close>

definition policy_ttl :: "system_time \<Rightarrow> stored_manual_policy \<Rightarrow> nat option" where
  "policy_ttl now_sys p =
     map_option (\<lambda>e. unat (max (sat_sub e (unix_secs now_sys)) 1) * nanos_per_sec) (sp_until_unix_secs p)"

lemma redis_put_view:
  assumes "redis_behaves api view"
  shows "view (snd (redis_put api js now c p s)) =
       (view s)(policy_key c \<mapsto> (js_print js (enc_stored_policy p), policy_ttl now p)) \<or>
     fst (redis_put api js now c p s) \<noteq> Inr () \<and> view (snd (redis_put api js now c p s)) = view s"
  using assms
  by (cases "sp_until_unix_secs p") (simp_all add: redis_behaves_def redis_put_def Let_def redis_err_simps policy_ttl_def)

lemma redis_remove_view:
  assumes "redis_behaves api view"
  shows "view (snd (redis_remove api c s)) = (view s)(policy_key c := None) \<or>
     fst (redis_remove api c s) \<noteq> Inr () \<and> view (snd (redis_remove api c s)) = view s"
proof -
  have "view s |` (- {policy_key c}) = (view s)(policy_key c := None)"
    by (simp add: fun_eq_iff restrict_map_def)
  moreover have "view (snd (rd_del api [policy_key c] s)) = view s |` (- {policy_key c}) \<or>
      fst (rd_del api [policy_key c] s) \<noteq> Inr () \<and> view (snd (rd_del api [policy_key c] s)) = view s"
    using redis_behaves_del [OF assms, of "[policy_key c]" s] by simp
  ultimately show ?thesis by (simp only: redis_remove_def redis_err_simps)
qed

lemma redis_text_upd:
  "view s' = (view s)(k := e) \<Longrightarrow> redis_text view s' = (redis_text view s)(k := map_option fst e)"
  "view s' = view s \<Longrightarrow> redis_text view s' = redis_text view s"
  by (simp_all add: redis_text_def fun_eq_iff)

text \<open>
  Both loops over keys, for a prefix \<open>pre\<close> whose keys all belong to clients and hold values that
  \<open>dec\<close> reads.
\<close>

definition redis_entry :: "json_api \<Rightarrow> (json \<Rightarrow> 'v option) \<Rightarrow> 'r redis_view \<Rightarrow> 'r \<Rightarrow> string \<Rightarrow> 'v option" where
  "redis_entry js dec view s k = Option.bind (redis_text view s k) (\<lambda>raw. Option.bind (js_parse js raw) dec)"

lemma redis_load_keys_correct:
  assumes "redis_behaves api view" and parse: "\<And>c. parse_client_from_key (key c) pre = Inr c"
    and good: "\<And>k. k \<in> set ks \<Longrightarrow> \<exists>c p. k = key c \<and> redis_entry js dec view s k = Some p"
    and "redis_load_keys api js dec pre ks s = Inr xs"
  shows "map (key \<circ> fst) xs = ks \<and> (\<forall>(c, p) \<in> set xs. redis_entry js dec view s (key c) = Some p)"
  using assms(3,4)
proof (induction ks arbitrary: xs)
  case (Cons k ks)
  obtain c p where c: "k = key c" "redis_entry js dec view s k = Some p" using Cons.prems(1) [of k] by auto
  then obtain raw where raw: "redis_text view s k = Some raw" "Option.bind (js_parse js raw) dec = Some p"
    by (auto simp: redis_entry_def bind_eq_Some_conv)
  have get: "rd_get api k s = Inr x \<Longrightarrow> x = Some raw" for x
    using assms(1) raw by (simp add: redis_behaves_def)
  have "rd_get api k s = Inr (Some raw)"
    using Cons.prems(2) get by (cases "rd_get api k s") auto
  with Cons.prems(2) c raw
  obtain ys where ys: "redis_load_keys api js dec pre ks s = Inr ys" "xs = (c, p) # ys"
    by (auto simp: parse split: sum.splits)
  have "map (key \<circ> fst) ys = ks \<and> (\<forall>(c, p) \<in> set ys. redis_entry js dec view s (key c) = Some p)"
    using Cons.prems(1) by (intro Cons.IH ys(1)) simp
  with ys(2) c show ?case by (simp add: o_def)
qed simp

lemma redis_load_map:
  assumes "redis_behaves api view" "\<And>c. parse_client_from_key (key c) pre = Inr c"
    and good: "\<And>k raw. redis_text view s k = Some raw \<Longrightarrow> take (length pre) k = pre \<Longrightarrow>
       \<exists>c p. k = key c \<and> redis_entry js dec view s k = Some p"
    and prefix: "\<And>c. take (length pre) (key c) = pre"
    and keys: "rd_keys api (pre @ ''*'') s = Inr ks" "redis_load_keys api js dec pre ks s = Inr xs"
  shows "distinct (map fst xs) \<and> map_of xs = (\<lambda>c. redis_entry js dec view s (key c))"
proof -
  have set: "distinct ks" "set ks = {k. view s k \<noteq> None \<and> take (length pre) k = pre}"
    using assms(1) keys(1) by (auto simp: redis_behaves_def)
  have "\<exists>c p. k = key c \<and> redis_entry js dec view s k = Some p" if "k \<in> set ks" for k
    using that set(2) good by (auto simp: redis_text_def)
  from redis_load_keys_correct [where js = js and view = view, OF assms(1,2) this keys(2)]
  have xs: "map (key \<circ> fst) xs = ks" "\<forall>(c, p) \<in> set xs. redis_entry js dec view s (key c) = Some p"
    by auto
  have dist: "distinct (map fst xs)" using set(1) xs(1) by (metis distinct_map map_map)
  moreover have "map_of xs c = redis_entry js dec view s (key c)" for c
  proof (cases "c \<in> fst ` set xs")
    case True
    then obtain p where "(c, p) \<in> set xs" by force
    with xs(2) dist show ?thesis by fastforce
  next
    case False
    have "inj key" using assms(2) by (metis injI sum.inject(2))
    then have "key c \<notin> set ks" using xs(1) False by (auto simp: image_iff inj_eq)
    then have "view s (key c) = None" using set(2) prefix [of c] by blast
    with False show ?thesis by (simp add: redis_entry_def redis_text_def map_of_eq_None_iff)
  qed
  ultimately show ?thesis by blast
qed

lemma redis_load_correct:
  assumes "redis_behaves api view" "redis_good js view s" "redis_load_policies api js s = Inr xs"
  shows "load_correct (redis_load_policies api js s) (redis_contents js view s)"
proof -
  obtain ks where ks: "rd_keys api (PREFIX_POLICY @ ''*'') s = Inr ks"
    "redis_load_keys api js dec_stored_policy PREFIX_POLICY ks s = Inr xs"
    using assms(3) by (auto simp: redis_load_policies_def split: sum.splits)
  have "distinct (map fst xs) \<and> map_of xs = (\<lambda>c. redis_entry js dec_stored_policy view s (policy_key c))"
    using assms(2)
    by (intro redis_load_map [OF assms(1) parse_client_policy_key _ take_policy_key ks])
      (auto simp: redis_good_def redis_entry_def)
  moreover have "(\<lambda>c. redis_entry js dec_stored_policy view s (policy_key c)) = redis_contents js view s"
    by (simp add: fun_eq_iff redis_entry_def redis_contents_def)
  ultimately show ?thesis using assms(3) by (simp add: load_correct_def)
qed

lemma redis_policy_upd:
  assumes "redis_good js view s" "view s' = (view s)(policy_key c := e)"
    and "Option.bind (map_option fst e) (\<lambda>raw. Option.bind (js_parse js raw) dec_stored_policy) = q" "e \<noteq> None \<longrightarrow> q \<noteq> None"
  shows "redis_contents js view s' = (redis_contents js view s)(c := q)" "redis_good js view s'"
proof -
  have raw: "redis_text view s' = (redis_text view s)(policy_key c := map_option fst e)"
    by (rule redis_text_upd(1) [OF assms(2)])
  show "redis_contents js view s' = (redis_contents js view s)(c := q)"
    using assms(3) by (simp add: fun_eq_iff redis_contents_def raw)
  show "redis_good js view s'"
    using assms(1,3,4) unfolding redis_good_def raw by (cases e) auto
qed

lemma redis_policy_same:
  assumes "redis_good js view s" "view s' = view s"
  shows "redis_contents js view s' = redis_contents js view s" "redis_good js view s'"
  using assms by (simp_all add: fun_eq_iff redis_contents_def redis_good_def redis_text_upd(2) [OF assms(2)])

lemma redis_policy_store_lemma:
  assumes "redis_behaves api view" "json_roundtrips js"
  shows "policy_store (redis_load_policies api js) (redis_put api js now) (redis_remove api)
     (redis_good js view) (redis_contents js view)"
proof
  fix s c p xs
  assume good: "redis_good js view s"
  let ?put = "redis_put api js now c p s" and ?rem = "redis_remove api c s"
  have rt: "Option.bind (js_parse js (js_print js (enc_stored_policy q))) dec_stored_policy = Some q" for q
    using assms(2) by (simp add: json_roundtrips_def serde)
  have put: "redis_contents js view (snd ?put) = (redis_contents js view s)(c \<mapsto> p) \<and> redis_good js view (snd ?put) \<or>
      fst ?put \<noteq> Inr () \<and> redis_contents js view (snd ?put) = redis_contents js view s \<and> redis_good js view (snd ?put)"
    using redis_put_view [OF assms(1), of js now c p s]
  proof (elim disjE conjE)
    assume "view (snd ?put) = (view s)(policy_key c \<mapsto> (js_print js (enc_stored_policy p), policy_ttl now p))"
    from redis_policy_upd [OF good this, of "Some p"] rt show ?thesis by simp
  qed (use redis_policy_same [OF good] in blast)
  have rem: "redis_contents js view (snd ?rem) = (redis_contents js view s)(c := None) \<and> redis_good js view (snd ?rem) \<or>
      fst ?rem \<noteq> Inr () \<and> redis_contents js view (snd ?rem) = redis_contents js view s \<and> redis_good js view (snd ?rem)"
    using redis_remove_view [OF assms(1), of c s]
  proof (elim disjE conjE)
    assume "view (snd ?rem) = (view s)(policy_key c := None)"
    from redis_policy_upd [OF good this, of None] show ?thesis by simp
  qed (use redis_policy_same [OF good] in blast)
  show "redis_good js view (snd ?put)" "redis_good js view (snd ?rem)"
    "fst ?put = Inr () \<Longrightarrow> redis_contents js view (snd ?put) = (redis_contents js view s)(c \<mapsto> p)"
    "fst ?rem = Inr () \<Longrightarrow> redis_contents js view (snd ?rem) = (redis_contents js view s)(c := None)"
    "fst ?put \<noteq> Inr () \<Longrightarrow> redis_contents js view (snd ?put) = redis_contents js view s \<or>
      redis_contents js view (snd ?put) = (redis_contents js view s)(c \<mapsto> p)"
    "fst ?rem \<noteq> Inr () \<Longrightarrow> redis_contents js view (snd ?rem) = redis_contents js view s \<or>
      redis_contents js view (snd ?rem) = (redis_contents js view s)(c := None)"
    using put rem by blast+
  show "load_correct (redis_load_policies api js s) (redis_contents js view s)"
    if "redis_load_policies api js s = Inr xs"
    by (rule redis_load_correct [OF assms(1) good that])
qed

text \<open>
  A concrete server, an association list that knows the time to live of each key, and a concrete text form
  for JSON.
\<close>

type_synonym sample_server = "(string \<times> string \<times> nat option) list"

definition sample_redis :: "sample_server redis_api" where
  "sample_redis =
     \<lparr>rd_get = (\<lambda>k s. Inr (map_option fst (hm_get s k))),
      rd_set = (\<lambda>k v s. (Inr (), hm_insert k (v, None) s)),
      rd_set_ex = (\<lambda>k v ttl s. (Inr (), hm_insert k (v, Some (unat ttl * nanos_per_sec)) s)),
      rd_del = (\<lambda>ks s. (Inr (), filter (\<lambda>(k, v). k \<notin> set ks) s)),
      rd_keys = (\<lambda>pat s. Inr (remdups (filter (\<lambda>k. take (length pat - 1) k = butlast pat) (hm_keys s))))\<rparr>"

instance json :: countable
  by countable_datatype

definition sample_json :: json_api where
  "sample_json =
     \<lparr>js_print = (\<lambda>j. replicate (to_nat j) (CHR ''x'')), js_parse = (\<lambda>s. Some (from_nat (length s))),
      js_error = ''invalid type''\<rparr>"

lemma sample_redis_behaves: "redis_behaves sample_redis hm_get"
proof -
  have "hm_get (filter (\<lambda>(k, v). k \<notin> set ks) s) k = (hm_get s |` (- set ks)) k" for ks s k
    by (induction s) (auto simp: hm_simps restrict_map_def split: if_splits)
  then show ?thesis
    by (auto simp: redis_behaves_def redis_text_def sample_redis_def hm_simps fun_eq_iff hm_keys_dom dom_def)
qed

lemma sample_json_roundtrips: "json_roundtrips sample_json"
  by (simp add: json_roundtrips_def sample_json_def)

text \<open>How long a stored policy is still on the server.\<close>

lemma policy_ttl_bounds:
  assumes "0 \<le> now_sys" "nat now_sys < instant_limit" "sp_until_unix_secs p = Some e"
  shows "\<exists>left. policy_ttl now_sys p = Some left \<and>
     unat e * nanos_per_sec \<le> nat now_sys + left \<and>
     nat now_sys + left \<le> max (unat e * nanos_per_sec) (nat now_sys) + nanos_per_sec"
proof -
  let ?n = "nat now_sys div nanos_per_sec"
  have "?n < 2 ^ 64"
    using assms(2) by (simp add: instant_limit_def nanos_per_sec_def less_mult_imp_div_less)
  then have n: "unat (unix_secs now_sys) = ?n"
    by (simp add: unix_secs_def dur_as_secs_def unat_of_nat take_bit_nat_eq_self_iff)
  have ttl: "unat (max (sat_sub e (unix_secs now_sys)) 1) = max (unat e - ?n) 1"
    by (simp add: max_def word_le_nat_alt unat_sat_sub n)
  have div: "?n * nanos_per_sec \<le> nat now_sys" "nat now_sys < ?n * nanos_per_sec + nanos_per_sec"
    using div_mult_mod_eq [of "nat now_sys" nanos_per_sec] mod_less_divisor [of nanos_per_sec "nat now_sys"]
    by (simp_all add: nanos_per_sec_def)
  have left: "policy_ttl now_sys p = Some (max (unat e - ?n) 1 * nanos_per_sec)"
    by (simp only: policy_ttl_def assms(3) option.map ttl)
  show ?thesis
  proof (cases "?n < unat e")
    case True
    then have "max (unat e - ?n) 1 * nanos_per_sec = unat e * nanos_per_sec - ?n * nanos_per_sec"
      "?n * nanos_per_sec + nanos_per_sec \<le> unat e * nanos_per_sec"
      using mult_le_mono1 [of "Suc ?n" "unat e" nanos_per_sec] by (simp_all add: diff_mult_distrib [symmetric] max_absorb1)
    with div have "unat e * nanos_per_sec \<le> nat now_sys + max (unat e - ?n) 1 * nanos_per_sec"
      "nat now_sys + max (unat e - ?n) 1 * nanos_per_sec \<le> unat e * nanos_per_sec + nanos_per_sec" by linarith+
    with left show ?thesis by (intro exI conjI) (assumption+, linarith)
  next
    case False
    then have "unat e * nanos_per_sec \<le> ?n * nanos_per_sec" by simp
    with div have "unat e * nanos_per_sec \<le> nat now_sys + nanos_per_sec" by linarith
    moreover have "policy_ttl now_sys p = Some nanos_per_sec" using left False by simp
    ultimately show ?thesis by (intro exI conjI) (assumption+, simp)
  qed
qed

lemma aged_put:
  assumes "redis_behaves api view" "json_roundtrips js" "redis_put api js now_sys c p s = (Inr (), s1)"
    and "view s2 (policy_key c) = aged d (view s1 (policy_key c))"
  shows "redis_contents js view s2 c =
     (case policy_ttl now_sys p of Some left \<Rightarrow> if left \<le> d then None else Some p | None \<Rightarrow> Some p)"
proof -
  have "view s1 (policy_key c) = Some (js_print js (enc_stored_policy p), policy_ttl now_sys p)"
    using redis_put_view [OF assms(1), of js now_sys c p s] assms(3) by simp
  with assms(2,4) show ?thesis
    by (simp add: redis_contents_def redis_text_def aged_def json_roundtrips_def serde split: option.splits)
qed

text \<open>
  C21: on every Redis server with the documented behaviour, whatever commands fail, the Redis
  store is a map from clients to manual policies: a successful put or remove changes exactly
  that client's entry, a failed one changes at most that entry and only in the way asked for, and
  loading gives the whole map. A stored policy stays for ever when it has no end; otherwise it is still there
  as long as its end on the system clock is ahead, and is gone at the latest one second after its end, or one
  second after it was stored when it had ended before.
\<close>

theorem redis_store_refines_map:
  assumes "redis_behaves api view" "json_roundtrips js" "0 \<le> now" "nat now < instant_limit"
  shows "policy_store (redis_load_policies api js) (redis_put api js now) (redis_remove api)
     (redis_good js view) (redis_contents js view) \<and>
   (\<forall>s c p s1 d s2. redis_put api js now c p s = (Inr (), s1) \<and>
       view s2 (policy_key c) = aged d (view s1 (policy_key c)) \<longrightarrow>
     (case sp_until_unix_secs p of
        None \<Rightarrow> redis_contents js view s2 c = Some p
      | Some e \<Rightarrow>
          (nat now + d < unat e * nanos_per_sec \<longrightarrow> redis_contents js view s2 c = Some p) \<and>
          (max (unat e * nanos_per_sec) (nat now) + nanos_per_sec \<le> nat now + d \<longrightarrow> redis_contents js view s2 c = None)))"
proof (intro conjI redis_policy_store_lemma [OF assms(1,2)] allI impI)
  fix s c p s1 d s2
  assume put: "redis_put api js now c p s = (Inr (), s1) \<and> view s2 (policy_key c) = aged d (view s1 (policy_key c))"
  note contents = aged_put [OF assms(1,2) conjunct1 [OF put] conjunct2 [OF put]]
  show "case sp_until_unix_secs p of
        None \<Rightarrow> redis_contents js view s2 c = Some p
      | Some e \<Rightarrow>
          (nat now + d < unat e * nanos_per_sec \<longrightarrow> redis_contents js view s2 c = Some p) \<and>
          (max (unat e * nanos_per_sec) (nat now) + nanos_per_sec \<le> nat now + d \<longrightarrow> redis_contents js view s2 c = None)"
  proof (cases "sp_until_unix_secs p")
    case None
    then show ?thesis using contents by (simp add: policy_ttl_def)
  next
    case (Some e)
    from policy_ttl_bounds [OF assms(3,4) Some] contents show ?thesis by (auto simp: Some)
  qed
qed

theorem redis_store_refines_map_witness:
  "policy_store (redis_load_policies sample_redis sample_json) (redis_put sample_redis sample_json 0)
     (redis_remove sample_redis) (redis_good sample_json hm_get) (redis_contents sample_json hm_get)"
  by (rule conjunct1 [OF redis_store_refines_map [OF sample_redis_behaves sample_json_roundtrips]])
     (simp_all add: instant_limit_def nanos_per_sec_def)

text \<open>A sequence of writes to the in-memory store.\<close>

definition memory_write :: "memory_store \<Rightarrow> client_id \<times> stored_manual_policy option \<Rightarrow> memory_store" where
  "memory_write s w = (case w of (c, Some p) \<Rightarrow> snd (memory_put c p s) | (c, None) \<Rightarrow> snd (memory_remove c s))"

lemma memory_tracked:
  "memory.tracked ws s {m} = (foldl memory_write s ws, {foldl (\<lambda>m (c, p). m(c := p)) m ws})"
proof (induction ws arbitrary: s m)
  case (Cons w ws)
  obtain c p where w: "w = (c, p)" by (cases w)
  have "snd (memory.persist c p s) = memory_write s w" "fst (memory.persist c p s) = Inr ()"
    by (cases p; simp add: w memory.persist_def memory_write_def memory_put_def memory_remove_def)+
  with Cons.IH show ?case by (simp add: w)
qed simp

text \<open>
  After any sequence of puts and removes on an empty in-memory store, loading succeeds and
  gives each client exactly its last written policy, once, IPv6 clients included.
\<close>

lemma memory_store_last_write:
  "\<exists>xs. memory_load_policies (foldl memory_write memory_store_default ws) = Inr xs \<and>
     distinct (map fst xs) \<and> map_of xs = foldl (\<lambda>m (c, p). m(c := p)) Map.empty ws"
proof -
  have good: "memory_good memory_store_default" and empty: "memory_contents memory_store_default = Map.empty"
    by (simp_all add: memory_good_def memory_store_default_def memory_contents_def hm_keys_def hm_simps fun_eq_iff)
  have s: "memory_good (foldl memory_write memory_store_default ws)"
    "memory_contents (foldl memory_write memory_store_default ws) = foldl (\<lambda>m (c, p). m(c := p)) Map.empty ws"
    using memory.tracked_contents [OF good, of "{memory_contents memory_store_default}" ws] by (simp_all add: memory_tracked empty)
  then show ?thesis
    using parse_entries_correct [of "ms_policies (foldl memory_write memory_store_default ws)"]
    by (auto simp: memory_load_policies_def memory_good_def memory_contents_def fun_eq_iff)
qed

section \<open>Hydration and the schema\<close>

lemma hydrate_loop_get:
  "hydrate_loop now now_sys xs m = Some m' \<Longrightarrow> distinct (map fst xs) \<Longrightarrow>
   hm_get m' c =
     (case map_of xs c of
        Some stored \<Rightarrow> map_option (\<lambda>p. \<lparr>cp_manual = Some p, cp_auto = None\<rparr>) (to_runtime stored now now_sys)
      | None \<Rightarrow> hm_get m c)"
proof (induction xs arbitrary: m)
  case (Cons x xs)
  obtain d stored where x: "x = (d, stored)" by (cases x)
  obtain p where p: "to_runtime stored now now_sys = Some p"
    "hydrate_loop now now_sys xs (hm_insert d \<lparr>cp_manual = Some p, cp_auto = None\<rparr> m) = Some m'"
    using Cons.prems(1) by (auto simp: x split: option.splits)
  have "map_of xs d = None" using Cons.prems(2) by (simp add: x map_of_eq_None_iff)
  with Cons.IH [OF p(2)] Cons.prems(2) p(1) show ?case by (auto simp: x hm_simps split: option.splits)
qed simp

lemma hydrate_loop_runtime:
  "hydrate_loop now now_sys xs m = Some m' \<Longrightarrow> (c, stored) \<in> set xs \<Longrightarrow> \<exists>q. to_runtime stored now now_sys = Some q"
  by (induction now now_sys xs m rule: hydrate_loop.induct) (auto split: option.splits)

text \<open>
  Hydrating a daemon from a store gives every client in the store exactly its stored
  manual policy, converted to the running clock, and no automatic policy; clients not in the
  store keep what they had; and nothing else in the state changes.
\<close>

lemma hydrate_correct:
  assumes "hydrate now now_sys loaded st = Some (Inr st')" "load_correct loaded contents"
  shows "(\<forall>c. hm_get (ds_policies st') c =
       (case contents c of
          Some stored \<Rightarrow> map_option (\<lambda>p. \<lparr>cp_manual = Some p, cp_auto = None\<rparr>) (to_runtime stored now now_sys)
        | None \<Rightarrow> hm_get (ds_policies st) c)) \<and>
     st' = st\<lparr>ds_policies := ds_policies st'\<rparr>"
proof -
  obtain xs where xs: "loaded = Inr xs" "distinct (map fst xs)" "map_of xs = contents"
    using assms(2) by (auto simp: load_correct_def)
  obtain m where m: "hydrate_loop now now_sys xs (ds_policies st) = Some m" "st' = st\<lparr>ds_policies := m\<rparr>"
    using assms(1) by (auto simp: hydrate_def xs(1))
  show ?thesis using hydrate_loop_get [OF m(1) xs(2)] by (simp add: m(2) xs(3))
qed

lemma hydrate_correct_example:
  "\<exists>st'. hydrate 5 0 (Inr [(client_new (Mac 1 2 3 4 5 6) (V4 (Ipv4 10 0 0 1)),
        \<lparr>sp_throttle = None, sp_blocked = True, sp_until_unix_secs = None\<rparr>)])
      (daemon_state_new Enforce ''any'' (undefined :: unit live_config)) = Some (Inr st') \<and>
     hm_get (ds_policies st') (client_new (Mac 1 2 3 4 5 6) (V4 (Ipv4 10 0 0 1))) =
       Some \<lparr>cp_manual = Some \<lparr>mp_throttle = None, mp_blocked = True, mp_until = None\<rparr>, cp_auto = None\<rparr>"
proof -
  let ?c = "client_new (Mac 1 2 3 4 5 6) (V4 (Ipv4 10 0 0 1))"
  let ?p = "\<lparr>sp_throttle = None, sp_blocked = True, sp_until_unix_secs = None\<rparr>"
  let ?st = "daemon_state_new Enforce ''any'' (undefined :: unit live_config)"
  have run: "to_runtime ?p 5 0 = Some \<lparr>mp_throttle = None, mp_blocked = True, mp_until = None\<rparr>"
    by (simp add: to_runtime_def)
  obtain st' where h: "hydrate 5 0 (Inr [(?c, ?p)]) ?st = Some (Inr st')"
    by (simp add: hydrate_def run)
  have "load_correct (Inr [(?c, ?p)]) [?c \<mapsto> ?p]" by (simp add: load_correct_def)
  from hydrate_correct [OF h this] h run show ?thesis by auto
qed

definition schema_of :: "string option \<Rightarrow> nat" where
  "schema_of v = (case v of None \<Rightarrow> SCHEMA_VERSION | Some t \<Rightarrow> (case from_str_radix 10 (2 ^ 32 - 1) t of Some n \<Rightarrow> n | None \<Rightarrow> 0))"

definition microwaf_key :: "string \<Rightarrow> bool" where
  "microwaf_key k = (take (length ''microwaf:'') k = ''microwaf:'')"

lemma redis_behaves_keys:
  "redis_behaves api view \<Longrightarrow> rd_keys api ''microwaf:*'' s = Inr ks \<Longrightarrow> set ks = {k. view s k \<noteq> None \<and> microwaf_key k}"
proof -
  assume *: "redis_behaves api view" "rd_keys api ''microwaf:*'' s = Inr ks"
  have "rd_keys api (''microwaf:'' @ ''*'') s = Inr ks" using *(2) by simp
  with *(1) have "set ks = {k. view s k \<noteq> None \<and> take (length ''microwaf:'') k = ''microwaf:''}"
    unfolding redis_behaves_def by blast
  then show ?thesis by (simp add: microwaf_key_def)
qed

lemma redis_writes:
  assumes "redis_behaves api view"
  shows "redis_err (rd_set api k v t) = (Inr (), t') \<Longrightarrow> view t' = (view t)(k \<mapsto> (v, None))"
    and "rd_del api ks t = (Inr u, t') \<Longrightarrow> view t' = view t |` (- set ks)"
    and "rd_get api k t = Inr x \<Longrightarrow> x = redis_text view t k"
proof -
  show "redis_err (rd_set api k v t) = (Inr (), t') \<Longrightarrow> view t' = (view t)(k \<mapsto> (v, None))"
    using redis_behaves_set [OF assms, of k v t] redis_err_simps [of "rd_set api k v t"] by auto
  show "rd_del api ks t = (Inr u, t') \<Longrightarrow> view t' = view t |` (- set ks)"
    using redis_behaves_del [OF assms, of ks t] by auto
  show "rd_get api k t = Inr x \<Longrightarrow> x = redis_text view t k"
    using assms by (simp add: redis_behaves_def)
qed

text \<open>Keys of another schema are all deleted before the version is written.\<close>

lemma ensure_schema_wipes:
  assumes "redis_behaves api view" "ensure_schema api s = (Inr (), s')"
    and "schema_of (redis_text view s KEY_SCHEMA) \<noteq> SCHEMA_VERSION"
  shows "view s' = (view s |` {k. \<not> microwaf_key k})(KEY_SCHEMA \<mapsto> (fmt_dec SCHEMA_VERSION, None))"
proof -
  obtain v where v: "redis_text view s KEY_SCHEMA = Some v"
    using assms(3) by (cases "redis_text view s KEY_SCHEMA") (simp_all add: schema_of_def)
  obtain x where get: "rd_get api KEY_SCHEMA s = Inr x"
    using assms(2) by (cases "rd_get api KEY_SCHEMA s") (simp_all add: ensure_schema_def)
  then have get: "rd_get api KEY_SCHEMA s = Inr (Some v)" using redis_writes(3) [OF assms(1) get] v by simp
  obtain ks s1 u where ks: "rd_keys api ''microwaf:*'' s = Inr ks"
    "(if ks \<noteq> [] then rd_del api ks s else (Inr (), s)) = (Inr u, s1)"
    "redis_err (rd_set api KEY_SCHEMA (fmt_dec SCHEMA_VERSION) s1) = (Inr (), s')"
    using assms(2,3) get
    by (auto simp: ensure_schema_def v schema_of_def Let_def split: sum.splits prod.splits)
  have "view s1 = view s |` (- set ks)"
    using ks(2) redis_writes(2) [OF assms(1), of ks s u s1] by (cases "ks = []") (auto simp: restrict_map_def)
  moreover have "set ks = {k. view s k \<noteq> None \<and> microwaf_key k}" by (rule redis_behaves_keys [OF assms(1) ks(1)])
  ultimately have "view s1 = view s |` {k. \<not> microwaf_key k}"
    by (auto simp: restrict_map_def fun_eq_iff simp del: not_None_eq split_paired_Ex)
  with redis_writes(1) [OF assms(1) ks(3)] show ?thesis by simp
qed

text \<open>
  Opening a Redis store whose schema version is the current one, or missing, keeps every
  key; with any other version, text that is no number included, it discards all \<open>microwaf:\<close>
  keys and stamps the current version. Keys of other programs are never touched.
\<close>

lemma ensure_schema_correct:
  assumes "redis_behaves api view" "ensure_schema api s = (Inr (), s')"
  shows "if schema_of (redis_text view s KEY_SCHEMA) = SCHEMA_VERSION
    then \<forall>k. k \<noteq> KEY_SCHEMA \<longrightarrow> view s' k = view s k
    else (\<forall>k. \<not> microwaf_key k \<longrightarrow> view s' k = view s k) \<and>
         (\<forall>k. microwaf_key k \<and> k \<noteq> KEY_SCHEMA \<longrightarrow> view s' k = None) \<and>
         redis_text view s' KEY_SCHEMA = Some (fmt_dec SCHEMA_VERSION)"
proof (cases "schema_of (redis_text view s KEY_SCHEMA) = SCHEMA_VERSION")
  case True
  obtain x where get: "rd_get api KEY_SCHEMA s = Inr x"
    using assms(2) by (cases "rd_get api KEY_SCHEMA s") (simp_all add: ensure_schema_def)
  then have x: "x = redis_text view s KEY_SCHEMA" by (rule redis_writes(3) [OF assms(1)])
  have "view s' k = view s k" if "k \<noteq> KEY_SCHEMA" for k
  proof (cases x)
    case None
    then show ?thesis
      using assms(2) get that redis_writes(1) [OF assms(1), of KEY_SCHEMA "fmt_dec SCHEMA_VERSION" s s']
      by (simp add: ensure_schema_def)
  next
    case (Some v)
    then show ?thesis using assms(2) get True x by (simp add: ensure_schema_def schema_of_def Let_def)
  qed
  with True show ?thesis by simp
next
  case False
  have "microwaf_key KEY_SCHEMA" by (simp add: microwaf_key_def KEY_SCHEMA_def)
  with ensure_schema_wipes [OF assms False] False show ?thesis by (auto simp: restrict_map_def redis_text_def)
qed

lemma ensure_schema_correct_example:
  "hm_get (snd (ensure_schema sample_redis [(''microwaf:stats:x'', ''y'', None), (KEY_SCHEMA, ''0'', None), (''other'', ''z'', None)]))
     ''microwaf:stats:x'' = None"
proof -
  let ?s = "[(''microwaf:stats:x'', ''y'', None), (KEY_SCHEMA, ''0'', None), (''other'', ''z'', None)]"
  have v: "schema_of (Some ''0'') = 0" by (simp add: schema_of_def from_str_radix_def to_digit_def byte_of_def)
  have "fst (ensure_schema sample_redis ?s) = Inr ()"
    using v by (simp add: ensure_schema_def sample_redis_def KEY_SCHEMA_def hm_simps redis_err_def SCHEMA_VERSION_def
        schema_of_def Let_def)
  then have ok: "ensure_schema sample_redis ?s = (Inr (), snd (ensure_schema sample_redis ?s))"
    by (metis prod.collapse)
  have "redis_text hm_get ?s KEY_SCHEMA = Some ''0''" by (simp add: redis_text_def hm_simps KEY_SCHEMA_def)
  moreover have "microwaf_key ''microwaf:stats:x''" "''microwaf:stats:x'' \<noteq> KEY_SCHEMA"
    by (simp_all add: microwaf_key_def KEY_SCHEMA_def)
  ultimately show ?thesis
    using ensure_schema_correct [OF sample_redis_behaves ok] v by (simp add: SCHEMA_VERSION_def)
qed

section \<open>Statistics in Redis\<close>

text \<open>Every key under the prefix of the statistics belongs to a client and holds statistics.\<close>

definition redis_stats_good :: "json_api \<Rightarrow> 'r redis_view \<Rightarrow> 'r \<Rightarrow> bool" where
  "redis_stats_good js view s \<longleftrightarrow>
     (\<forall>k raw. redis_text view s k = Some raw \<and> take (length PREFIX_STATS) k = PREFIX_STATS \<longrightarrow>
        (\<exists>c p. k = stats_key c \<and> redis_entry js dec_stored_stats view s k = Some p))"

lemma stats_key_simps [simp]:
  "stats_key a = stats_key b \<longleftrightarrow> a = b" "take (length PREFIX_STATS) (stats_key c) = PREFIX_STATS"
  "parse_client_from_key (stats_key c) PREFIX_STATS = Inr c"
  by (simp_all add: stats_key_def parse_client_from_key_def strip_prefix_def parse_client_key)

lemma redis_put_batch_entries:
  assumes "redis_behaves api view" "json_roundtrips js" "redis_put_batch api js batch s = (Inr (), s')"
  shows "(redis_stats_good js view s \<longrightarrow> redis_stats_good js view s') \<and>
     (\<lambda>c. redis_entry js dec_stored_stats view s' (stats_key c)) =
       (\<lambda>c. redis_entry js dec_stored_stats view s (stats_key c)) ++ map_of (rev batch)"
  using assms(3)
proof (induction batch arbitrary: s)
  case (Cons b batch)
  obtain c v where b: "b = (c, v)" by (cases b)
  let ?raw = "js_print js (enc_stored_stats v)"
  obtain s1 where s1: "rd_set api (stats_key c) ?raw s = (Inr (), s1)" "redis_put_batch api js batch s1 = (Inr (), s')"
    using Cons.prems by (auto simp: b split: prod.splits sum.splits)
  have "view s1 = (view s)(stats_key c \<mapsto> (?raw, None))"
    by (rule redis_writes(1) [OF assms(1)]) (simp add: s1(1) redis_err_def)
  then have view: "redis_text view s1 = (redis_text view s)(stats_key c \<mapsto> ?raw)"
    using redis_text_upd(1) [of view s1 s "stats_key c" "Some (?raw, None)"] by simp
  have entry: "redis_entry js dec_stored_stats view s1 k =
      (if k = stats_key c then Some v else redis_entry js dec_stored_stats view s k)" for k
    using assms(2) by (simp add: redis_entry_def view json_roundtrips_def serde)
  have "redis_stats_good js view s \<longrightarrow> redis_stats_good js view s1"
    unfolding redis_stats_good_def entry by (auto simp: view)
  with Cons.IH [OF s1(2)] show ?case by (simp add: entry b fun_eq_iff map_add_def split: option.splits)
qed simp

text \<open>
  On a Redis server with the documented behaviour that holds readable statistics, loading
  after a successful snapshot gives every client of the snapshot its new statistics, the
  windows and counters unchanged by the trip through JSON, and every other client the
  statistics it had.
\<close>

lemma stats_snapshot_roundtrip:
  assumes "redis_behaves api view" "json_roundtrips js" "redis_stats_good js view s"
    and "redis_put_batch api js batch s = (Inr (), s')" "redis_load_stats api js s' = Inr xs"
  shows "distinct (map fst xs) \<and>
     map_of xs = (\<lambda>c. redis_entry js dec_stored_stats view s (stats_key c)) ++ map_of (rev batch)"
proof -
  note batch = redis_put_batch_entries [OF assms(1,2,4)]
  obtain ks where ks: "rd_keys api (PREFIX_STATS @ ''*'') s' = Inr ks"
    "redis_load_keys api js dec_stored_stats PREFIX_STATS ks s' = Inr xs"
    using assms(5) by (auto simp: redis_load_stats_def split: sum.splits)
  have "distinct (map fst xs) \<and> map_of xs = (\<lambda>c. redis_entry js dec_stored_stats view s' (stats_key c))"
    using batch assms(3) by (intro redis_load_map [OF assms(1) _ _ _ ks]) (auto simp: redis_stats_good_def)
  with batch show ?thesis by simp
qed

definition sample_stats :: stored_client_stats where
  "sample_stats = \<lparr>st_cumulative = \<lparr>cc_requests = 3, cc_bytes = 4, cc_connections = 5, cc_ws_connections = 6\<rparr>,
     st_windows = [], st_updated_unix_secs = 9\<rparr>"

lemma stats_snapshot_roundtrip_example:
  "\<exists>s' xs. redis_put_batch sample_redis sample_json [(client_new (Mac 1 2 3 4 5 6) (V4 (Ipv4 10 0 0 1)), sample_stats)] [] = (Inr (), s') \<and>
     redis_load_stats sample_redis sample_json s' = Inr xs \<and>
     map_of xs (client_new (Mac 1 2 3 4 5 6) (V4 (Ipv4 10 0 0 1))) = Some sample_stats"
proof -
  let ?c = "client_new (Mac 1 2 3 4 5 6) (V4 (Ipv4 10 0 0 1))"
  obtain s' where s': "redis_put_batch sample_redis sample_json [(?c, sample_stats)] [] = (Inr (), s')"
    "s' = [(stats_key ?c, js_print sample_json (enc_stored_stats sample_stats), None)]"
    by (simp add: sample_redis_def hm_insert_def)
  have good: "redis_stats_good sample_json hm_get []" by (simp add: redis_stats_good_def redis_text_def hm_simps)
  have "Option.bind (js_parse sample_json (js_print sample_json (enc_stored_stats sample_stats))) dec_stored_stats = Some sample_stats"
    using sample_json_roundtrips by (simp add: json_roundtrips_def serde)
  moreover have keys: "rd_keys sample_redis (PREFIX_STATS @ ''*'') s' = Inr [stats_key ?c]"
    by (simp add: sample_redis_def s'(2) hm_keys_def butlast_append)
  moreover have get: "rd_get sample_redis (stats_key ?c) s' = Inr (Some (js_print sample_json (enc_stored_stats sample_stats)))"
    by (simp add: sample_redis_def s'(2) hm_simps)
  ultimately obtain xs where xs: "redis_load_stats sample_redis sample_json s' = Inr xs"
    by (simp add: redis_load_stats_def)
  from stats_snapshot_roundtrip [OF sample_redis_behaves sample_json_roundtrips good s'(1) xs] s'(1) xs
  show ?thesis by auto
qed

end
