(* ===== verification/Wire_Proto.thy ===== *)
theory Wire_Proto
  imports Json_Serde
begin

text \<open>
  \<open>crates/mw-proto/src/wire.rs\<close>: the messages between the daemon and its clients, with the
  decoders and encoders the derives produce. Responses survive the trip. Requests do not: the
  four parameter shapes share one untagged enum that is tried in order, so the parameters of
  \<open>block\<close>, \<open>unblock\<close> and \<open>unthrottle\<close> come back as those of \<open>throttle\<close>. A \<open>usize\<close> is 64 bits.
\<close>

section \<open>Requests\<close>

datatype request_kind =
  KInfo | KTop | KListClients | KThrottle | KUnthrottle | KBlock | KUnblock | KListRules

record client_ref =
  cf_mac :: string
  cf_ip :: "string option"

record top_params =
  tp_limit :: u64
  tp_rule_id :: "string option"
  tp_protocol :: "string option"
  tp_metric :: "string option"

record throttle_params =
  th_client :: client_ref
  th_rate :: "u8 option"
  th_duration_secs :: "u64 option"

record client_params =
  clp_client :: client_ref

record block_params =
  bp_client :: client_ref
  bp_duration_secs :: "u64 option"

datatype params = PTop top_params | PThrottle throttle_params | PClient client_params | PBlock block_params

record request =
  rq_kind :: request_kind
  rq_params :: "params option"

definition request_new :: "request_kind \<Rightarrow> request" where
  "request_new k = \<lparr>rq_kind = k, rq_params = None\<rparr>"

definition request_with_params :: "request_kind \<Rightarrow> params \<Rightarrow> request" where
  "request_with_params k p = \<lparr>rq_kind = k, rq_params = Some p\<rparr>"

fun kind_name :: "request_kind \<Rightarrow> string" where
  "kind_name KInfo = ''info''"
| "kind_name KTop = ''top''"
| "kind_name KListClients = ''listClients''"
| "kind_name KThrottle = ''throttle''"
| "kind_name KUnthrottle = ''unthrottle''"
| "kind_name KBlock = ''block''"
| "kind_name KUnblock = ''unblock''"
| "kind_name KListRules = ''listRules''"

definition all_kinds :: "request_kind list" where
  "all_kinds = [KInfo, KTop, KListClients, KThrottle, KUnthrottle, KBlock, KUnblock, KListRules]"

text \<open>A unit variant is its name, or an object with that one key and null.\<close>

definition dec_kind :: "json \<Rightarrow> request_kind option" where
  "dec_kind j =
     (case j of
        JStr s \<Rightarrow> List.find (\<lambda>k. kind_name k = s) all_kinds
      | JObj [(s, JNull)] \<Rightarrow> List.find (\<lambda>k. kind_name k = s) all_kinds
      | _ \<Rightarrow> None)"

definition enc_kind :: "request_kind \<Rightarrow> json" where
  "enc_kind k = JStr (kind_name k)"

definition enc_client_ref :: "client_ref \<Rightarrow> json" where
  "enc_client_ref c = JObj ([(''mac'', JStr (cf_mac c))] @ skip_none ''ip'' JStr (cf_ip c))"

definition dec_client_ref :: "json \<Rightarrow> client_ref option" where
  "dec_client_ref j =
     (case struct_fields [(''mac'', False), (''ip'', True)] j of
        Some [m, i] \<Rightarrow> do {
          mac \<leftarrow> req_field dec_string m;
          ip \<leftarrow> opt_field dec_string i;
          Some \<lparr>cf_mac = mac, cf_ip = ip\<rparr>}
      | _ \<Rightarrow> None)"

definition enc_top_params :: "top_params \<Rightarrow> json" where
  "enc_top_params p =
     JObj ([(''limit'', enc_uint (tp_limit p))] @ skip_none ''ruleId'' JStr (tp_rule_id p) @
       skip_none ''protocol'' JStr (tp_protocol p) @ skip_none ''metric'' JStr (tp_metric p))"

definition dec_top_params :: "json \<Rightarrow> top_params option" where
  "dec_top_params j =
     (case struct_fields [(''limit'', False), (''ruleId'', True), (''protocol'', True), (''metric'', True)] j of
        Some [l, r, p, m] \<Rightarrow> do {
          limit \<leftarrow> req_field dec_uint l;
          rule \<leftarrow> opt_field dec_string r;
          protocol \<leftarrow> opt_field dec_string p;
          metric \<leftarrow> opt_field dec_string m;
          Some \<lparr>tp_limit = limit, tp_rule_id = rule, tp_protocol = protocol, tp_metric = metric\<rparr>}
      | _ \<Rightarrow> None)"

definition enc_throttle_params :: "throttle_params \<Rightarrow> json" where
  "enc_throttle_params p =
     JObj ([(''client'', enc_client_ref (th_client p))] @ skip_none ''rate'' enc_uint (th_rate p) @
       skip_none ''durationSecs'' enc_uint (th_duration_secs p))"

definition dec_throttle_params :: "json \<Rightarrow> throttle_params option" where
  "dec_throttle_params j =
     (case struct_fields [(''client'', False), (''rate'', True), (''durationSecs'', True)] j of
        Some [c, r, d] \<Rightarrow> do {
          client \<leftarrow> req_field dec_client_ref c;
          rate \<leftarrow> opt_field dec_uint r;
          duration \<leftarrow> opt_field dec_uint d;
          Some \<lparr>th_client = client, th_rate = rate, th_duration_secs = duration\<rparr>}
      | _ \<Rightarrow> None)"

definition enc_client_params :: "client_params \<Rightarrow> json" where
  "enc_client_params p = JObj [(''client'', enc_client_ref (clp_client p))]"

definition dec_client_params :: "json \<Rightarrow> client_params option" where
  "dec_client_params j =
     (case struct_fields [(''client'', False)] j of
        Some [c] \<Rightarrow> do {
          client \<leftarrow> req_field dec_client_ref c;
          Some \<lparr>clp_client = client\<rparr>}
      | _ \<Rightarrow> None)"

definition enc_block_params :: "block_params \<Rightarrow> json" where
  "enc_block_params p =
     JObj ([(''client'', enc_client_ref (bp_client p))] @
       skip_none ''durationSecs'' enc_uint (bp_duration_secs p))"

definition dec_block_params :: "json \<Rightarrow> block_params option" where
  "dec_block_params j =
     (case struct_fields [(''client'', False), (''durationSecs'', True)] j of
        Some [c, d] \<Rightarrow> do {
          client \<leftarrow> req_field dec_client_ref c;
          duration \<leftarrow> opt_field dec_uint d;
          Some \<lparr>bp_client = client, bp_duration_secs = duration\<rparr>}
      | _ \<Rightarrow> None)"

text \<open>The untagged enum: the first variant that decodes, in the order of the declaration.\<close>

fun enc_params :: "params \<Rightarrow> json" where
  "enc_params (PTop p) = enc_top_params p"
| "enc_params (PThrottle p) = enc_throttle_params p"
| "enc_params (PClient p) = enc_client_params p"
| "enc_params (PBlock p) = enc_block_params p"

definition dec_params :: "json \<Rightarrow> params option" where
  "dec_params j =
     (case dec_top_params j of Some p \<Rightarrow> Some (PTop p) | None \<Rightarrow>
     (case dec_throttle_params j of Some p \<Rightarrow> Some (PThrottle p) | None \<Rightarrow>
     (case dec_client_params j of Some p \<Rightarrow> Some (PClient p) | None \<Rightarrow>
     (case dec_block_params j of Some p \<Rightarrow> Some (PBlock p) | None \<Rightarrow> None))))"

definition enc_request :: "request \<Rightarrow> json" where
  "enc_request r = JObj ([(''type'', enc_kind (rq_kind r))] @ skip_none ''params'' enc_params (rq_params r))"

definition dec_request :: "json \<Rightarrow> request option" where
  "dec_request j =
     (case struct_fields [(''type'', False), (''params'', True)] j of
        Some [k, p] \<Rightarrow> do {
          kind \<leftarrow> req_field dec_kind k;
          params \<leftarrow> opt_field dec_params p;
          Some \<lparr>rq_kind = kind, rq_params = params\<rparr>}
      | _ \<Rightarrow> None)"

section \<open>What a request is after the trip\<close>

text \<open>Every shape with a client reads back as the parameters of a throttle.\<close>

fun as_received :: "params \<Rightarrow> params" where
  "as_received (PTop p) = PTop p"
| "as_received (PThrottle p) = PThrottle p"
| "as_received (PClient p) = PThrottle \<lparr>th_client = clp_client p, th_rate = None, th_duration_secs = None\<rparr>"
| "as_received (PBlock p) =
     PThrottle \<lparr>th_client = bp_client p, th_rate = None, th_duration_secs = bp_duration_secs p\<rparr>"

lemma dec_enc_kind [serde]: "dec_kind (enc_kind k) = Some k"
  by (cases k) (simp_all add: dec_kind_def enc_kind_def all_kinds_def)

lemma enc_not_null [serde]:
  "enc_client_ref c \<noteq> JNull" "enc_kind k \<noteq> JNull" "enc_params p \<noteq> JNull" "JStr s \<noteq> JNull"
  by (cases p; simp add: enc_client_ref_def enc_kind_def enc_top_params_def enc_throttle_params_def
      enc_client_params_def enc_block_params_def)+

lemma dec_enc_client_ref [serde]: "dec_client_ref (enc_client_ref c) = Some c"
  by (cases c) (auto simp: dec_client_ref_def enc_client_ref_def struct_fields_def serde split: option.splits)

lemma dec_enc_top_params [serde]: "dec_top_params (enc_top_params p) = Some p"
  by (cases p) (auto simp: dec_top_params_def enc_top_params_def struct_fields_def serde split: option.splits)

lemma dec_enc_throttle_params [serde]: "dec_throttle_params (enc_throttle_params p) = Some p"
  by (cases p) (auto simp: dec_throttle_params_def enc_throttle_params_def struct_fields_def serde split: option.splits)

lemma no_limit [serde]:
  "dec_top_params (enc_throttle_params p) = None"
  "dec_top_params (enc_client_params q) = None"
  "dec_top_params (enc_block_params b) = None"
  by (auto simp: dec_top_params_def enc_throttle_params_def enc_client_params_def enc_block_params_def
      struct_fields_def serde split: option.splits)

lemma client_as_throttle [serde]:
  "dec_throttle_params (enc_client_params q) =
     Some \<lparr>th_client = clp_client q, th_rate = None, th_duration_secs = None\<rparr>"
  by (auto simp: dec_throttle_params_def enc_client_params_def struct_fields_def serde opt_field_def)

lemma block_as_throttle [serde]:
  "dec_throttle_params (enc_block_params b) =
     Some \<lparr>th_client = bp_client b, th_rate = None, th_duration_secs = bp_duration_secs b\<rparr>"
  by (cases b) (auto simp: dec_throttle_params_def enc_block_params_def struct_fields_def serde opt_field_def
      dec_option_def split: option.splits)

lemma dec_enc_params [serde]: "dec_params (enc_params p) = Some (as_received p)"
  by (cases p) (simp_all add: dec_params_def serde)

lemma dec_enc_request: "dec_request (enc_request r) = Some (r\<lparr>rq_params := map_option as_received (rq_params r)\<rparr>)"
  by (cases r) (auto simp: dec_request_def enc_request_def struct_fields_def serde opt_field_def
      dec_option_def split: option.splits)

text \<open>
  C18: a request read back from its own encoding has the same kind, and its parameters are what
  was sent for \<open>top\<close> and \<open>throttle\<close>; the parameters sent for \<open>block\<close>, \<open>unblock\<close> and \<open>unthrottle\<close>
  always arrive as throttle parameters without a rate.
\<close>

theorem request_roundtrip:
  "dec_request (enc_request r) = Some (r\<lparr>rq_params := map_option as_received (rq_params r)\<rparr>)"
  by (rule dec_enc_request)

section \<open>Responses\<close>

record error_body =
  eb_code :: string
  eb_message :: string

definition error_new :: "string \<Rightarrow> string \<Rightarrow> error_body" where
  [simp]: "error_new code m = \<lparr>eb_code = code, eb_message = m\<rparr>"

definition error_forbidden :: "string \<Rightarrow> error_body" where
  "error_forbidden m = error_new ''forbidden'' m"

definition error_not_found :: "string \<Rightarrow> error_body" where
  "error_not_found m = error_new ''notFound'' m"

definition error_invalid :: "string \<Rightarrow> error_body" where
  "error_invalid m = error_new ''invalid'' m"

definition error_busy :: "string \<Rightarrow> error_body" where
  "error_busy m = error_new ''busy'' m"

datatype action_wire = WThrottle u8 | WBlock | WNone

record violation_wire =
  vw_rule_id :: string
  vw_value :: u64
  vw_limit :: u64
  vw_action :: action_wire

record client_stats_wire =
  sw_requests :: u64
  sw_bytes :: u64
  sw_connections :: u64
  sw_ws_connections :: u64

record client_entry =
  ce_client :: client_ref
  ce_action :: "action_wire option"
  ce_would_be_action :: "action_wire option"
  ce_violations :: "violation_wire list"
  ce_hot :: bool
  ce_stats :: "client_stats_wire option"

record top_column =
  tc_rule_id :: string
  tc_window :: string
  tc_limit :: u64
  tc_min_threshold :: u64

record clients_result =
  cl_clients :: "client_entry list"
  cl_columns :: "top_column list"

record info_result =
  in_version :: string
  in_commit :: string
  in_build_time :: string
  in_mode :: string
  in_interface :: string

record rule_wire =
  ru_id :: string
  ru_protocol :: string
  ru_ports :: "u16 list"
  ru_metric :: string
  ru_window :: string
  ru_limit :: u64
  ru_action :: action_wire
  ru_min_threshold :: u64
  ru_match :: "string option"

datatype result_body =
  RInfo info_result | RClients clients_result | RRules "rule_wire list" | REmpty

record response =
  rp_kind :: request_kind
  rp_result :: "result_body option"
  rp_error :: "error_body option"

definition response_ok :: "request_kind \<Rightarrow> result_body \<Rightarrow> response" where
  "response_ok k r = \<lparr>rp_kind = k, rp_result = Some r, rp_error = None\<rparr>"

definition response_err :: "request_kind \<Rightarrow> error_body \<Rightarrow> response" where
  "response_err k e = \<lparr>rp_kind = k, rp_result = None, rp_error = Some e\<rparr>"

text \<open>
  The internally tagged enum: the tag is the variant's name or, as the value was buffered, its
  index; the rest of the object, or of the array after the tag, holds the fields.
\<close>

fun enc_action :: "action_wire \<Rightarrow> json" where
  "enc_action (WThrottle r) = JObj [(''kind'', JStr ''throttle''), (''dropRate'', enc_uint r)]"
| "enc_action WBlock = JObj [(''kind'', JStr ''block'')]"
| "enc_action WNone = JObj [(''kind'', JStr ''none'')]"

definition dec_throttle_rest :: "json \<Rightarrow> action_wire option" where
  "dec_throttle_rest j =
     (case struct_fields [(''dropRate'', False)] j of
        Some [r] \<Rightarrow> map_option WThrottle (req_field dec_uint r)
      | _ \<Rightarrow> None)"

definition unit_rest :: "json \<Rightarrow> bool" where
  "unit_rest rest = (case rest of JObj _ \<Rightarrow> True | JArr xs \<Rightarrow> xs = [] | _ \<Rightarrow> False)"

definition dec_tagged :: "json \<Rightarrow> json \<Rightarrow> action_wire option" where
  "dec_tagged tag rest =
     (if tag = JStr ''throttle'' \<or> tag = JNum 0 then dec_throttle_rest rest
      else if tag = JStr ''block'' \<or> tag = JNum 1 then (if unit_rest rest then Some WBlock else None)
      else if tag = JStr ''none'' \<or> tag = JNum 2 then (if unit_rest rest then Some WNone else None)
      else None)"

definition dec_action :: "json \<Rightarrow> action_wire option" where
  "dec_action j =
     (case j of
        JObj kvs \<Rightarrow>
          (case field_vals kvs ''kind'' of
             [tag] \<Rightarrow> dec_tagged tag (JObj (filter (\<lambda>(k, v). k \<noteq> ''kind'') kvs))
           | _ \<Rightarrow> None)
      | JArr (tag # rest) \<Rightarrow> dec_tagged tag (JArr rest)
      | _ \<Rightarrow> None)"

definition enc_violation :: "violation_wire \<Rightarrow> json" where
  "enc_violation v =
     JObj [(''ruleId'', JStr (vw_rule_id v)), (''value'', enc_uint (vw_value v)),
           (''limit'', enc_uint (vw_limit v)), (''action'', enc_action (vw_action v))]"

definition dec_violation :: "json \<Rightarrow> violation_wire option" where
  "dec_violation j =
     (case struct_fields [(''ruleId'', False), (''value'', False), (''limit'', False), (''action'', False)] j of
        Some [r, v, l, a] \<Rightarrow> do {
          rule \<leftarrow> req_field dec_string r;
          val \<leftarrow> req_field dec_uint v;
          limit \<leftarrow> req_field dec_uint l;
          act \<leftarrow> req_field dec_action a;
          Some \<lparr>vw_rule_id = rule, vw_value = val, vw_limit = limit, vw_action = act\<rparr>}
      | _ \<Rightarrow> None)"

definition enc_stats :: "client_stats_wire \<Rightarrow> json" where
  "enc_stats s =
     JObj [(''requests'', enc_uint (sw_requests s)), (''bytes'', enc_uint (sw_bytes s)),
           (''connections'', enc_uint (sw_connections s)), (''wsConnections'', enc_uint (sw_ws_connections s))]"

definition dec_stats :: "json \<Rightarrow> client_stats_wire option" where
  "dec_stats j =
     (case struct_fields [(''requests'', True), (''bytes'', True), (''connections'', True), (''wsConnections'', True)] j of
        Some [r, b, c, w] \<Rightarrow> do {
          requests \<leftarrow> def_field 0 dec_uint r;
          bytes \<leftarrow> def_field 0 dec_uint b;
          connections \<leftarrow> def_field 0 dec_uint c;
          ws \<leftarrow> def_field 0 dec_uint w;
          Some \<lparr>sw_requests = requests, sw_bytes = bytes, sw_connections = connections, sw_ws_connections = ws\<rparr>}
      | _ \<Rightarrow> None)"

definition enc_entry :: "client_entry \<Rightarrow> json" where
  "enc_entry e =
     JObj ([(''client'', enc_client_ref (ce_client e))] @ skip_none ''action'' enc_action (ce_action e) @
       skip_none ''wouldBeAction'' enc_action (ce_would_be_action e) @
       skip_empty ''violations'' (enc_list enc_violation) (ce_violations e) @
       skip_false ''hot'' (ce_hot e) @ skip_none ''stats'' enc_stats (ce_stats e))"

definition dec_entry :: "json \<Rightarrow> client_entry option" where
  "dec_entry j =
     (case struct_fields [(''client'', False), (''action'', True), (''wouldBeAction'', True),
         (''violations'', True), (''hot'', True), (''stats'', True)] j of
        Some [c, a, w, v, h, s] \<Rightarrow> do {
          client \<leftarrow> req_field dec_client_ref c;
          act \<leftarrow> opt_field dec_action a;
          would \<leftarrow> opt_field dec_action w;
          violations \<leftarrow> def_field [] (dec_list dec_violation) v;
          hot \<leftarrow> def_field False dec_bool h;
          stats \<leftarrow> opt_field dec_stats s;
          Some \<lparr>ce_client = client, ce_action = act, ce_would_be_action = would,
                ce_violations = violations, ce_hot = hot, ce_stats = stats\<rparr>}
      | _ \<Rightarrow> None)"

definition enc_column :: "top_column \<Rightarrow> json" where
  "enc_column c =
     JObj [(''ruleId'', JStr (tc_rule_id c)), (''window'', JStr (tc_window c)),
           (''limit'', enc_uint (tc_limit c)), (''minThreshold'', enc_uint (tc_min_threshold c))]"

definition dec_column :: "json \<Rightarrow> top_column option" where
  "dec_column j =
     (case struct_fields [(''ruleId'', False), (''window'', False), (''limit'', False), (''minThreshold'', False)] j of
        Some [r, w, l, m] \<Rightarrow> do {
          rule \<leftarrow> req_field dec_string r;
          window \<leftarrow> req_field dec_string w;
          limit \<leftarrow> req_field dec_uint l;
          mt \<leftarrow> req_field dec_uint m;
          Some \<lparr>tc_rule_id = rule, tc_window = window, tc_limit = limit, tc_min_threshold = mt\<rparr>}
      | _ \<Rightarrow> None)"

definition enc_clients :: "clients_result \<Rightarrow> json" where
  "enc_clients r =
     JObj ([(''clients'', enc_list enc_entry (cl_clients r))] @
       skip_empty ''columns'' (enc_list enc_column) (cl_columns r))"

definition dec_clients :: "json \<Rightarrow> clients_result option" where
  "dec_clients j =
     (case struct_fields [(''clients'', False), (''columns'', True)] j of
        Some [c, k] \<Rightarrow> do {
          clients \<leftarrow> req_field (dec_list dec_entry) c;
          columns \<leftarrow> def_field [] (dec_list dec_column) k;
          Some \<lparr>cl_clients = clients, cl_columns = columns\<rparr>}
      | _ \<Rightarrow> None)"

definition enc_info :: "info_result \<Rightarrow> json" where
  "enc_info r =
     JObj ([(''version'', JStr (in_version r))] @ skip_empty ''commit'' JStr (in_commit r) @
       skip_empty ''buildTime'' JStr (in_build_time r) @ [(''mode'', JStr (in_mode r))] @
       skip_empty ''interface'' JStr (in_interface r))"

definition dec_info :: "json \<Rightarrow> info_result option" where
  "dec_info j =
     (case struct_fields [(''version'', False), (''commit'', True), (''buildTime'', True), (''mode'', False),
         (''interface'', True)] j of
        Some [v, c, b, m, i] \<Rightarrow> do {
          version \<leftarrow> req_field dec_string v;
          commit \<leftarrow> def_field [] dec_string c;
          build \<leftarrow> def_field [] dec_string b;
          md \<leftarrow> req_field dec_string m;
          iface \<leftarrow> def_field [] dec_string i;
          Some \<lparr>in_version = version, in_commit = commit, in_build_time = build, in_mode = md, in_interface = iface\<rparr>}
      | _ \<Rightarrow> None)"

definition enc_rule :: "rule_wire \<Rightarrow> json" where
  "enc_rule r =
     JObj ([(''id'', JStr (ru_id r)), (''protocol'', JStr (ru_protocol r))] @
       skip_empty ''ports'' (enc_list enc_uint) (ru_ports r) @
       [(''metric'', JStr (ru_metric r)), (''window'', JStr (ru_window r)), (''limit'', enc_uint (ru_limit r)),
        (''action'', enc_action (ru_action r)), (''minThreshold'', enc_uint (ru_min_threshold r))] @
       skip_none ''match'' JStr (ru_match r))"

definition dec_rule :: "json \<Rightarrow> rule_wire option" where
  "dec_rule j =
     (case struct_fields [(''id'', False), (''protocol'', False), (''ports'', True), (''metric'', False),
         (''window'', False), (''limit'', False), (''action'', False), (''minThreshold'', False), (''match'', True)] j of
        Some [i, p, ps, m, w, l, a, t, c] \<Rightarrow> do {
          rid \<leftarrow> req_field dec_string i;
          protocol \<leftarrow> req_field dec_string p;
          ports \<leftarrow> def_field [] (dec_list dec_uint) ps;
          metric \<leftarrow> req_field dec_string m;
          window \<leftarrow> req_field dec_string w;
          limit \<leftarrow> req_field dec_uint l;
          act \<leftarrow> req_field dec_action a;
          mt \<leftarrow> req_field dec_uint t;
          cel \<leftarrow> opt_field dec_string c;
          Some \<lparr>ru_id = rid, ru_protocol = protocol, ru_ports = ports, ru_metric = metric, ru_window = window,
                ru_limit = limit, ru_action = act, ru_min_threshold = mt, ru_match = cel\<rparr>}
      | _ \<Rightarrow> None)"

definition enc_rules :: "rule_wire list \<Rightarrow> json" where
  "enc_rules rs = JObj [(''rules'', enc_list enc_rule rs)]"

definition dec_rules :: "json \<Rightarrow> rule_wire list option" where
  "dec_rules j =
     (case struct_fields [(''rules'', False)] j of
        Some [r] \<Rightarrow> req_field (dec_list dec_rule) r
      | _ \<Rightarrow> None)"

definition dec_empty :: "json \<Rightarrow> unit option" where
  "dec_empty j = (case struct_fields [] j of Some _ \<Rightarrow> Some () | None \<Rightarrow> None)"

fun enc_result :: "result_body \<Rightarrow> json" where
  "enc_result (RInfo r) = enc_info r"
| "enc_result (RClients r) = enc_clients r"
| "enc_result (RRules r) = enc_rules r"
| "enc_result REmpty = JObj []"

definition dec_result :: "json \<Rightarrow> result_body option" where
  "dec_result j =
     (case dec_info j of Some r \<Rightarrow> Some (RInfo r) | None \<Rightarrow>
     (case dec_clients j of Some r \<Rightarrow> Some (RClients r) | None \<Rightarrow>
     (case dec_rules j of Some r \<Rightarrow> Some (RRules r) | None \<Rightarrow>
     (case dec_empty j of Some _ \<Rightarrow> Some REmpty | None \<Rightarrow> None))))"

definition enc_error :: "error_body \<Rightarrow> json" where
  "enc_error e = JObj [(''code'', JStr (eb_code e)), (''message'', JStr (eb_message e))]"

definition dec_error :: "json \<Rightarrow> error_body option" where
  "dec_error j =
     (case struct_fields [(''code'', False), (''message'', False)] j of
        Some [c, m] \<Rightarrow> do {
          code \<leftarrow> req_field dec_string c;
          message \<leftarrow> req_field dec_string m;
          Some \<lparr>eb_code = code, eb_message = message\<rparr>}
      | _ \<Rightarrow> None)"

definition enc_response :: "response \<Rightarrow> json" where
  "enc_response r =
     JObj ([(''type'', enc_kind (rp_kind r))] @ skip_none ''result'' enc_result (rp_result r) @
       skip_none ''error'' enc_error (rp_error r))"

definition dec_response :: "json \<Rightarrow> response option" where
  "dec_response j =
     (case struct_fields [(''type'', False), (''result'', True), (''error'', True)] j of
        Some [k, r, e] \<Rightarrow> do {
          kind \<leftarrow> req_field dec_kind k;
          res \<leftarrow> opt_field dec_result r;
          err \<leftarrow> opt_field dec_error e;
          Some \<lparr>rp_kind = kind, rp_result = res, rp_error = err\<rparr>}
      | _ \<Rightarrow> None)"

section \<open>Responses survive the trip\<close>

lemma dec_enc_action [serde]: "dec_action (enc_action a) = Some a"
  by (cases a) (simp_all add: dec_action_def dec_tagged_def unit_rest_def dec_throttle_rest_def struct_fields_def serde)

lemma enc_not_null2 [serde]:
  "enc_action a \<noteq> JNull" "enc_stats s \<noteq> JNull" "enc_error e \<noteq> JNull"
  by (cases a; simp add: enc_stats_def enc_error_def)+

lemma dec_enc_violation [serde]: "dec_violation (enc_violation v) = Some v"
  by (cases v) (simp add: dec_violation_def enc_violation_def struct_fields_def serde)

lemma dec_enc_stats [serde]: "dec_stats (enc_stats s) = Some s"
  by (cases s) (simp add: dec_stats_def enc_stats_def struct_fields_def serde)

lemma dec_enc_column [serde]: "dec_column (enc_column c) = Some c"
  by (cases c) (simp add: dec_column_def enc_column_def struct_fields_def serde)

lemma dec_enc_error [serde]: "dec_error (enc_error e) = Some e"
  by (cases e) (simp add: dec_error_def enc_error_def struct_fields_def serde)

lemma def_false_skip [serde]:
  "def_field False dec_bool (case (if b then [JBool True] else []) of [] \<Rightarrow> None | v # _ \<Rightarrow> Some v) = Some b"
  by (simp add: serde)

lemma dec_enc_entry [serde]: "dec_entry (enc_entry e) = Some e"
  by (cases e) (auto simp: dec_entry_def enc_entry_def struct_fields_def serde dec_enc_list split: option.splits)

lemma dec_enc_clients [serde]: "dec_clients (enc_clients r) = Some r"
  by (cases r) (auto simp: dec_clients_def enc_clients_def struct_fields_def serde dec_enc_list)

lemma dec_enc_info [serde]: "dec_info (enc_info r) = Some r"
  by (cases r) (auto simp: dec_info_def enc_info_def struct_fields_def serde)

lemma dec_enc_rule [serde]: "dec_rule (enc_rule r) = Some r"
  by (cases r) (auto simp: dec_rule_def enc_rule_def struct_fields_def serde dec_enc_list split: option.splits)

lemma dec_enc_rules [serde]: "dec_rules (enc_rules rs) = Some rs"
  by (simp add: dec_rules_def enc_rules_def struct_fields_def serde dec_enc_list)

lemma other_results [serde]:
  "dec_info (enc_clients c) = None" "dec_info (enc_rules r) = None" "dec_clients (enc_rules r) = None"
  "dec_info (JObj []) = None" "dec_clients (JObj []) = None" "dec_rules (JObj []) = None"
  "dec_empty (JObj []) = Some ()"
  by (auto simp: dec_info_def dec_clients_def dec_rules_def dec_empty_def enc_clients_def enc_rules_def
      struct_fields_def serde)

lemma dec_enc_result [serde]: "dec_result (enc_result r) = Some r"
  by (cases r) (simp_all add: dec_result_def serde)

lemma enc_result_not_null [serde]: "enc_result r \<noteq> JNull"
  by (cases r) (simp_all add: enc_info_def enc_clients_def enc_rules_def)

lemma dec_enc_response: "dec_response (enc_response r) = Some r"
  by (cases r) (auto simp: dec_response_def enc_response_def struct_fields_def serde split: option.splits)

end
