(* ===== verification/Ipc_Listener.thy ===== *)
theory Ipc_Listener
  imports MW_Prelude
begin

text \<open>
  How \<open>crates/microwaf/src/ipc.rs\<close> sets up its socket: the options it binds with, the policy it accepts
  peers under, and the commands it registers. Binding, authentication and sessions are the work of the
  shared daemon crate, whose bind and claim functions are arguments here.
\<close>

record bind_options =
  bo_path :: string
  bo_mode :: nat
  bo_chown :: "string option"
  bo_process_name :: string

definition bind_listener :: "(bind_options \<Rightarrow> string option) \<Rightarrow> string \<Rightarrow> string option" where
  "bind_listener do_bind socket =
     do_bind \<lparr>bo_path = socket, bo_mode = 6 * 64 + 6 * 8, bo_chown = None, bo_process_name = ''microwaf''\<rparr>"

definition claim_socket_path :: "(string \<Rightarrow> string \<Rightarrow> string option) \<Rightarrow> string \<Rightarrow> string option" where
  "claim_socket_path claim socket = claim socket ''microwaf''"

datatype auth = PeerUser (au_allow_users: "string list") (au_root_always: bool) (au_fail_closed_if_empty: bool)

datatype session_mode = OneShot | Persistent

record accept_policy =
  ac_auth :: auth
  ac_session :: session_mode
  ac_max_clients :: "nat option"
  ac_max_frame :: nat

text \<open>The commands of \<open>mw_router\<close>, by the names they are registered under.\<close>

definition mw_router :: "string list" where
  "mw_router =
     [''info'', ''top'', ''listClients'', ''throttle'', ''unthrottle'', ''block'', ''unblock'', ''listRules'']"

record ipc_server =
  sr_socket :: string
  sr_accept :: accept_policy
  sr_router :: "string list"

text \<open>What \<open>serve_listener\<close> hands to the shared crate's server; \<open>max_frame\<close> is the crate's own limit.\<close>

definition serve_listener :: "nat \<Rightarrow> string \<Rightarrow> string list \<Rightarrow> ipc_server" where
  "serve_listener max_frame socket allow_users =
     \<lparr>sr_socket = socket,
      sr_accept =
        \<lparr>ac_auth = PeerUser allow_users True False, ac_session = Persistent, ac_max_clients = None, ac_max_frame = max_frame\<rparr>,
      sr_router = mw_router\<rparr>"

end
