(* ===== verification/Ipc_Server.thy ===== *)
theory Ipc_Server
  imports Persistence Wire_Proto Ipc_Listener "HOL-Library.Multiset"
begin

text \<open>
  \<open>crates/microwaf/src/ipc.rs\<close>: the handlers behind the daemon's socket. A handler gets the
  request, the shared state and the store and returns its answer with both; \<open>None\<close> is the panic
  of a duration out of range. The lemmas give the effect of each command, the shape of \<open>top\<close>
  and \<open>listClients\<close>, and what becomes of the commands whose parameters the wire confuses.
\<close>

section \<open>Conversions\<close>

record version_data =
  vi_version :: string
  vi_commit :: string
  vi_build_time :: string

text \<open>\<open>version::info\<close>; the two variables are read when the program is built.\<close>

definition version_info :: "string option \<Rightarrow> string option \<Rightarrow> version_data" where
  "version_info git_commit build_time =
     \<lparr>vi_version = ''dev'',
      vi_commit = (case git_commit of Some c \<Rightarrow> c | None \<Rightarrow> ''unknown''),
      vi_build_time = (case build_time of Some t \<Rightarrow> t | None \<Rightarrow> [])\<rparr>"

definition info_result :: "version_data \<Rightarrow> 'p daemon_state \<Rightarrow> info_result" where
  "info_result v st =
     \<lparr>in_version = vi_version v, in_commit = vi_commit v, in_build_time = vi_build_time v,
      in_mode = mode_as_str (ds_mode st), in_interface = ds_interface st\<rparr>"

fun action_to_wire :: "action \<Rightarrow> action_wire" where
  "action_to_wire (ActThrottle r) = WThrottle r"
| "action_to_wire ActBlock = WBlock"

fun effective_to_wire :: "effective_action \<Rightarrow> action_wire" where
  "effective_to_wire EffNone = WNone"
| "effective_to_wire (EffThrottle r) = WThrottle r"
| "effective_to_wire EffBlock = WBlock"

definition client_to_ref :: "client_id \<Rightarrow> client_ref" where
  "client_to_ref c = \<lparr>cf_mac = mac_string c, cf_ip = Some (show_ip (cl_ip c))\<rparr>"

definition parse_ref :: "client_ref \<Rightarrow> string + client_id" where
  "parse_ref r =
     (let s = (case cf_ip r of Some ip \<Rightarrow> cf_mac r @ ''@'' @ ip | None \<Rightarrow> cf_mac r)
      in case parse_client s of Inl e \<Rightarrow> Inl (show_parse_error e) | Inr c \<Rightarrow> Inr c)"

definition list_rules :: "'p daemon_state \<Rightarrow> rule_wire list" where
  "list_rules st =
     map (\<lambda>r. \<lparr>ru_id = r_id r, ru_protocol = protocol_as_str (r_protocol r),
               ru_ports = (case r_ports r of Some ps \<Rightarrow> ps | None \<Rightarrow> []),
               ru_metric = metric_as_str (r_metric r), ru_window = window_as_str (r_window r),
               ru_limit = r_limit r, ru_action = action_to_wire (r_action r),
               ru_min_threshold = r_min_threshold r, ru_match = r_match_src r\<rparr>)
       (rs_rules (state_rules st))"

definition stats_to_wire :: "cumulative_counters \<Rightarrow> client_stats_wire" where
  "stats_to_wire s =
     \<lparr>sw_requests = cc_requests s, sw_bytes = cc_bytes s, sw_connections = cc_connections s,
      sw_ws_connections = cc_ws_connections s\<rparr>"

definition would_be_wire :: "'p daemon_state \<Rightarrow> client_id \<Rightarrow> effective_action \<Rightarrow> action_wire option" where
  "would_be_wire st c eff =
     (case hm_get (ds_would_be st) c of
        Some a \<Rightarrow> Some (effective_to_wire a)
      | None \<Rightarrow> if ds_mode st = Permissive then Some (effective_to_wire eff) else None)"

section \<open>Listing clients\<close>

definition list_clients :: "instant \<Rightarrow> 'p daemon_state \<Rightarrow> clients_result" where
  "list_clients now st =
     (let stats = snapshot_clients (ds_counters st);
          known = map (\<lambda>(c, policy).
            let eff = merge_policy policy now
            in \<lparr>ce_client = client_to_ref c, ce_action = Some (effective_to_wire eff),
                ce_would_be_action = would_be_wire st c eff, ce_violations = [], ce_hot = False,
                ce_stats = map_option stats_to_wire (hm_get stats c)\<rparr>) (ds_policies st);
          seen = hm_keys (ds_policies st);
          rest = map (\<lambda>(c, s).
            \<lparr>ce_client = client_to_ref c, ce_action = Some WNone, ce_would_be_action = None,
             ce_violations = [], ce_hot = False, ce_stats = Some (stats_to_wire s)\<rparr>)
            (filter (\<lambda>(c, s). c \<notin> set seen) stats)
      in \<lparr>cl_clients = known @ rest, cl_columns = []\<rparr>)"

definition rule_matches :: "top_params \<Rightarrow> 'p rule \<Rightarrow> bool" where
  "rule_matches params r =
     ((case tp_rule_id params of Some i \<Rightarrow> r_id r = i | None \<Rightarrow> True) \<and>
      (case tp_protocol params of Some p \<Rightarrow> protocol_as_str (r_protocol r) = p | None \<Rightarrow> True) \<and>
      (case tp_metric params of Some m \<Rightarrow> metric_as_str (r_metric r) = m | None \<Rightarrow> True))"

definition zero_observations :: "'p rule list \<Rightarrow> violation_wire list" where
  "zero_observations rules =
     map (\<lambda>r. \<lparr>vw_rule_id = r_id r, vw_value = 0, vw_limit = r_limit r, vw_action = action_to_wire (r_action r)\<rparr>) rules"

text \<open>The loop of \<open>score_client\<close>, with the best value and the hot flag so far.\<close>

fun score_loop :: "rule_windows \<Rightarrow> 'p rule list \<Rightarrow> u64 \<Rightarrow> bool \<Rightarrow> u64 \<times> bool \<times> violation_wire list" where
  "score_loop win [] best hot = (best, hot, [])"
| "score_loop win (r # rs) best hot =
     (let v = rw_sum win (r_id r) (r_metric r) (window_secs (r_window r));
          (best', hot', obs) = score_loop win rs (max best v) (hot \<or> v \<ge> r_min_threshold r \<and> v > 0)
      in (best', hot',
          \<lparr>vw_rule_id = r_id r, vw_value = v, vw_limit = r_limit r, vw_action = action_to_wire (r_action r)\<rparr> # obs))"

definition score_client :: "rule_windows \<Rightarrow> 'p rule list \<Rightarrow> u64 \<times> bool \<times> violation_wire list" where
  "score_client win rules = score_loop win rules 0 False"

record scored =
  sc_client :: client_id
  sc_best :: u64
  sc_hot :: bool
  sc_obs :: "violation_wire list"

text \<open>The order of the rows: hot first, larger value first, then MAC and IP address.\<close>

definition scored_key :: "scored \<Rightarrow> bool \<times> nat \<times> mac_addr \<times> ip_addr" where
  "scored_key s = (\<not> sc_hot s, 2 ^ 64 - unat (sc_best s), cl_mac (sc_client s), cl_ip (sc_client s))"

definition scored_rows :: "'p daemon_state \<Rightarrow> 'p rule list \<Rightarrow> scored list" where
  "scored_rows st rules =
     (let zero = zero_observations rules;
          from_windows = map (\<lambda>(c, win).
            case score_client win rules of (best, hot, obs) \<Rightarrow>
              \<lparr>sc_client = c, sc_best = best, sc_hot = hot, sc_obs = obs\<rparr>) (ds_windows st);
          seen = hm_keys (ds_windows st);
          pol = filter (\<lambda>c. c \<notin> set seen) (hm_keys (ds_policies st));
          sta = filter (\<lambda>c. c \<notin> set (seen @ pol)) (hm_keys (snapshot_clients (ds_counters st)))
      in from_windows @
         map (\<lambda>c. \<lparr>sc_client = c, sc_best = 0, sc_hot = False, sc_obs = zero\<rparr>) (pol @ sta))"

definition top_rows :: "'p daemon_state \<Rightarrow> top_params \<Rightarrow> scored list" where
  "top_rows st params =
     (let rows = sort_key scored_key (scored_rows st (filter (rule_matches params) (rs_rules (state_rules st))))
      in if tp_limit params > 0 then take (unat (tp_limit params)) rows else rows)"

definition top_cmd :: "instant \<Rightarrow> 'p daemon_state \<Rightarrow> top_params \<Rightarrow> clients_result" where
  "top_cmd now st params =
     (let rules = filter (rule_matches params) (rs_rules (state_rules st));
          columns = map (\<lambda>r. \<lparr>tc_rule_id = r_id r, tc_window = window_as_str (r_window r),
                              tc_limit = r_limit r, tc_min_threshold = r_min_threshold r\<rparr>) rules;
          stats = snapshot_clients (ds_counters st)
      in \<lparr>cl_clients = map (\<lambda>s.
            let c = sc_client s;
                eff = (case hm_get (ds_policies st) c of Some p \<Rightarrow> merge_policy p now | None \<Rightarrow> EffNone)
            in \<lparr>ce_client = client_to_ref c, ce_action = Some (effective_to_wire eff),
                ce_would_be_action = would_be_wire st c eff, ce_violations = sc_obs s, ce_hot = sc_hot s,
                ce_stats = map_option stats_to_wire (hm_get stats c)\<rparr>) (top_rows st params),
          cl_columns = columns\<rparr>)"

section \<open>Commands on manual policies\<close>

type_synonym ('p, 'r) cmd_result = "(string + unit) \<times> 'p daemon_state \<times> 'r store_backend"

definition no_manual :: manual_policy where
  "no_manual = \<lparr>mp_throttle = None, mp_blocked = False, mp_until = None\<rparr>"

text \<open>\<open>now + Duration::from_secs(s)\<close> for an optional duration.\<close>

definition until_of :: "instant \<Rightarrow> u64 option \<Rightarrow> instant option option" where
  "until_of now d = (case d of None \<Rightarrow> Some None | Some s \<Rightarrow> map_option Some (instant_add now (dur_from_secs s)))"

text \<open>The end of every handler: what the store answered becomes the handler's answer.\<close>

definition finish ::
  "'r store_env \<Rightarrow> system_time \<Rightarrow> client_id \<Rightarrow> stored_manual_policy option \<Rightarrow> 'p daemon_state \<Rightarrow> 'r store_backend \<Rightarrow>
   ('p, 'r) cmd_result" where
  "finish env now_sys c p st s =
     (case persist_manual env now_sys c p s of
        (Inl e, s') \<Rightarrow> (Inl (show_store_error e), st, s')
      | (Inr _, s') \<Rightarrow> (Inr (), st, s'))"

definition set_manual :: "client_id \<Rightarrow> manual_policy option \<Rightarrow> 'p daemon_state \<Rightarrow> 'p daemon_state" where
  "set_manual c m st =
     st\<lparr>ds_policies := hm_insert c ((hm_get_or (ds_policies st) c client_policy_default)\<lparr>cp_manual := m\<rparr>) (ds_policies st)\<rparr>"

definition old_manual :: "'p daemon_state \<Rightarrow> client_id \<Rightarrow> manual_policy" where
  "old_manual st c =
     (case cp_manual (hm_get_or (ds_policies st) c client_policy_default) of Some m \<Rightarrow> m | None \<Rightarrow> no_manual)"

definition throttle_cmd ::
  "'r store_env \<Rightarrow> instant \<Rightarrow> system_time \<Rightarrow> throttle_params \<Rightarrow> 'p daemon_state \<Rightarrow> 'r store_backend \<Rightarrow> ('p, 'r) cmd_result option" where
  "throttle_cmd env now now_sys p st s =
     (case parse_ref (th_client p) of
        Inl e \<Rightarrow> Some (Inl e, st, s)
      | Inr c \<Rightarrow>
          (case until_of now (th_duration_secs p) of
             None \<Rightarrow> None
           | Some until \<Rightarrow>
               let rate = (case th_rate p of Some r \<Rightarrow> r | None \<Rightarrow> 50);
                   manual = (old_manual st c)\<lparr>mp_throttle := Some rate, mp_until := until\<rparr>
               in Some (finish env now_sys c (Some (from_runtime manual now now_sys)) (set_manual c (Some manual) st) s)))"

definition block_cmd ::
  "'r store_env \<Rightarrow> instant \<Rightarrow> system_time \<Rightarrow> block_params \<Rightarrow> 'p daemon_state \<Rightarrow> 'r store_backend \<Rightarrow> ('p, 'r) cmd_result option" where
  "block_cmd env now now_sys p st s =
     (case parse_ref (bp_client p) of
        Inl e \<Rightarrow> Some (Inl e, st, s)
      | Inr c \<Rightarrow>
          (case until_of now (bp_duration_secs p) of
             None \<Rightarrow> None
           | Some until \<Rightarrow>
               let manual = (old_manual st c)\<lparr>mp_blocked := True, mp_until := until\<rparr>
               in Some (finish env now_sys c (Some (from_runtime manual now now_sys)) (set_manual c (Some manual) st) s)))"

definition clear_manual_throttle ::
  "'r store_env \<Rightarrow> instant \<Rightarrow> system_time \<Rightarrow> client_ref \<Rightarrow> 'p daemon_state \<Rightarrow> 'r store_backend \<Rightarrow> ('p, 'r) cmd_result" where
  "clear_manual_throttle env now now_sys cref st s =
     (case parse_ref cref of
        Inl e \<Rightarrow> (Inl e, st, s)
      | Inr c \<Rightarrow>
          (case Option.bind (hm_get (ds_policies st) c) cp_manual of
             None \<Rightarrow> (Inr (), st, s)
           | Some m \<Rightarrow>
               let m = m\<lparr>mp_throttle := None\<rparr>
               in if \<not> mp_blocked m then finish env now_sys c None (set_manual c None st) s
                  else finish env now_sys c (Some (from_runtime m now now_sys)) (set_manual c (Some m) st) s))"

definition clear_manual_block ::
  "'r store_env \<Rightarrow> instant \<Rightarrow> system_time \<Rightarrow> client_ref \<Rightarrow> 'p daemon_state \<Rightarrow> 'r store_backend \<Rightarrow> ('p, 'r) cmd_result" where
  "clear_manual_block env now now_sys cref st s =
     (case parse_ref cref of
        Inl e \<Rightarrow> (Inl e, st, s)
      | Inr c \<Rightarrow>
          (case Option.bind (hm_get (ds_policies st) c) cp_manual of
             None \<Rightarrow> (Inr (), st, s)
           | Some m \<Rightarrow>
               let m = m\<lparr>mp_blocked := False\<rparr>
               in if mp_throttle m = None then finish env now_sys c None (set_manual c None st) s
                  else finish env now_sys c (Some (from_runtime m now now_sys)) (set_manual c (Some m) st) s))"

section \<open>Dispatch\<close>

type_synonym ('p, 'r) reply = "response \<times> 'p daemon_state \<times> 'r store_backend"

definition answer :: "request_kind \<Rightarrow> ('p, 'r) cmd_result \<Rightarrow> ('p, 'r) reply" where
  "answer k r =
     (case r of
        (Inr _, st, s) \<Rightarrow> (response_ok k REmpty, st, s)
      | (Inl e, st, s) \<Rightarrow> (response_err k (error_invalid e), st, s))"

definition default_top :: top_params where
  "default_top = \<lparr>tp_limit = 10, tp_rule_id = None, tp_protocol = None, tp_metric = None\<rparr>"

definition dispatch ::
  "version_data \<Rightarrow> 'r store_env \<Rightarrow> instant \<Rightarrow> system_time \<Rightarrow> request \<Rightarrow> 'p daemon_state \<Rightarrow> 'r store_backend \<Rightarrow> ('p, 'r) reply option" where
  "dispatch v env now now_sys req st s =
     (case rq_kind req of
        KInfo \<Rightarrow> Some (response_ok KInfo (RInfo (info_result v st)), st, s)
      | KListRules \<Rightarrow> Some (response_ok KListRules (RRules (list_rules st)), st, s)
      | KListClients \<Rightarrow> Some (response_ok KListClients (RClients (list_clients now st)), st, s)
      | KTop \<Rightarrow>
          let params = (case rq_params req of Some (PTop p) \<Rightarrow> p | _ \<Rightarrow> default_top)
          in Some (response_ok KTop (RClients (top_cmd now st params)), st, s)
      | KThrottle \<Rightarrow>
          (case rq_params req of
             Some (PThrottle p) \<Rightarrow> map_option (answer KThrottle) (throttle_cmd env now now_sys p st s)
           | _ \<Rightarrow> Some (response_err KThrottle (error_invalid ''missing throttle params''), st, s))
      | KUnthrottle \<Rightarrow>
          (case rq_params req of
             Some (PClient p) \<Rightarrow> Some (answer KUnthrottle (clear_manual_throttle env now now_sys (clp_client p) st s))
           | _ \<Rightarrow> Some (response_err KUnthrottle (error_invalid ''missing client''), st, s))
      | KBlock \<Rightarrow>
          (case rq_params req of
             Some (PBlock p) \<Rightarrow> map_option (answer KBlock) (block_cmd env now now_sys p st s)
           | _ \<Rightarrow> Some (response_err KBlock (error_invalid ''missing block params''), st, s))
      | KUnblock \<Rightarrow>
          (case rq_params req of
             Some (PClient p) \<Rightarrow> Some (answer KUnblock (clear_manual_block env now now_sys (clp_client p) st s))
           | _ \<Rightarrow> Some (response_err KUnblock (error_invalid ''missing client''), st, s)))"

text \<open>\<open>execute\<close> of every command: the body is a JSON value; \<open>Inl\<close> is \<open>IpcError::Other\<close>.\<close>

definition execute ::
  "version_data \<Rightarrow> 'r store_env \<Rightarrow> instant \<Rightarrow> system_time \<Rightarrow> json \<Rightarrow> 'p daemon_state \<Rightarrow> 'r store_backend \<Rightarrow> (string + ('p, 'r) reply) option" where
  "execute v env now now_sys body st s =
     (case dec_request body of
        None \<Rightarrow> Some (Inl (js_error (se_json env)))
      | Some req \<Rightarrow> map_option Inr (dispatch v env now now_sys req st s))"

section \<open>References to clients\<close>

lemma parse_client_to_ref: "parse_ref (client_to_ref c) = Inr c"
  using parse_client_key [of c] by (simp add: parse_ref_def client_to_ref_def storage_key_def)

lemma client_to_ref_inject [simp]: "client_to_ref a = client_to_ref b \<longleftrightarrow> a = b"
  by (metis parse_client_to_ref sum.inject(2))

section \<open>Requests that end the daemon\<close>

text \<open>A request for a policy that would end beyond the last instant of the clock.\<close>

definition overflows :: "instant \<Rightarrow> request \<Rightarrow> bool" where
  "overflows now req \<longleftrightarrow>
     (\<exists>p c. rq_kind req = KThrottle \<and> rq_params req = Some (PThrottle p) \<and> parse_ref (th_client p) = Inr c \<and>
        until_of now (th_duration_secs p) = None) \<or>
     (\<exists>p c. rq_kind req = KBlock \<and> rq_params req = Some (PBlock p) \<and> parse_ref (bp_client p) = Inr c \<and>
        until_of now (bp_duration_secs p) = None)"

lemma cmd_None_iff:
  "throttle_cmd env now now_sys tp st s = None \<longleftrightarrow>
     (\<exists>c. parse_ref (th_client tp) = Inr c) \<and> until_of now (th_duration_secs tp) = None"
  "block_cmd env now now_sys bp st s = None \<longleftrightarrow>
     (\<exists>c. parse_ref (bp_client bp) = Inr c) \<and> until_of now (bp_duration_secs bp) = None"
  by (auto simp: throttle_cmd_def block_cmd_def Let_def split: sum.splits option.splits)

lemma dispatch_None_iff: "dispatch v env now now_sys req st s = None \<longleftrightarrow> overflows now req"
  by (cases "rq_kind req"; cases "rq_params req"; cases "the (rq_params req)")
     (auto simp: dispatch_def overflows_def Let_def cmd_None_iff simp del: not_None_eq)

definition endless_throttle :: "client_id \<Rightarrow> request" where
  "endless_throttle c =
     request_with_params KThrottle (PThrottle \<lparr>th_client = client_to_ref c, th_rate = None, th_duration_secs = Some (- 1)\<rparr>)"

text \<open>
  C32: a request makes its handler panic, and with it the daemon end, exactly when it decodes to a policy for
  a client that would end beyond the last instant of the clock. A throttle for \<open>2 ^ 64 - 1\<close> seconds does so
  for every client, in every state and at every time.
\<close>

theorem request_panics_iff:
  "(execute v env now now_sys body st s = None \<longleftrightarrow> (\<exists>req. dec_request body = Some req \<and> overflows now req)) \<and>
   execute v env now now_sys (enc_request (endless_throttle c)) st s = None"
proof -
  have iff: "execute v env now now_sys body st s = None \<longleftrightarrow> (\<exists>req. dec_request body = Some req \<and> overflows now req)" for body
    by (auto simp: execute_def dispatch_None_iff split: option.splits)
  have "until_of now (Some (- 1)) = None"
    by (simp add: until_of_def instant_add_def dur_from_secs_def instant_limit_def nanos_per_sec_def unsigned_minus_1_eq_mask
        mask_eq_exp_minus_1)
  then have "overflows now (endless_throttle c)"
    by (simp add: overflows_def endless_throttle_def request_with_params_def parse_client_to_ref)
  then have "execute v env now now_sys (enc_request (endless_throttle c)) st s = None"
    by (simp add: execute_def dec_enc_request dispatch_None_iff endless_throttle_def request_with_params_def)
  then show ?thesis using iff by blast
qed

section \<open>Effect of the commands\<close>

lemma finish_parts:
  "fst (snd (finish env now_sys c p st s)) = st"
  "snd (snd (finish env now_sys c p st s)) = snd (persist_manual env now_sys c p s)"
  "fst (finish env now_sys c p st s) = Inr () \<longleftrightarrow> fst (persist_manual env now_sys c p s) = Inr ()"
  by (auto simp: finish_def split: prod.splits sum.splits)

lemma set_manual_get:
  "hm_get (ds_policies (set_manual c m st)) c' =
     (if c' = c then Some ((hm_get_or (ds_policies st) c client_policy_default)\<lparr>cp_manual := m\<rparr>)
      else hm_get (ds_policies st) c')"
  by (simp add: set_manual_def hm_simps)

lemma set_manual_rest: "set_manual c m st = st\<lparr>ds_policies := ds_policies (set_manual c m st)\<rparr>"
  by (simp add: set_manual_def)

text \<open>
  A throttle command for a client it can parse gives that client a manual policy with the
  rate asked for, 50 by default, which replaces the expiry but keeps a block; it leaves the
  automatic policy and every other client alone, and hands the same policy to the store. The
  in-memory change stands even when the store fails, and no bound is put on the rate.
\<close>

lemma throttle_cmd_effect:
  assumes "throttle_cmd env now now_sys p st s = Some (r, st', s')" "parse_ref (th_client p) = Inr c"
  shows "\<exists>until. until_of now (th_duration_secs p) = Some until \<and>
     (let m = \<lparr>mp_throttle = Some (case th_rate p of Some x \<Rightarrow> x | None \<Rightarrow> 50),
               mp_blocked = mp_blocked (old_manual st c), mp_until = until\<rparr>
      in st' = set_manual c (Some m) st \<and>
         s' = snd (persist_manual env now_sys c (Some (from_runtime m now now_sys)) s) \<and>
         (r = Inr () \<longleftrightarrow> fst (persist_manual env now_sys c (Some (from_runtime m now now_sys)) s) = Inr ()))"
proof -
  obtain until where u: "until_of now (th_duration_secs p) = Some until"
    using assms by (auto simp: throttle_cmd_def split: option.splits)
  let ?m = "\<lparr>mp_throttle = Some (case th_rate p of Some x \<Rightarrow> x | None \<Rightarrow> 50),
               mp_blocked = mp_blocked (old_manual st c), mp_until = until\<rparr>"
  have m: "?m = (old_manual st c)\<lparr>mp_throttle := Some (case th_rate p of Some x \<Rightarrow> x | None \<Rightarrow> 50), mp_until := until\<rparr>"
    by (cases "old_manual st c") simp
  have "finish env now_sys c (Some (from_runtime ?m now now_sys)) (set_manual c (Some ?m) st) s = (r, st', s')"
    unfolding m using assms u by (simp add: throttle_cmd_def Let_def)
  then show ?thesis
    using u finish_parts [of env now_sys c "Some (from_runtime ?m now now_sys)" "set_manual c (Some ?m) st" s]
    by (simp add: Let_def)
qed

definition sample_client :: client_id where
  "sample_client = client_new (Mac 1 2 3 4 5 6) (V4 (Ipv4 10 0 0 1))"

definition sample_env :: "sample_server store_env" where
  "sample_env = \<lparr>se_redis = sample_redis, se_json = sample_json\<rparr>"

definition quiet_state :: "unit daemon_state" where
  "quiet_state = daemon_state_new Enforce ''any''
     \<lparr>lc_daemon = daemon_config_default, lc_sets = sets_config_default, lc_rules = rule_set_default\<rparr>"

lemma throttle_cmd_effect_example:
  "\<exists>r s'. throttle_cmd sample_env 7 0
       \<lparr>th_client = client_to_ref sample_client, th_rate = Some 200, th_duration_secs = None\<rparr> quiet_state
       (StMemory memory_store_default)
     = Some (r, set_manual sample_client
         (Some \<lparr>mp_throttle = Some 200, mp_blocked = False, mp_until = None\<rparr>) quiet_state, s')"
proof -
  let ?p = "\<lparr>th_client = client_to_ref sample_client, th_rate = Some 200, th_duration_secs = None\<rparr>"
  have ref: "parse_ref (th_client ?p) = Inr sample_client" by (simp add: parse_client_to_ref)
  have "throttle_cmd sample_env 7 0 ?p quiet_state (StMemory memory_store_default) \<noteq> None"
    by (simp add: throttle_cmd_def parse_client_to_ref until_of_def Let_def)
  then obtain r st' s' where x: "throttle_cmd sample_env 7 0 ?p quiet_state (StMemory memory_store_default) = Some (r, st', s')"
    by (cases "throttle_cmd sample_env 7 0 ?p quiet_state (StMemory memory_store_default)") auto
  have "mp_blocked (old_manual quiet_state sample_client) = False"
    by (simp add: old_manual_def quiet_state_def daemon_state_new_def hm_get_or_def hm_simps
        client_policy_default_def no_manual_def)
  with throttle_cmd_effect [OF x ref] x show ?thesis
    by (auto simp: until_of_def Let_def)
qed

text \<open>The merged action of a client right after its manual policy was set.\<close>

lemma merge_set_manual:
  assumes "hm_get (ds_policies (set_manual c (Some m) st)) c = Some p" "\<not> manual_expired m t"
  shows "is_blocked (merge_policy p t) \<longleftrightarrow> mp_blocked m \<or> auto_blocks p t"
    and "active_manual p t = Some m"
proof -
  have p: "cp_manual p = Some m" using assms(1) by (auto simp: set_manual_get)
  then show act: "active_manual p t = Some m" using assms(2) by (simp add: active_manual_def filter_opt_def)
  show "is_blocked (merge_policy p t) \<longleftrightarrow> mp_blocked m \<or> auto_blocks p t"
    by (simp add: merge_policy_blocked manual_blocks_def act)
qed

text \<open>
  C22: once the block handler has run for a client it can parse, the client is blocked until
  the duration asked for has passed, and for ever when none was given, whatever else is in its
  policy; the unblock handler then lifts the block and keeps a throttle.
\<close>

theorem block_then_unblock:
  assumes "block_cmd env now now_sys p st s = Some (r, st', s')" "parse_ref (bp_client p) = Inr c"
  shows "\<exists>until q. until_of now (bp_duration_secs p) = Some until \<and> hm_get (ds_policies st') c = Some q \<and>
     (\<forall>t. (case until of None \<Rightarrow> True | Some u \<Rightarrow> t < u) \<longrightarrow> is_blocked (merge_policy q t)) \<and>
     (\<exists>r'' st'' s'' q''. clear_manual_block env now now_sys (bp_client p) st' s' = (r'', st'', s'') \<and>
        hm_get (ds_policies st'') c = Some q'' \<and>
        (\<forall>t. is_blocked (merge_policy q'' t) \<longrightarrow> auto_blocks q'' t) \<and>
        (case cp_manual q'' of None \<Rightarrow> mp_throttle (old_manual st c) = None
           | Some m \<Rightarrow> mp_throttle m = mp_throttle (old_manual st c)))"
proof -
  obtain until where u: "until_of now (bp_duration_secs p) = Some until"
    using assms by (auto simp: block_cmd_def split: option.splits)
  let ?m = "(old_manual st c)\<lparr>mp_blocked := True, mp_until := until\<rparr>"
  have st': "st' = set_manual c (Some ?m) st"
    using assms u finish_parts(1) [of env now_sys c "Some (from_runtime ?m now now_sys)" "set_manual c (Some ?m) st" s]
    by (simp add: block_cmd_def Let_def)
  obtain q where q: "hm_get (ds_policies st') c = Some q" "cp_manual q = Some ?m"
    by (simp add: st' set_manual_get)
  have blocked: "is_blocked (merge_policy q t)" if "case until of None \<Rightarrow> True | Some x \<Rightarrow> t < x" for t
  proof -
    have "\<not> manual_expired ?m t" using that by (auto simp: manual_expired_def split: option.splits)
    then show ?thesis using merge_set_manual(1) [of c ?m st q t] q(1) by (simp add: st')
  qed
  let ?m2 = "?m\<lparr>mp_blocked := False\<rparr>"
  let ?new = "if mp_throttle ?m2 = None then None else Some ?m2"
  obtain r'' st'' s'' where clr: "clear_manual_block env now now_sys (bp_client p) st' s' = (r'', st'', s'')"
    by (metis prod_cases3)
  have "fst (snd (clear_manual_block env now now_sys (bp_client p) st' s')) = set_manual c ?new st'"
    using assms(2) q by (simp add: clear_manual_block_def Let_def finish_parts)
  then have st'': "st'' = set_manual c ?new st'" by (simp add: clr)
  obtain q'' where q'': "hm_get (ds_policies st'') c = Some q''" "cp_manual q'' = ?new"
    by (simp add: st'' set_manual_get)
  have "\<not> manual_blocks q'' t" for t
    by (auto simp: manual_blocks_def active_manual_def filter_opt_def q''(2) split: if_splits)
  then have "is_blocked (merge_policy q'' t) \<Longrightarrow> auto_blocks q'' t" for t by (simp add: merge_policy_blocked)
  moreover have "case cp_manual q'' of None \<Rightarrow> mp_throttle (old_manual st c) = None
      | Some m \<Rightarrow> mp_throttle m = mp_throttle (old_manual st c)"
    by (simp add: q''(2))
  ultimately show ?thesis using u q(1) blocked clr q''(1) by blast
qed

theorem block_then_unblock_witness:
  "\<exists>r st' s' q. block_cmd sample_env 7 0 \<lparr>bp_client = client_to_ref sample_client, bp_duration_secs = None\<rparr>
       quiet_state (StMemory memory_store_default) = Some (r, st', s') \<and>
     hm_get (ds_policies st') sample_client = Some q \<and> is_blocked (merge_policy q 1000)"
proof -
  let ?p = "\<lparr>bp_client = client_to_ref sample_client, bp_duration_secs = None\<rparr>"
  have "block_cmd sample_env 7 0 ?p quiet_state (StMemory memory_store_default) \<noteq> None"
    by (simp add: block_cmd_def parse_client_to_ref until_of_def Let_def)
  then obtain r st' s' where x: "block_cmd sample_env 7 0 ?p quiet_state (StMemory memory_store_default) = Some (r, st', s')"
    by (cases "block_cmd sample_env 7 0 ?p quiet_state (StMemory memory_store_default)") auto
  have "parse_ref (bp_client ?p) = Inr sample_client" by (simp add: parse_client_to_ref)
  from block_then_unblock [OF x this] x show ?thesis by (auto simp: until_of_def)
qed

text \<open>
  Every block, unblock and unthrottle request that a client sends, whatever its
  parameters, is refused by the daemon with an \<open>invalid\<close> error once it has been through the
  encoding, and neither the state nor the store changes.
\<close>

lemma wire_confusion_refused:
  "rq_kind req = KBlock \<or> rq_kind req = KUnblock \<or> rq_kind req = KUnthrottle \<longrightarrow>
   (\<exists>resp. execute v env now now_sys (enc_request req) st s = Some (Inr (resp, st, s)) \<and>
      rp_result resp = None \<and> map_option eb_code (rp_error resp) = Some ''invalid'')"
proof -
  have recv: "as_received y \<noteq> PBlock b" "as_received y \<noteq> PClient q" for y b q
    by (cases y; simp)+
  show ?thesis
    by (auto simp: execute_def dec_enc_request dispatch_def response_err_def error_invalid_def recv
        split: option.splits params.splits)
qed

lemma wire_confusion_refused_example:
  "\<exists>resp. execute (version_info None None) sample_env 7 0
     (enc_request (request_with_params KBlock
        (PBlock \<lparr>bp_client = client_to_ref sample_client, bp_duration_secs = None\<rparr>)))
     quiet_state (StMemory memory_store_default) = Some (Inr (resp, quiet_state, StMemory memory_store_default)) \<and>
     rp_result resp = None"
  using wire_confusion_refused [of "request_with_params KBlock
        (PBlock \<lparr>bp_client = client_to_ref sample_client, bp_duration_secs = None\<rparr>)" "version_info None None"
        sample_env 7 0 quiet_state "StMemory memory_store_default"]
  by (auto simp: request_with_params_def)

text \<open>
  Throttling a blocked client for a while replaces the expiry of its block too: a client
  blocked for ever is no longer blocked, nor throttled, once the throttle runs out.
\<close>

lemma throttle_ends_block:
  assumes "throttle_cmd env now now_sys p st s = Some (r, st', s')" "parse_ref (th_client p) = Inr c"
    and "th_duration_secs p = Some d"
    and "hm_get (ds_policies st) c = Some \<lparr>cp_manual = Some \<lparr>mp_throttle = x, mp_blocked = True, mp_until = None\<rparr>, cp_auto = None\<rparr>"
  shows "\<exists>q. hm_get (ds_policies st') c = Some q \<and>
     (\<forall>t. now \<le> t \<and> t < now + dur_from_secs d \<longrightarrow> merge_policy q t = EffBlock) \<and>
     (\<forall>t. now + dur_from_secs d \<le> t \<longrightarrow> merge_policy q t = EffNone)"
proof -
  have u: "until_of now (th_duration_secs p) = Some (Some (now + dur_from_secs d))"
    using assms by (auto simp: throttle_cmd_def until_of_def instant_add_def split: if_splits)
  let ?m = "(old_manual st c)\<lparr>mp_throttle := Some (case th_rate p of Some x \<Rightarrow> x | None \<Rightarrow> 50),
      mp_until := Some (now + dur_from_secs d)\<rparr>"
  have st': "st' = set_manual c (Some ?m) st"
    using assms(1,2) u finish_parts(1) [of env now_sys c "Some (from_runtime ?m now now_sys)" "set_manual c (Some ?m) st" s]
    by (simp add: throttle_cmd_def Let_def)
  have "?m = \<lparr>mp_throttle = Some (case th_rate p of Some x \<Rightarrow> x | None \<Rightarrow> 50), mp_blocked = True,
      mp_until = Some (now + dur_from_secs d)\<rparr>"
    by (simp add: old_manual_def assms(4) hm_get_or_def)
  then have get: "hm_get (ds_policies st') c =
      Some \<lparr>cp_manual = Some \<lparr>mp_throttle = Some (case th_rate p of Some x \<Rightarrow> x | None \<Rightarrow> 50), mp_blocked = True,
        mp_until = Some (now + dur_from_secs d)\<rparr>, cp_auto = None\<rparr>"
    using assms(4) by (simp add: st' set_manual_get hm_get_or_def)
  then show ?thesis
    by (auto simp: merge_policy_def merge_auto_def active_manual_def active_auto_def filter_opt_def manual_expired_def)
qed

definition blocked_state :: "unit daemon_state" where
  "blocked_state = quiet_state\<lparr>ds_policies :=
     [(sample_client, \<lparr>cp_manual = Some \<lparr>mp_throttle = None, mp_blocked = True, mp_until = None\<rparr>, cp_auto = None\<rparr>)]\<rparr>"

lemma throttle_ends_block_example:
  "\<exists>r st' s' q. throttle_cmd sample_env 7 0
       \<lparr>th_client = client_to_ref sample_client, th_rate = None, th_duration_secs = Some 1\<rparr> blocked_state
       (StMemory memory_store_default) = Some (r, st', s') \<and>
     hm_get (ds_policies st') sample_client = Some q \<and> merge_policy q 1000000007 = EffNone"
proof -
  let ?p = "\<lparr>th_client = client_to_ref sample_client, th_rate = None, th_duration_secs = Some 1\<rparr>"
  have "throttle_cmd sample_env 7 0 ?p blocked_state (StMemory memory_store_default) \<noteq> None"
    by (simp add: throttle_cmd_def parse_client_to_ref until_of_def instant_add_def dur_from_secs_def
        nanos_per_sec_def instant_limit_def Let_def)
  then obtain r st' s' where x: "throttle_cmd sample_env 7 0 ?p blocked_state (StMemory memory_store_default) = Some (r, st', s')"
    by (cases "throttle_cmd sample_env 7 0 ?p blocked_state (StMemory memory_store_default)") auto
  have "parse_ref (th_client ?p) = Inr sample_client" "th_duration_secs ?p = Some 1"
    by (simp_all add: parse_client_to_ref)
  moreover have "hm_get (ds_policies blocked_state) sample_client =
      Some \<lparr>cp_manual = Some \<lparr>mp_throttle = None, mp_blocked = True, mp_until = None\<rparr>, cp_auto = None\<rparr>"
    by (simp add: blocked_state_def hm_simps)
  ultimately show ?thesis
    using throttle_ends_block [OF x, of sample_client 1 None] x
    by (simp add: dur_from_secs_def nanos_per_sec_def) blast
qed

section \<open>Listings\<close>

definition known_clients :: "'p daemon_state \<Rightarrow> client_id set" where
  "known_clients st = set (hm_keys (ds_windows st)) \<union> set (hm_keys (ds_policies st)) \<union>
     set (hm_keys (snapshot_clients (ds_counters st)))"

lemma scored_rows_clients:
  "map sc_client (scored_rows st rules) =
     hm_keys (ds_windows st) @ filter (\<lambda>c. c \<notin> set (hm_keys (ds_windows st))) (hm_keys (ds_policies st)) @
     filter (\<lambda>c. c \<notin> set (hm_keys (ds_windows st)) \<and> c \<notin> set (hm_keys (ds_policies st)))
       (hm_keys (snapshot_clients (ds_counters st)))"
proof -
  have "map (sc_client \<circ> (\<lambda>(c, win). case score_client win rules of (best, hot, obs) \<Rightarrow>
      \<lparr>sc_client = c, sc_best = best, sc_hot = hot, sc_obs = obs\<rparr>)) m = map fst m" for m
    by (induction m) (auto split: prod.splits)
  moreover have "filter (\<lambda>c. c \<notin> A \<and> (c \<in> B \<longrightarrow> c \<in> A)) xs = filter (\<lambda>c. c \<notin> A \<and> c \<notin> B) xs" for A B and xs :: "client_id list"
    by (rule filter_cong) (auto simp: image_iff)
  ultimately show ?thesis by (simp add: scored_rows_def Let_def hm_keys_def o_def)
qed

lemma scored_rows_distinct:
  assumes "ds_wf st"
  shows "distinct (map sc_client (scored_rows st rules))"
    and "set (map sc_client (scored_rows st rules)) = known_clients st"
proof -
  have "distinct (hm_keys (ds_windows st))" "distinct (hm_keys (ds_policies st))"
    "distinct (hm_keys (snapshot_clients (ds_counters st)))"
    using assms by (simp_all add: ds_wf_def hm_wf_def cs_wf_def snapshot_clients_def)
  then show "distinct (map sc_client (scored_rows st rules))" by (auto simp: scored_rows_clients)
  show "set (map sc_client (scored_rows st rules)) = known_clients st"
    unfolding scored_rows_clients by (auto simp: known_clients_def)
qed

text \<open>
  \<open>top\<close> ranks hot clients before the others and larger values before smaller ones, ties
  by address. It lists no client twice; without a limit it lists every client the daemon knows,
  and with one the first of the ranking, so that nothing left out ranks above a listed row.
\<close>

lemma top_rows_ranked:
  assumes "ds_wf st"
    and "rules = filter (rule_matches params) (rs_rules (state_rules st))"
  shows "sorted (map scored_key (top_rows st params)) \<and>
     distinct (map sc_client (top_rows st params)) \<and>
     (if tp_limit params = 0 then set (map sc_client (top_rows st params)) = known_clients st
      else length (top_rows st params) = min (unat (tp_limit params)) (card (known_clients st))) \<and>
     (\<forall>x \<in> set (top_rows st params). \<forall>y \<in> set (scored_rows st rules) - set (top_rows st params).
        scored_key x \<le> scored_key y)"
proof -
  define rows where "rows = sort_key scored_key (scored_rows st rules)"
  define n where "n = (if tp_limit params > 0 then unat (tp_limit params) else length rows)"
  have top: "top_rows st params = take n rows"
    by (simp add: top_rows_def Let_def rows_def n_def assms(2))
  have sorted: "sorted (map scored_key rows)" by (simp add: rows_def)
  have set: "set rows = set (scored_rows st rules)" by (simp add: rows_def)
  have "mset (map sc_client rows) = mset (map sc_client (scored_rows st rules))"
    unfolding mset_map rows_def by simp
  then have dist: "distinct (map sc_client rows)"
    using scored_rows_distinct(1) [OF assms(1), of rules] by (metis mset_eq_imp_distinct_iff)
  have known: "set (map sc_client rows) = known_clients st"
    using scored_rows_distinct(2) [OF assms(1), of rules] set by simp
  have len: "length rows = card (known_clients st)"
    using distinct_card [OF dist] known by simp
  have zero: "tp_limit params > 0 \<longleftrightarrow> tp_limit params \<noteq> 0" by (simp add: word_gt_0)
  have "sorted (map scored_key (take n rows @ drop n rows))" using sorted by simp
  then have cut: "\<forall>x \<in> set (take n rows). \<forall>y \<in> set (drop n rows). scored_key x \<le> scored_key y"
    unfolding map_append sorted_append by auto
  have rest: "set (scored_rows st rules) - set (take n rows) \<subseteq> set (drop n rows)"
    using set by (metis Diff_subset_conv append_take_drop_id set_append subset_refl)
  show ?thesis
    unfolding top
  proof (intro conjI)
    show "sorted (map scored_key (take n rows))" using sorted by (simp add: take_map [symmetric] sorted_wrt_take)
    show "distinct (map sc_client (take n rows))" using dist by (simp add: take_map [symmetric])
    show "if tp_limit params = 0 then set (map sc_client (take n rows)) = known_clients st
      else length (take n rows) = min (unat (tp_limit params)) (card (known_clients st))"
      using known len zero by (simp add: n_def min.commute)
    show "\<forall>x \<in> set (take n rows). \<forall>y \<in> set (scored_rows st rules) - set (take n rows). scored_key x \<le> scored_key y"
      using cut rest by blast
  qed
qed

lemma top_rows_ranked_example:
  "set (map sc_client (top_rows quiet_state \<lparr>tp_limit = 0, tp_rule_id = None, tp_protocol = None, tp_metric = None\<rparr>)) =
     known_clients quiet_state"
proof -
  have "ds_wf quiet_state" unfolding quiet_state_def
    by (rule ds_wf_new) (simp add: rs_wf_def rule_set_default_def)
  from top_rows_ranked [OF this refl, of "\<lparr>tp_limit = 0, tp_rule_id = None, tp_protocol = None, tp_metric = None\<rparr>"]
  show ?thesis by simp
qed

lemma score_loop_eq:
  "score_loop win rules best hot =
     (fold max (map (\<lambda>r. rw_sum win (r_id r) (r_metric r) (window_secs (r_window r))) rules) best,
      hot \<or> (\<exists>r \<in> set rules. let v = rw_sum win (r_id r) (r_metric r) (window_secs (r_window r))
               in v \<ge> r_min_threshold r \<and> v > 0),
      map (\<lambda>r. \<lparr>vw_rule_id = r_id r, vw_value = rw_sum win (r_id r) (r_metric r) (window_secs (r_window r)),
                vw_limit = r_limit r, vw_action = action_to_wire (r_action r)\<rparr>) rules)"
  by (induction win rules best hot rule: score_loop.induct) (auto simp: Let_def max.commute)

lemma score_client_ids:
  "map vw_rule_id (snd (snd (score_client win rules))) = map r_id rules"
  by (simp add: score_client_def score_loop_eq o_def)

text \<open>
  In the answer to \<open>top\<close> every row has one observation per column, in the order of the
  columns, zeros included, and the columns are the rules that match the filters. What a row
  shows for a client with windows is the window sums of those rules, and the row is hot exactly
  when one of them is positive and has reached its threshold.
\<close>

lemma top_columns_aligned:
  "(\<forall>e \<in> set (cl_clients (top_cmd now st params)).
      map vw_rule_id (ce_violations e) = map tc_rule_id (cl_columns (top_cmd now st params))) \<and>
   (\<forall>c win. (c, win) \<in> set (ds_windows st) \<longrightarrow>
      (\<exists>row \<in> set (scored_rows st (filter (rule_matches params) (rs_rules (state_rules st)))).
         sc_client row = c \<and>
         map vw_value (sc_obs row) =
           map (\<lambda>r. rw_sum win (r_id r) (r_metric r) (window_secs (r_window r)))
             (filter (rule_matches params) (rs_rules (state_rules st))) \<and>
         (sc_hot row \<longleftrightarrow> (\<exists>r \<in> set (filter (rule_matches params) (rs_rules (state_rules st))).
            0 < rw_sum win (r_id r) (r_metric r) (window_secs (r_window r)) \<and>
            r_min_threshold r \<le> rw_sum win (r_id r) (r_metric r) (window_secs (r_window r))))))"
proof -
  let ?rules = "filter (rule_matches params) (rs_rules (state_rules st))"
  have ids: "map vw_rule_id (sc_obs row) = map r_id ?rules" if "row \<in> set (scored_rows st ?rules)" for row
    using that score_client_ids [of _ ?rules]
    by (auto simp: scored_rows_def zero_observations_def Let_def o_def split: prod.splits) (metis snd_conv)+
  have "set (top_rows st params) \<subseteq> set (scored_rows st ?rules)"
    by (auto simp: top_rows_def Let_def dest: in_set_takeD)
  then have 1: "\<forall>e \<in> set (cl_clients (top_cmd now st params)).
      map vw_rule_id (ce_violations e) = map tc_rule_id (cl_columns (top_cmd now st params))"
    using ids by (auto simp: top_cmd_def Let_def o_def)
  have "\<exists>row \<in> set (scored_rows st ?rules). sc_client row = c \<and>
         map vw_value (sc_obs row) = map (\<lambda>r. rw_sum win (r_id r) (r_metric r) (window_secs (r_window r))) ?rules \<and>
         (sc_hot row \<longleftrightarrow> (\<exists>r \<in> set ?rules. 0 < rw_sum win (r_id r) (r_metric r) (window_secs (r_window r)) \<and>
            r_min_threshold r \<le> rw_sum win (r_id r) (r_metric r) (window_secs (r_window r))))"
    if "(c, win) \<in> set (ds_windows st)" for c win
  proof -
    let ?row = "case score_client win ?rules of (best, hot, obs) \<Rightarrow>
        \<lparr>sc_client = c, sc_best = best, sc_hot = hot, sc_obs = obs\<rparr>"
    have "?row \<in> set (scored_rows st ?rules)"
      using that by (force simp: scored_rows_def Let_def)
    then show ?thesis
      by (rule bexI [rotated]) (auto simp: score_client_def score_loop_eq Let_def o_def)
  qed
  with 1 show ?thesis by blast
qed

lemma top_columns_aligned_example:
  "\<forall>e \<in> set (cl_clients (top_cmd 7 blocked_state default_top)).
     map vw_rule_id (ce_violations e) = map tc_rule_id (cl_columns (top_cmd 7 blocked_state default_top))"
  using top_columns_aligned [of 7 blocked_state default_top] by blast

text \<open>
  \<open>listClients\<close> has exactly one entry for each client with a policy or with counters; an
  entry's reference is one that the other commands parse back to that client.
\<close>

lemma list_clients_complete:
  assumes "ds_wf st"
  shows "\<exists>cs. map ce_client (cl_clients (list_clients now st)) = map client_to_ref cs \<and> distinct cs \<and>
     set cs = set (hm_keys (ds_policies st)) \<union> set (hm_keys (snapshot_clients (ds_counters st))) \<and>
     map parse_ref (map ce_client (cl_clients (list_clients now st))) = map Inr cs"
proof -
  let ?stats = "snapshot_clients (ds_counters st)"
  let ?rest = "filter (\<lambda>(c, s). c \<notin> set (hm_keys (ds_policies st))) ?stats"
  let ?cs = "hm_keys (ds_policies st) @ map fst ?rest"
  have refs: "map ce_client (cl_clients (list_clients now st)) = map client_to_ref ?cs"
    by (simp add: list_clients_def Let_def hm_keys_def o_def case_prod_beta)
  have fst_rest: "map fst ?rest = filter (\<lambda>c. c \<notin> set (hm_keys (ds_policies st))) (hm_keys ?stats)"
    unfolding hm_keys_def filter_map o_def by (rule arg_cong [where f = "map fst"], rule filter_cong) (auto simp: image_iff)
  have "distinct (hm_keys (ds_policies st))" "distinct (hm_keys ?stats)"
    using assms by (simp_all add: ds_wf_def hm_wf_def cs_wf_def snapshot_clients_def)
  then have "distinct ?cs" unfolding fst_rest by auto
  moreover have "set ?cs = set (hm_keys (ds_policies st)) \<union> set (hm_keys ?stats)" unfolding fst_rest by auto
  moreover have "map parse_ref (map client_to_ref ?cs) = map Inr ?cs" by (simp add: parse_client_to_ref)
  ultimately show ?thesis using refs by metis
qed

lemma list_clients_complete_example:
  "\<exists>cs. map ce_client (cl_clients (list_clients 7 quiet_state)) = map client_to_ref cs \<and> distinct cs"
proof -
  have "ds_wf quiet_state" unfolding quiet_state_def
    by (rule ds_wf_new) (simp add: rs_wf_def rule_set_default_def)
  from list_clients_complete [OF this] show ?thesis by blast
qed

end
