(* ===== verification/Ipc_Client.thy ===== *)
theory Ipc_Client
  imports Ipc_Server
begin

text \<open>
  The two ends of the socket: the routing and the error replies of \<open>crates/microwaf/src/ipc.rs\<close>
  around \<open>execute\<close>, and the client library \<open>crates/mw-client\<close>. Frames are written and read by the shared
  daemon crate, which \<open>mw-proto/src/framing.rs\<close> re-exports; its functions are parameters here, and may refuse a message as too
  large. With the daemon at the other end, a call of the library returns what the handler computed.
\<close>

section \<open>The server's end\<close>

text \<open>\<open>MwHooks\<close>: what is answered when no command runs to its end.\<close>

definition hook_unknown :: response where
  "hook_unknown = response_err KInfo (error_invalid ''unknown type'')"

definition hook_error :: "string \<Rightarrow> response" where
  "hook_error e = response_err KInfo (error_invalid e)"

datatype reject_reason = RejectAuth | RejectBusy | RejectOther

definition hook_reject :: "reject_reason \<Rightarrow> response option" where
  "hook_reject reason =
     (if reason = RejectAuth then Some (response_err KInfo (error_forbidden ''peer user not in allowlist'')) else None)"

type_synonym ('p, 'r) world = "'p daemon_state \<times> 'r store_backend"

datatype frame_error = UnexpectedEof | TooLarge | BadShape

text \<open>
  The shared daemon crate's part of a session: \<open>write_frame\<close> and \<open>read_frame\<close> as the client calls them,
  the server's \<open>sess_read\<close> of a request and \<open>sess_reply\<close>, with the text of the error of a reply that
  cannot be written, how its router reads the type of a body, and how its errors print.
\<close>

record 'f ipc_lib =
  write_frame :: "json \<Rightarrow> frame_error + 'f"
  read_frame :: "'f \<Rightarrow> frame_error + json"
  sess_read :: "'f \<Rightarrow> json option"
  sess_reply :: "json \<Rightarrow> string + 'f"
  type_of :: "json \<Rightarrow> string option"
  error_text :: "string \<Rightarrow> string"

text \<open>The hooks drop an error of their own reply.\<close>

definition hook_reply :: "'f ipc_lib \<Rightarrow> response \<Rightarrow> 'f option" where
  "hook_reply lib resp = (case sess_reply lib (enc_response resp) of Inr f \<Rightarrow> Some f | Inl _ \<Rightarrow> None)"

text \<open>
  One message of a session. \<open>None\<close> for the reply is a connection that ends without one: at a
  panic of the handler, which ends the daemon and leaves the state and the store as they were, or when no
  reply could be written. When the response
  itself cannot be written the command has had its effect, and the error hook answers.
\<close>

definition serve_message ::
  "'f ipc_lib \<Rightarrow> version_data \<Rightarrow> 'r store_env \<Rightarrow> instant \<Rightarrow> system_time \<Rightarrow> json \<Rightarrow> ('p, 'r) world \<Rightarrow>
   'f option \<times> ('p, 'r) world" where
  "serve_message lib v env now now_sys body w =
     (case w of (st, s) \<Rightarrow>
        case type_of lib body of
          None \<Rightarrow> (hook_reply lib hook_unknown, w)
        | Some name \<Rightarrow>
            if name \<notin> set mw_router then (hook_reply lib hook_unknown, w)
            else (case execute v env now now_sys body st s of
                    None \<Rightarrow> (None, w)
                  | Some (Inl e) \<Rightarrow> (hook_reply lib (hook_error (error_text lib e)), w)
                  | Some (Inr (resp, st', s')) \<Rightarrow>
                      (case sess_reply lib (enc_response resp) of
                         Inr f \<Rightarrow> (Some f, (st', s'))
                       | Inl e \<Rightarrow> (hook_reply lib (hook_error e), (st', s')))))"

section \<open>The client library\<close>

text \<open>
  \<open>Unexpected\<close> carries the debug text of what arrived; here it carries what arrived. The texts of
  framing and connection errors belong to the libraries below.
\<close>

datatype unexpected = MissingResult | OtherBody result_body

datatype client_error =
    CeFrame frame_error
  | CeServer string string
  | CeUnexpected unexpected
  | CeConnect

definition from_body :: "error_body \<Rightarrow> client_error" where
  "from_body e = CeServer (eb_code e) (eb_message e)"

text \<open>\<open>Client\<close>: where the daemon listens and how long a read or a write may take.\<close>

record mw_client =
  mc_socket :: string
  mc_timeout :: duration

definition DEFAULT_TIMEOUT :: duration where
  "DEFAULT_TIMEOUT = 10 * nanos_per_sec"

definition with_socket :: "string \<Rightarrow> mw_client" where
  "with_socket socket = \<lparr>mc_socket = socket, mc_timeout = DEFAULT_TIMEOUT\<rparr>"

text \<open>\<open>connect\<close>; \<open>dial\<close> opens the stream to a socket and sets both its timeouts.\<close>

definition connect :: "(string \<Rightarrow> duration \<Rightarrow> 'c) \<Rightarrow> mw_client \<Rightarrow> 'c" where
  "connect dial c = dial (mc_socket c) (mc_timeout c)"

lemma connect_with_socket [simp]: "connect dial ((with_socket socket)\<lparr>mc_timeout := t\<rparr>) = dial socket t"
  by (simp add: connect_def with_socket_def)

text \<open>A channel: connect, write the request's frame, read the response's frame.\<close>

type_synonym 'w channel = "json \<Rightarrow> 'w \<Rightarrow> (client_error + json) \<times> 'w"

definition round_trip :: "'w channel \<Rightarrow> request \<Rightarrow> 'w \<Rightarrow> (client_error + result_body) \<times> 'w" where
  "round_trip ch req w =
     (case ch (enc_request req) w of
        (Inl e, w) \<Rightarrow> (Inl e, w)
      | (Inr j, w) \<Rightarrow>
          (case dec_response j of
             None \<Rightarrow> (Inl (CeFrame BadShape), w)
           | Some resp \<Rightarrow>
               (case rp_error resp of
                  Some err \<Rightarrow> (Inl (from_body err), w)
                | None \<Rightarrow>
                    (case rp_result resp of
                       Some r \<Rightarrow> (Inr r, w)
                     | None \<Rightarrow> (Inl (CeUnexpected MissingResult), w)))))"

text \<open>The match of every call on the shape it expects.\<close>

definition expect :: "(result_body \<Rightarrow> 'a option) \<Rightarrow> (client_error + result_body) \<times> 'w \<Rightarrow> (client_error + 'a) \<times> 'w" where
  "expect f r =
     (case r of
        (Inl e, w) \<Rightarrow> (Inl e, w)
      | (Inr b, w) \<Rightarrow> (case f b of Some x \<Rightarrow> (Inr x, w) | None \<Rightarrow> (Inl (CeUnexpected (OtherBody b)), w)))"

definition as_info :: "result_body \<Rightarrow> info_result option" where
  "as_info b = (case b of RInfo r \<Rightarrow> Some r | _ \<Rightarrow> None)"

definition as_clients :: "result_body \<Rightarrow> clients_result option" where
  "as_clients b = (case b of RClients r \<Rightarrow> Some r | _ \<Rightarrow> None)"

definition as_rules :: "result_body \<Rightarrow> rule_wire list option" where
  "as_rules b = (case b of RRules r \<Rightarrow> Some r | _ \<Rightarrow> None)"

definition as_empty :: "result_body \<Rightarrow> unit option" where
  "as_empty b = (case b of REmpty \<Rightarrow> Some () | _ \<Rightarrow> None)"

definition client_info :: "'w channel \<Rightarrow> 'w \<Rightarrow> (client_error + info_result) \<times> 'w" where
  "client_info ch w = expect as_info (round_trip ch (request_new KInfo) w)"

definition client_top :: "'w channel \<Rightarrow> top_params \<Rightarrow> 'w \<Rightarrow> (client_error + clients_result) \<times> 'w" where
  "client_top ch params w = expect as_clients (round_trip ch (request_with_params KTop (PTop params)) w)"

definition client_list_clients :: "'w channel \<Rightarrow> 'w \<Rightarrow> (client_error + clients_result) \<times> 'w" where
  "client_list_clients ch w = expect as_clients (round_trip ch (request_new KListClients) w)"

definition client_list_rules :: "'w channel \<Rightarrow> 'w \<Rightarrow> (client_error + rule_wire list) \<times> 'w" where
  "client_list_rules ch w = expect as_rules (round_trip ch (request_new KListRules) w)"

definition client_throttle :: "'w channel \<Rightarrow> throttle_params \<Rightarrow> 'w \<Rightarrow> (client_error + unit) \<times> 'w" where
  "client_throttle ch params w = expect as_empty (round_trip ch (request_with_params KThrottle (PThrottle params)) w)"

definition client_unthrottle :: "'w channel \<Rightarrow> client_ref \<Rightarrow> 'w \<Rightarrow> (client_error + unit) \<times> 'w" where
  "client_unthrottle ch client w =
     expect as_empty (round_trip ch (request_with_params KUnthrottle (PClient \<lparr>clp_client = client\<rparr>)) w)"

definition client_block :: "'w channel \<Rightarrow> block_params \<Rightarrow> 'w \<Rightarrow> (client_error + unit) \<times> 'w" where
  "client_block ch params w = expect as_empty (round_trip ch (request_with_params KBlock (PBlock params)) w)"

definition client_unblock :: "'w channel \<Rightarrow> client_ref \<Rightarrow> 'w \<Rightarrow> (client_error + unit) \<times> 'w" where
  "client_unblock ch client w =
     expect as_empty (round_trip ch (request_with_params KUnblock (PClient \<lparr>clp_client = client\<rparr>)) w)"

section \<open>Both ends together\<close>

text \<open>The channel to a running daemon; a reply that never comes is the end of the stream.\<close>

definition daemon_channel ::
  "'f ipc_lib \<Rightarrow> version_data \<Rightarrow> 'r store_env \<Rightarrow> instant \<Rightarrow> system_time \<Rightarrow> ('p, 'r) world channel" where
  "daemon_channel lib v env now now_sys body w =
     (case write_frame lib body of
        Inl e \<Rightarrow> (Inl (CeFrame e), w)
      | Inr f \<Rightarrow>
          (case sess_read lib f of
             None \<Rightarrow> (Inl (CeFrame UnexpectedEof), w)
           | Some j \<Rightarrow>
               (case serve_message lib v env now now_sys j w of
                  (None, w) \<Rightarrow> (Inl (CeFrame UnexpectedEof), w)
                | (Some f, w) \<Rightarrow> (case read_frame lib f of Inl e \<Rightarrow> Inl (CeFrame e) | Inr j \<Rightarrow> Inr j, w))))"

text \<open>
  What is relied on of the shared crate: each end reads what the other has written, and the type of a
  body is its member \<open>type\<close>.
\<close>

definition frames_agree :: "'f ipc_lib \<Rightarrow> bool" where
  "frames_agree lib \<longleftrightarrow>
     (\<forall>j f. write_frame lib j = Inr f \<longrightarrow> sess_read lib f = Some j) \<and>
     (\<forall>j f. sess_reply lib j = Inr f \<longrightarrow> read_frame lib f = Inr j)"

definition routes_by_type :: "'f ipc_lib \<Rightarrow> bool" where
  "routes_by_type lib \<longleftrightarrow>
     (\<forall>ms name. hm_get ms ''type'' = Some (JStr name) \<longrightarrow> type_of lib (JObj ms) = Some name)"

definition request_fits :: "'f ipc_lib \<Rightarrow> request \<Rightarrow> bool" where
  "request_fits lib req \<longleftrightarrow> (\<exists>f. write_frame lib (enc_request req) = Inr f)"

definition reply_fits :: "'f ipc_lib \<Rightarrow> response \<Rightarrow> bool" where
  "reply_fits lib resp \<longleftrightarrow> (\<exists>f. sess_reply lib (enc_response resp) = Inr f)"

text \<open>What becomes of a result when its request and its response have to pass as frames.\<close>

definition over_wire ::
  "'f ipc_lib \<Rightarrow> request \<Rightarrow> response \<Rightarrow> client_error + 'a \<Rightarrow> 'w \<Rightarrow> 'w \<Rightarrow> (client_error + 'a) \<times> 'w" where
  "over_wire lib req resp x w w' =
     (case write_frame lib (enc_request req) of
        Inl e \<Rightarrow> (Inl (CeFrame e), w)
      | Inr _ \<Rightarrow>
          (case sess_reply lib (enc_response resp) of
             Inr _ \<Rightarrow> (x, w')
           | Inl e \<Rightarrow> (Inl (if reply_fits lib (hook_error e) then CeServer ''invalid'' e else CeFrame UnexpectedEof), w')))"

lemma over_wire_fits: "request_fits lib req \<Longrightarrow> reply_fits lib resp \<Longrightarrow> over_wire lib req resp x w w' = (x, w')"
  by (auto simp: over_wire_def request_fits_def reply_fits_def)

lemma over_wire_fails: "\<exists>e'. over_wire lib req resp (Inl e) w w = (Inl e', w)"
  by (auto simp: over_wire_def split: sum.splits)

lemma kind_routed: "kind_name k \<in> set mw_router"
  by (cases k) (simp_all add: mw_router_def)

lemma type_of_request:
  assumes "routes_by_type lib"
  shows "type_of lib (enc_request req) = Some (kind_name (rq_kind req))"
  using assms by (simp add: routes_by_type_def enc_request_def enc_kind_def hm_simps)

lemma serve_request:
  assumes "routes_by_type lib"
  shows "serve_message lib v env now now_sys (enc_request req) (st, s) =
     (case dispatch v env now now_sys (req\<lparr>rq_params := map_option as_received (rq_params req)\<rparr>) st s of
        None \<Rightarrow> (None, (st, s))
      | Some (resp, st', s') \<Rightarrow>
          (case sess_reply lib (enc_response resp) of
             Inr f \<Rightarrow> (Some f, (st', s'))
           | Inl e \<Rightarrow> (hook_reply lib (hook_error e), (st', s'))))"
  by (simp add: serve_message_def type_of_request [OF assms] kind_routed execute_def dec_enc_request split: option.splits)

lemma round_trip_daemon:
  assumes "routes_by_type lib" "frames_agree lib"
  shows "round_trip (daemon_channel lib v env now now_sys) req (st, s) =
     (case dispatch v env now now_sys (req\<lparr>rq_params := map_option as_received (rq_params req)\<rparr>) st s of
        None \<Rightarrow> (Inl (CeFrame (case write_frame lib (enc_request req) of Inl e \<Rightarrow> e | Inr _ \<Rightarrow> UnexpectedEof)), (st, s))
      | Some (resp, st', s') \<Rightarrow>
          over_wire lib req resp
            (case rp_error resp of
               Some err \<Rightarrow> Inl (from_body err)
             | None \<Rightarrow> (case rp_result resp of Some r \<Rightarrow> Inr r | None \<Rightarrow> Inl (CeUnexpected MissingResult)))
            (st, s) (st', s'))"
proof (cases "write_frame lib (enc_request req)")
  case (Inl e)
  then show ?thesis by (auto simp: round_trip_def daemon_channel_def over_wire_def split: option.splits)
next
  case (Inr f)
  then have "sess_read lib f = Some (enc_request req)" using assms(2) by (simp add: frames_agree_def)
  moreover have "sess_reply lib j = Inr f \<Longrightarrow> read_frame lib f = Inr j" for j f using assms(2) by (simp add: frames_agree_def)
  ultimately show ?thesis
    by (auto simp: round_trip_def daemon_channel_def over_wire_def reply_fits_def hook_reply_def Inr serve_request [OF assms(1)]
        dec_enc_response hook_error_def response_err_def from_body_def error_invalid_def split: option.splits sum.splits)
qed

lemma expect_failed [simp]: "expect f (Inl e, w) = (Inl e, w)"
  by (simp add: expect_def)

lemma expect_over_wire:
  "expect f (over_wire lib req resp x w w') =
     over_wire lib req resp
       (case x of Inl e \<Rightarrow> Inl e | Inr b \<Rightarrow> (case f b of Some y \<Rightarrow> Inr y | None \<Rightarrow> Inl (CeUnexpected (OtherBody b)))) w w'"
  by (auto simp: expect_def over_wire_def split: sum.splits option.splits)

lemmas client_calls = client_info_def client_top_def client_list_clients_def client_list_rules_def client_throttle_def
  client_unthrottle_def client_block_def client_unblock_def as_info_def as_clients_def as_rules_def as_empty_def
  request_new_def request_with_params_def

lemmas replies = dispatch_def answer_def response_ok_def response_err_def from_body_def error_invalid_def

text \<open>
  C10: with a daemon at the other end, the library's \<open>info\<close>, \<open>list_rules\<close>, \<open>list_clients\<close> and \<open>top\<close> return
  exactly what the daemon's functions compute on its state, and change nothing. A \<open>throttle\<close>
  runs the daemon's handler with the parameters given, succeeds exactly when the handler does,
  and reports the handler's message otherwise. That is so when request and response fit a frame; a
  request that does not is never sent, and a response that does not comes back as an error although
  the handler has had its effect.
\<close>

theorem client_end_to_end:
  assumes "routes_by_type lib" "frames_agree lib" "ch = daemon_channel lib v env now now_sys" "w = (st, s)"
  shows "client_info ch w =
       (let r = Ipc_Server.info_result v st in over_wire lib (request_new KInfo) (response_ok KInfo (RInfo r)) (Inr r) w w) \<and>
     client_list_rules ch w =
       (let r = list_rules st in over_wire lib (request_new KListRules) (response_ok KListRules (RRules r)) (Inr r) w w) \<and>
     client_list_clients ch w =
       (let r = list_clients now st in over_wire lib (request_new KListClients) (response_ok KListClients (RClients r)) (Inr r) w w) \<and>
     client_top ch params w =
       (let r = top_cmd now st params
        in over_wire lib (request_with_params KTop (PTop params)) (response_ok KTop (RClients r)) (Inr r) w w) \<and>
     client_throttle ch p w =
       (let req = request_with_params KThrottle (PThrottle p)
        in case throttle_cmd env now now_sys p st s of
             None \<Rightarrow> (Inl (CeFrame (case write_frame lib (enc_request req) of Inl e \<Rightarrow> e | Inr _ \<Rightarrow> UnexpectedEof)), w)
           | Some (Inr _, w') \<Rightarrow> over_wire lib req (response_ok KThrottle REmpty) (Inr ()) w w'
           | Some (Inl e, w') \<Rightarrow>
               over_wire lib req (response_err KThrottle (error_invalid e)) (Inl (CeServer ''invalid'' e)) w w')"
  unfolding assms(3,4) Let_def
proof (intro conjI)
  note calls = client_calls round_trip_daemon [OF assms(1,2)] expect_over_wire replies
  let ?ch = "daemon_channel lib v env now now_sys"
  show "client_throttle ?ch p (st, s) =
     (case throttle_cmd env now now_sys p st s of
        None \<Rightarrow> (Inl (CeFrame (case write_frame lib (enc_request (request_with_params KThrottle (PThrottle p))) of
          Inl e \<Rightarrow> e | Inr _ \<Rightarrow> UnexpectedEof)), (st, s))
      | Some (Inr _, w') \<Rightarrow> over_wire lib (request_with_params KThrottle (PThrottle p)) (response_ok KThrottle REmpty) (Inr ()) (st, s) w'
      | Some (Inl e, w') \<Rightarrow> over_wire lib (request_with_params KThrottle (PThrottle p))
          (response_err KThrottle (error_invalid e)) (Inl (CeServer ''invalid'' e)) (st, s) w')"
    by (cases "throttle_cmd env now now_sys p st s") (auto simp: calls split: sum.splits)
qed (simp_all add: client_calls round_trip_daemon [OF assms(1,2)] expect_over_wire replies)

text \<open>
  A shared crate whose frames are the values themselves, refused when their text is longer than a limit.
\<close>

primrec json_len :: "json \<Rightarrow> nat" where
  "json_len JNull = 4"
| "json_len (JBool b) = 5"
| "json_len (JNum n) = 20"
| "json_len (JFloat s) = length s"
| "json_len (JStr s) = length s + 2"
| "json_len (JArr js) = 2 + sum_list (map (\<lambda>j. j + 1) (map json_len js))"
| "json_len (JObj ms) = 2 + sum_list (map (\<lambda>(k, n). length k + n + 4) (map (map_prod id json_len) ms))"

definition sample_ipc :: "nat \<Rightarrow> json ipc_lib" where
  "sample_ipc lim =
     \<lparr>write_frame = (\<lambda>j. if json_len j \<le> lim then Inr j else Inl TooLarge), read_frame = Inr, sess_read = Some,
      sess_reply = (\<lambda>j. if json_len j \<le> lim then Inr j else Inl ''frame too large''),
      type_of = (\<lambda>j. case j of JObj ms \<Rightarrow> (case hm_get ms ''type'' of Some (JStr t) \<Rightarrow> Some t | _ \<Rightarrow> None) | _ \<Rightarrow> None),
      error_text = id\<rparr>"

lemma sample_ipc_ok: "routes_by_type (sample_ipc lim)" "frames_agree (sample_ipc lim)"
  by (auto simp: routes_by_type_def frames_agree_def sample_ipc_def split: if_splits)

abbreviation sample_channel :: "nat \<Rightarrow> (unit, sample_server) world channel" where
  "sample_channel lim \<equiv> daemon_channel (sample_ipc lim) (version_info None None) sample_env 7 0"

definition sample_info :: info_result where
  "sample_info = \<lparr>in_version = ''dev'', in_commit = ''unknown'', in_build_time = [], in_mode = ''enforce'', in_interface = ''any''\<rparr>"

text \<open>An \<open>info\<close> call within the limit of 1 MiB, and one whose reply exceeds a limit of 90.\<close>

theorem client_end_to_end_witness:
  "client_info (sample_channel 1048576) (quiet_state, StMemory memory_store_default) =
     (Inr sample_info, (quiet_state, StMemory memory_store_default)) \<and>
   client_info (sample_channel 90) (quiet_state, StMemory memory_store_default) =
     (Inl (CeServer ''invalid'' ''frame too large''), (quiet_state, StMemory memory_store_default))"
proof -
  have info: "Ipc_Server.info_result (version_info None None) quiet_state = sample_info"
    by (simp add: Ipc_Server.info_result_def version_info_def quiet_state_def daemon_state_new_def sample_info_def)
  have len: "json_len (enc_request (request_new KInfo)) \<le> 90"
    "json_len (enc_response (response_ok KInfo (RInfo sample_info))) \<in> {91..1048576}"
    "json_len (enc_response (hook_error ''frame too large'')) \<le> 90"
    by (simp_all add: enc_request_def request_new_def enc_kind_def enc_response_def response_ok_def hook_error_def response_err_def
        error_invalid_def sample_info_def enc_info_def enc_error_def skip_none_def skip_empty_def)
  have "client_info (sample_channel lim) (quiet_state, StMemory memory_store_default) =
      over_wire (sample_ipc lim) (request_new KInfo) (response_ok KInfo (RInfo sample_info)) (Inr sample_info)
        (quiet_state, StMemory memory_store_default) (quiet_state, StMemory memory_store_default)" for lim
    using client_end_to_end [where v = "version_info None None" and env = sample_env and now = 7 and now_sys = 0
        and st = quiet_state and s = "StMemory memory_store_default",
        OF sample_ipc_ok(1,2) refl refl, THEN conjunct1] by (simp add: info Let_def)
  then show ?thesis using len by (simp add: over_wire_def reply_fits_def sample_ipc_def)
qed

text \<open>
  With a daemon at the other end, the library's \<open>block\<close>, \<open>unblock\<close> and \<open>unthrottle\<close> always fail, whatever
  client and duration they name, with the daemon's complaint about missing parameters if that fits a
  frame, and the daemon's state and store stay as they were.
\<close>

lemma client_block_refused:
  assumes "routes_by_type lib" "frames_agree lib" "ch = daemon_channel lib v env now now_sys"
  shows "client_block ch p w =
       over_wire lib (request_with_params KBlock (PBlock p)) (response_err KBlock (error_invalid ''missing block params''))
         (Inl (CeServer ''invalid'' ''missing block params'')) w w"
    "client_unblock ch c w =
       over_wire lib (request_with_params KUnblock (PClient \<lparr>clp_client = c\<rparr>)) (response_err KUnblock (error_invalid ''missing client''))
         (Inl (CeServer ''invalid'' ''missing client'')) w w"
    "client_unthrottle ch c w =
       over_wire lib (request_with_params KUnthrottle (PClient \<lparr>clp_client = c\<rparr>)) (response_err KUnthrottle (error_invalid ''missing client''))
         (Inl (CeServer ''invalid'' ''missing client'')) w w"
  unfolding assms(3)
  by (cases w; simp add: client_calls round_trip_daemon [OF assms(1,2)] expect_over_wire replies)+

end
