(* ===== verification/Decision_Loop.thy ===== *)
theory Decision_Loop
  imports Daemon_State
begin

text \<open>
  \<open>crates/microwaf/src/decision.rs\<close>: one tick of the decision loop. The clients are visited in
  the order of a hash set, so the tick takes that order as an argument; a tick panics only in
  \<open>strongest_auto\<close>. The central lemma describes what a tick does to each client from that
  client's own data alone, whence the order does not matter.
\<close>

section \<open>One tick\<close>

text \<open>The deltas of one counter, added to the window of its rule.\<close>

definition add_deltas :: "instant \<Rightarrow> rule_id \<Rightarrow> triple \<Rightarrow> triple \<Rightarrow> rule_windows \<Rightarrow> rule_windows" where
  "add_deltas now rid cur prev w =
     (case (cur, prev) of ((req, bytes, conn), (p0, p1, p2)) \<Rightarrow>
        let d_req = sat_sub req p0;
            d_bytes = sat_sub bytes p1;
            d_conn = sat_sub conn p2;
            w = (if d_req > 0 then rw_add rid Requests d_req now w else w);
            w = (if d_bytes > 0 then rw_add rid Bytes d_bytes now w else w)
        in if d_conn > 0 then rw_add rid Connections d_conn now w else w)"

text \<open>The inner loop over the snapshot.\<close>

fun delta_loop ::
  "instant \<Rightarrow> client_id \<Rightarrow> (counter_key, triple) hmap \<Rightarrow> (counter_key, triple) hmap \<Rightarrow> rule_windows \<Rightarrow> rule_windows" where
  "delta_loop now client prevs [] w = w"
| "delta_loop now client prevs ((key, cur) # rest) w =
     delta_loop now client prevs rest
       (if ck_client key \<noteq> client then w
        else add_deltas now (ck_rule_id key) cur (hm_get_or prevs key (0, 0, 0)) w)"

definition update_policy :: "instant \<Rightarrow> duration \<Rightarrow> violation list \<Rightarrow> client_policy \<Rightarrow> client_policy option" where
  "update_policy now cooldown violations p =
     (case strongest_auto violations now cooldown of
        None \<Rightarrow> None
      | Some best \<Rightarrow>
          let p = (case best of
                     Some auto \<Rightarrow> p\<lparr>cp_auto := Some auto\<rparr>
                   | None \<Rightarrow>
                       if (case cp_auto p of Some a \<Rightarrow> auto_expired a now | None \<Rightarrow> False)
                       then p\<lparr>cp_auto := None\<rparr> else p)
          in Some (if (case cp_manual p of Some m \<Rightarrow> manual_expired m now | None \<Rightarrow> False)
                   then p\<lparr>cp_manual := None\<rparr> else p))"

definition tick_cooldown :: "'p daemon_state \<Rightarrow> duration" where
  "tick_cooldown st = dur_from_secs (max (dc_cooldown_secs (daemon_cfg st)) 1)"

text \<open>The body of the loop over the clients; \<open>snapshot\<close> was taken at the start of the tick.\<close>

definition tick_client ::
  "instant \<Rightarrow> (counter_key, triple) hmap \<Rightarrow> client_id \<Rightarrow> 'p daemon_state \<Rightarrow> 'p daemon_state option" where
  "tick_client now snapshot client st =
     (let win = rw_advance_all now (hm_get_or (ds_windows st) client rw_default);
          win = delta_loop now client (ds_last_counters st) snapshot win;
          st1 = st\<lparr>ds_windows := hm_insert client win (ds_windows st)\<rparr>;
          violations = evaluate (state_rules st) win
      in case update_policy now (tick_cooldown st) violations
                (hm_get_or (ds_policies st1) client client_policy_default) of
           None \<Rightarrow> None
         | Some policy \<Rightarrow>
             let st2 = st1\<lparr>ds_policies := hm_insert client policy (ds_policies st1)\<rparr>
             in case merge_policy policy now of
                  EffNone \<Rightarrow> Some (state_clear client st2)
                | other \<Rightarrow> Some (state_apply client other st2))"

fun tick_loop ::
  "instant \<Rightarrow> (counter_key, triple) hmap \<Rightarrow> client_id list \<Rightarrow> 'p daemon_state \<Rightarrow> 'p daemon_state option" where
  "tick_loop now snapshot [] st = Some st"
| "tick_loop now snapshot (c # cs) st =
     (case tick_client now snapshot c st of
        None \<Rightarrow> None
      | Some st' \<Rightarrow> tick_loop now snapshot cs st')"

definition tick_clients :: "'p daemon_state \<Rightarrow> client_id set" where
  "tick_clients st =
     set (map ck_client (hm_keys (snapshot_rules (ds_counters st)))) \<union> set (hm_keys (ds_policies st))"

definition tick :: "instant \<Rightarrow> client_id list \<Rightarrow> 'p daemon_state \<Rightarrow> 'p daemon_state option" where
  "tick now order st =
     (let snapshot = snapshot_rules (ds_counters st)
      in map_option (\<lambda>st'. st'\<lparr>ds_last_counters := snapshot\<rparr>) (tick_loop now snapshot order st))"

section \<open>What a tick decides for one client\<close>

definition client_windows :: "instant \<Rightarrow> 'p daemon_state \<Rightarrow> client_id \<Rightarrow> rule_windows" where
  "client_windows now st c =
     delta_loop now c (ds_last_counters st) (snapshot_rules (ds_counters st))
       (rw_advance_all now (hm_get_or (ds_windows st) c rw_default))"

definition client_violations :: "instant \<Rightarrow> 'p daemon_state \<Rightarrow> client_id \<Rightarrow> violation list" where
  "client_violations now st c = evaluate (state_rules st) (client_windows now st c)"

definition client_decision :: "instant \<Rightarrow> 'p daemon_state \<Rightarrow> client_id \<Rightarrow> client_policy option" where
  "client_decision now st c =
     update_policy now (tick_cooldown st) (client_violations now st c)
       (hm_get_or (ds_policies st) c client_policy_default)"

text \<open>Two states that agree on everything a tick reads, apart from the clients in \<open>S\<close>.\<close>

definition agree_off :: "client_id set \<Rightarrow> 'p daemon_state \<Rightarrow> 'p daemon_state \<Rightarrow> bool" where
  "agree_off S st st' \<longleftrightarrow>
     ds_mode st' = ds_mode st \<and> ds_interface st' = ds_interface st \<and> ds_live st' = ds_live st \<and>
     ds_counters st' = ds_counters st \<and>
     ds_last_counters st' = ds_last_counters st \<and> state_enforces st' = state_enforces st \<and>
     (\<forall>c. c \<notin> S \<longrightarrow>
        hm_get (ds_policies st') c = hm_get (ds_policies st) c \<and>
        hm_get (ds_windows st') c = hm_get (ds_windows st) c \<and>
        hm_get (ds_would_be st') c = hm_get (ds_would_be st) c \<and>
        state_in_force st' c = state_in_force st c)"

definition decided :: "instant \<Rightarrow> 'p daemon_state \<Rightarrow> 'p daemon_state \<Rightarrow> client_id \<Rightarrow> bool" where
  "decided now st st' c \<longleftrightarrow>
     (\<exists>p. client_decision now st c = Some p \<and>
        hm_get (ds_policies st') c = Some p \<and>
        hm_get (ds_windows st') c = Some (client_windows now st c) \<and>
        hm_get (ds_would_be st') c =
          (if merge_policy p now = EffNone then None
           else if ds_mode st = Permissive then Some (merge_policy p now)
           else hm_get (ds_would_be st) c) \<and>
        state_in_force st' c =
          (if state_enforces st c then merge_policy p now else state_in_force st c))"

abbreviation snap :: "'p daemon_state \<Rightarrow> (counter_key, triple) hmap" where
  "snap st \<equiv> snapshot_rules (ds_counters st)"

lemma agree_off_refl: "agree_off S st st"
  by (simp add: agree_off_def)

lemma agree_off_trans: "agree_off S st st' \<Longrightarrow> agree_off T st' st'' \<Longrightarrow> agree_off (S \<union> T) st st''"
  by (simp add: agree_off_def)

lemma state_in_force_update [simp]:
  "state_in_force (st\<lparr>ds_policies := p\<rparr>) = state_in_force st"
  "state_in_force (st\<lparr>ds_windows := w\<rparr>) = state_in_force st"
  "state_in_force (st\<lparr>ds_last_counters := l\<rparr>) = state_in_force st"
  "state_enforces (st\<lparr>ds_policies := p\<rparr>) = state_enforces st"
  "state_enforces (st\<lparr>ds_windows := w\<rparr>) = state_enforces st"
  "state_enforces (st\<lparr>ds_last_counters := l\<rparr>) = state_enforces st"
  by (simp_all add: fun_eq_iff state_in_force_def state_enforces_def)

lemma tick_client_eq:
  "tick_client now (snap st) c st =
     (case client_decision now st c of
        None \<Rightarrow> None
      | Some p \<Rightarrow>
          let st' = st\<lparr>ds_windows := hm_insert c (client_windows now st c) (ds_windows st),
                       ds_policies := hm_insert c p (ds_policies st)\<rparr>
          in Some (if merge_policy p now = EffNone then state_clear c st'
                   else state_apply c (merge_policy p now) st'))"
  by (auto simp: tick_client_def client_decision_def client_violations_def client_windows_def Let_def
      split: option.splits effective_action.splits)

lemma tick_client_Some:
  assumes "tick_client now (snap st) c st = Some st'"
  shows "agree_off {c} st st'" and "decided now st st' c"
proof -
  obtain p where p: "client_decision now st c = Some p"
    and st': "st' = (let s = st\<lparr>ds_windows := hm_insert c (client_windows now st c) (ds_windows st),
                       ds_policies := hm_insert c p (ds_policies st)\<rparr>
          in if merge_policy p now = EffNone then state_clear c s else state_apply c (merge_policy p now) s)"
    using assms by (auto simp: tick_client_eq Let_def split: option.splits)
  show "agree_off {c} st st'"
    by (auto simp: agree_off_def st' Let_def hm_simps would_be_clear would_be_apply in_force_clear in_force_apply)
  show "decided now st st' c"
    by (auto simp: decided_def p st' Let_def hm_simps would_be_clear would_be_apply in_force_clear in_force_apply)
qed

text \<open>A decision reads only the parts of the state that \<open>agree_off\<close> keeps.\<close>

lemma agree_off_reads:
  assumes "agree_off S st st'" "c \<notin> S"
  shows "client_windows now st' c = client_windows now st c"
    and "client_decision now st' c = client_decision now st c"
proof -
  show w: "client_windows now st' c = client_windows now st c"
    using assms by (simp add: client_windows_def agree_off_def hm_get_or_def)
  show "client_decision now st' c = client_decision now st c"
    using assms
    by (simp add: client_decision_def client_violations_def w)
      (simp add: agree_off_def hm_get_or_def tick_cooldown_def daemon_cfg_def state_rules_def)
qed

lemma decided_agree:
  assumes "agree_off S st st'" "c \<notin> S" "decided now st' st'' c"
  shows "decided now st st'' c"
  using assms agree_off_reads [OF assms(1,2), of now]
  by (auto simp: decided_def agree_off_def)

lemma decided_keep: "decided now st st' c \<Longrightarrow> agree_off S st' st'' \<Longrightarrow> c \<notin> S \<Longrightarrow> decided now st st'' c"
  by (auto simp: decided_def agree_off_def)

lemma tick_loop_correct:
  "distinct cs \<Longrightarrow>
   (case tick_loop now (snap st) cs st of
      None \<Rightarrow> \<exists>c \<in> set cs. client_decision now st c = None
    | Some st' \<Rightarrow> agree_off (set cs) st st' \<and> (\<forall>c \<in> set cs. decided now st st' c))"
proof (induction cs arbitrary: st)
  case Nil
  then show ?case by (simp add: agree_off_refl)
next
  case (Cons c cs)
  show ?case
  proof (cases "tick_client now (snap st) c st")
    case None
    then have "client_decision now st c = None" by (simp add: tick_client_eq Let_def split: option.splits)
    with None show ?thesis by simp
  next
    case (Some st1)
    have ag: "agree_off {c} st st1" and de: "decided now st st1 c"
      using tick_client_Some [OF Some] by simp_all
    have snap: "snap st1 = snap st" using ag by (simp add: agree_off_def)
    have other: "x \<in> set cs \<Longrightarrow> x \<notin> {c}" for x using Cons.prems by auto
    have IH: "case tick_loop now (snap st) cs st1 of
        None \<Rightarrow> \<exists>c \<in> set cs. client_decision now st1 c = None
      | Some st' \<Rightarrow> agree_off (set cs) st1 st' \<and> (\<forall>c \<in> set cs. decided now st1 st' c)"
      using Cons.IH [of st1] Cons.prems by (simp add: snap)
    show ?thesis
    proof (cases "tick_loop now (snap st) cs st1")
      case None
      then obtain x where "x \<in> set cs" "client_decision now st1 x = None" using IH by auto
      then have "client_decision now st x = None" using agree_off_reads [OF ag other] by simp
      with None Some \<open>x \<in> set cs\<close> show ?thesis by auto
    next
      case (Some st2)
      then have 2: "agree_off (set cs) st1 st2" "\<And>x. x \<in> set cs \<Longrightarrow> decided now st1 st2 x"
        using IH by auto
      have "agree_off (set (c # cs)) st st2" using agree_off_trans [OF ag 2(1)] by simp
      moreover have "decided now st st2 x" if "x \<in> set cs" for x
        using decided_agree [OF ag other [OF that] 2(2) [OF that]] .
      moreover have "decided now st st2 c" using decided_keep [OF de 2(1)] Cons.prems by simp
      ultimately show ?thesis using Some \<open>tick_client now (snap st) c st = Some st1\<close> by simp
    qed
  qed
qed

lemma tick_correct_lemma:
  assumes "tick now order st = Some st'" "distinct order" "set order = tick_clients st"
  shows "ds_last_counters st' = snap st"
    and "agree_off (tick_clients st) st (st'\<lparr>ds_last_counters := ds_last_counters st\<rparr>)"
    and "c \<in> tick_clients st \<Longrightarrow> decided now st st' c"
proof -
  obtain st1 where st1: "tick_loop now (snap st) order st = Some st1"
    and st': "st' = st1\<lparr>ds_last_counters := snap st\<rparr>"
    using assms(1) by (auto simp: tick_def Let_def)
  have loop: "agree_off (set order) st st1" "\<forall>c \<in> set order. decided now st st1 c"
    using tick_loop_correct [OF assms(2), of now st] by (simp_all add: st1)
  show "ds_last_counters st' = snap st" by (simp add: st')
  have "st1 = st'\<lparr>ds_last_counters := ds_last_counters st\<rparr>"
    using loop(1) by (simp add: st' agree_off_def)
  with loop(1) assms(3) show "agree_off (tick_clients st) st (st'\<lparr>ds_last_counters := ds_last_counters st\<rparr>)"
    by simp
  show "c \<in> tick_clients st \<Longrightarrow> decided now st st' c"
    using loop(2) assms(3) by (simp add: decided_def st')
qed

section \<open>Properties of a tick\<close>

text \<open>
  C12: a tick visits the clients with counters or with a policy, in whatever order. For each it
  stores the policy and the windows that follow from that client's own data, and enforces the
  merge of that policy (recording it when permissive, clearing it when there is nothing to
  enforce). It changes nothing for any other client, and remembers the counters it has seen.
\<close>

theorem tick_per_client:
  assumes "tick now order st = Some st'" "distinct order" "set order = tick_clients st"
  shows "ds_last_counters st' = snapshot_rules (ds_counters st) \<and> ds_counters st' = ds_counters st \<and>
     (\<forall>c \<in> tick_clients st. decided now st st' c) \<and>
     (\<forall>c. c \<notin> tick_clients st \<longrightarrow>
        hm_get (ds_policies st') c = hm_get (ds_policies st) c \<and>
        hm_get (ds_windows st') c = hm_get (ds_windows st) c \<and>
        hm_get (ds_would_be st') c = hm_get (ds_would_be st) c \<and>
        state_in_force st' c = state_in_force st c)"
  using tick_correct_lemma [OF assms] by (auto simp: agree_off_def)

text \<open>A state whose only client was throttled by hand, ticked after the throttle has expired.\<close>

definition sample_state :: "unit daemon_state" where
  "sample_state =
     (daemon_state_new Permissive ''any''
        \<lparr>lc_daemon = daemon_config_default, lc_sets = sets_config_default, lc_rules = rule_set_default\<rparr>)
     \<lparr>ds_policies := [(client_new (Mac 1 2 3 4 5 6) (V4 (Ipv4 10 0 0 1)),
        \<lparr>cp_manual = Some \<lparr>mp_throttle = Some 30, mp_blocked = False, mp_until = Some 5\<rparr>, cp_auto = None\<rparr>)]\<rparr>"

lemma sample_state_clients: "tick_clients sample_state = {client_new (Mac 1 2 3 4 5 6) (V4 (Ipv4 10 0 0 1))}"
  by (simp add: tick_clients_def sample_state_def daemon_state_new_def counter_store_default_def
      snapshot_rules_def hm_keys_def)

lemma update_policy_total:
  "update_policy now cooldown vs p = None \<longleftrightarrow> vs \<noteq> [] \<and> instant_add now cooldown = None"
proof (cases "strongest_auto vs now cooldown")
  case None
  then show ?thesis using strongest_auto_None [of vs now cooldown] by (simp add: update_policy_def)
next
  case (Some b)
  then show ?thesis using strongest_auto_None [of vs now cooldown] by (simp add: update_policy_def Let_def)
qed

lemma tick_None_iff:
  assumes "distinct order" "set order = tick_clients st"
  shows "tick now order st = None \<longleftrightarrow>
     instant_add now (tick_cooldown st) = None \<and> (\<exists>c \<in> tick_clients st. client_violations now st c \<noteq> [])"
proof -
  have "tick now order st = None \<longleftrightarrow> (\<exists>c \<in> tick_clients st. client_decision now st c = None)"
    using tick_loop_correct [OF assms(1), of now st] assms(2)
    by (auto simp: tick_def Let_def decided_def split: option.splits)
  then show ?thesis by (auto simp: client_decision_def update_policy_total)
qed

lemma sample_tick_ok: "\<exists>st'. tick now [client_new (Mac 1 2 3 4 5 6) (V4 (Ipv4 10 0 0 1))] sample_state = Some st'"
proof -
  have "client_violations now sample_state c = []" for c
    by (simp add: client_violations_def evaluate_def state_rules_def sample_state_def daemon_state_new_def
        rule_set_default_def map_filter_simps)
  then have "tick now [client_new (Mac 1 2 3 4 5 6) (V4 (Ipv4 10 0 0 1))] sample_state \<noteq> None"
    by (subst tick_None_iff) (simp_all add: sample_state_clients)
  then show ?thesis by blast
qed

theorem tick_per_client_witness:
  "\<exists>st'. tick 7 [client_new (Mac 1 2 3 4 5 6) (V4 (Ipv4 10 0 0 1))] sample_state = Some st' \<and>
     decided 7 sample_state st' (client_new (Mac 1 2 3 4 5 6) (V4 (Ipv4 10 0 0 1)))"
proof -
  obtain st' where "tick 7 [client_new (Mac 1 2 3 4 5 6) (V4 (Ipv4 10 0 0 1))] sample_state = Some st'"
    using sample_tick_ok by blast
  with tick_per_client [OF this] show ?thesis by (simp add: sample_state_clients)
qed

text \<open>
  C35: a tick fails only when some client violates a rule and the cooldown leaves the range of
  the clock; with a cooldown in range it always completes, for every client and every order.
\<close>

theorem tick_total:
  "distinct order \<and> set order = tick_clients st \<longrightarrow>
   (tick now order st = None \<longleftrightarrow>
      instant_limit \<le> now + tick_cooldown st \<and> (\<exists>c \<in> tick_clients st. client_violations now st c \<noteq> []))"
  using tick_None_iff [of order st now] by (auto simp: instant_add_def)

theorem tick_total_witness:
  "tick 7 [client_new (Mac 1 2 3 4 5 6) (V4 (Ipv4 10 0 0 1))] sample_state \<noteq> None"
proof -
  have "tick_cooldown sample_state = 30 * nanos_per_sec"
    by (simp add: tick_cooldown_def sample_state_def daemon_state_new_def daemon_cfg_def daemon_config_default_def
        dur_from_secs_def max_def word_le_nat_alt)
  then have "\<not> instant_limit \<le> 7 + tick_cooldown sample_state" by (simp add: instant_limit_def nanos_per_sec_def)
  then show ?thesis
    using tick_total [of "[client_new (Mac 1 2 3 4 5 6) (V4 (Ipv4 10 0 0 1))]" sample_state 7]
    by (simp add: sample_state_clients)
qed

text \<open>Everything a reader of the state can look up about clients.\<close>

definition same_view :: "'p daemon_state \<Rightarrow> 'p daemon_state \<Rightarrow> bool" where
  "same_view a b \<longleftrightarrow>
     hm_get (ds_policies a) = hm_get (ds_policies b) \<and> hm_get (ds_windows a) = hm_get (ds_windows b) \<and>
     hm_get (ds_would_be a) = hm_get (ds_would_be b) \<and> state_in_force a = state_in_force b \<and>
     ds_last_counters a = ds_last_counters b \<and> ds_counters a = ds_counters b \<and> ds_live a = ds_live b \<and>
     ds_mode a = ds_mode b"

lemma decided_unique:
  assumes "decided now st a c" "decided now st b c"
  shows "hm_get (ds_policies a) c = hm_get (ds_policies b) c" "hm_get (ds_windows a) c = hm_get (ds_windows b) c"
    "hm_get (ds_would_be a) c = hm_get (ds_would_be b) c" "state_in_force a c = state_in_force b c"
  using assms by (auto simp: decided_def)

text \<open>
  C13: the order in which the hash set yields the clients makes no difference: two ticks of the
  same state in two orders either both fail or give the same policies, windows, recorded
  actions and enforced actions for every client.
\<close>

theorem tick_order_independent:
  assumes "distinct xs" "set xs = tick_clients st" "distinct ys" "set ys = tick_clients st"
  shows "case (tick now xs st, tick now ys st) of
      (None, None) \<Rightarrow> True
    | (Some a, Some b) \<Rightarrow> same_view a b
    | _ \<Rightarrow> False"
proof -
  have none: "tick now xs st = None \<longleftrightarrow> tick now ys st = None"
    using tick_None_iff [OF assms(1,2)] tick_None_iff [OF assms(3,4)] by simp
  have "same_view a b" if "tick now xs st = Some a" "tick now ys st = Some b" for a b
  proof -
    note A = tick_correct_lemma [OF that(1) assms(1,2)] and B = tick_correct_lemma [OF that(2) assms(3,4)]
    have "hm_get (ds_policies a) c = hm_get (ds_policies b) c \<and> hm_get (ds_windows a) c = hm_get (ds_windows b) c \<and>
        hm_get (ds_would_be a) c = hm_get (ds_would_be b) c \<and> state_in_force a c = state_in_force b c" for c
    proof (cases "c \<in> tick_clients st")
      case True
      then show ?thesis using decided_unique [OF A(3) [OF True] B(3) [OF True]] by simp
    next
      case False
      then show ?thesis using A(2) B(2) by (simp add: agree_off_def)
    qed
    with A(1,2) B(1,2) show ?thesis by (simp add: same_view_def fun_eq_iff agree_off_def)
  qed
  with none show ?thesis by (auto split: option.splits)
qed

definition pair_state :: "unit daemon_state" where
  "pair_state = sample_state\<lparr>ds_policies :=
     [(client_new (Mac 1 2 3 4 5 6) (V4 (Ipv4 10 0 0 1)), client_policy_default),
      (client_new (Mac 1 2 3 4 5 7) (V4 (Ipv4 10 0 0 2)), client_policy_default)]\<rparr>"

lemma pair_state_clients:
  "tick_clients pair_state =
     {client_new (Mac 1 2 3 4 5 6) (V4 (Ipv4 10 0 0 1)), client_new (Mac 1 2 3 4 5 7) (V4 (Ipv4 10 0 0 2))}"
  by (simp add: tick_clients_def pair_state_def sample_state_def daemon_state_new_def counter_store_default_def
      snapshot_rules_def hm_keys_def)

theorem tick_order_independent_witness:
  "case (tick 7 [client_new (Mac 1 2 3 4 5 6) (V4 (Ipv4 10 0 0 1)), client_new (Mac 1 2 3 4 5 7) (V4 (Ipv4 10 0 0 2))] pair_state,
         tick 7 [client_new (Mac 1 2 3 4 5 7) (V4 (Ipv4 10 0 0 2)), client_new (Mac 1 2 3 4 5 6) (V4 (Ipv4 10 0 0 1))] pair_state) of
      (None, None) \<Rightarrow> True
    | (Some a, Some b) \<Rightarrow> same_view a b
    | _ \<Rightarrow> False"
  by (rule tick_order_independent) (auto simp: pair_state_clients client_new_def)

section \<open>What a decision is\<close>

lemma client_decision_policies:
  assumes "client_decision now st c = Some p"
  shows "cp_manual p =
      filter_opt (\<lambda>m. \<not> manual_expired m now) (cp_manual (hm_get_or (ds_policies st) c client_policy_default))"
    and "client_violations now st c = [] \<Longrightarrow> cp_auto p =
      filter_opt (\<lambda>a. \<not> auto_expired a now) (cp_auto (hm_get_or (ds_policies st) c client_policy_default))"
    and "client_violations now st c \<noteq> [] \<Longrightarrow>
      \<exists>pre v post. client_violations now st c = pre @ v # post \<and> cp_auto p = Some (policy_of v (now + tick_cooldown st)) \<and>
        (\<forall>u \<in> set pre. action_rank (v_action u) < action_rank (v_action v)) \<and>
        (\<forall>u \<in> set post. action_rank (v_action u) \<le> action_rank (v_action v))"
proof -
  let ?vs = "client_violations now st c"
  have up: "update_policy now (tick_cooldown st) ?vs (hm_get_or (ds_policies st) c client_policy_default) = Some p"
    using assms by (simp add: client_decision_def)
  then show "cp_manual p =
      filter_opt (\<lambda>m. \<not> manual_expired m now) (cp_manual (hm_get_or (ds_policies st) c client_policy_default))"
    by (auto simp: update_policy_def Let_def filter_opt_def split: option.splits if_splits)
  show "cp_auto p =
      filter_opt (\<lambda>a. \<not> auto_expired a now) (cp_auto (hm_get_or (ds_policies st) c client_policy_default))"
    if "?vs = []"
    using up that by (auto simp: update_policy_def Let_def filter_opt_def split: option.splits if_splits)
  show "\<exists>pre v post. ?vs = pre @ v # post \<and> cp_auto p = Some (policy_of v (now + tick_cooldown st)) \<and>
        (\<forall>u \<in> set pre. action_rank (v_action u) < action_rank (v_action v)) \<and>
        (\<forall>u \<in> set post. action_rank (v_action u) \<le> action_rank (v_action v))" if ne: "?vs \<noteq> []"
  proof -
    have "instant_add now (tick_cooldown st) \<noteq> None"
      using up ne strongest_auto_None [of ?vs now "tick_cooldown st"] by (auto simp: update_policy_def)
    then have t: "instant_add now (tick_cooldown st) = Some (now + tick_cooldown st)"
      by (simp add: instant_add_def split: if_splits)
    obtain pre v post where v: "?vs = pre @ v # post"
      "strongest_auto ?vs now (tick_cooldown st) = Some (Some (policy_of v (now + tick_cooldown st)))"
      "\<forall>x \<in> set pre. action_rank (v_action x) < action_rank (v_action v)"
      "\<forall>x \<in> set post. action_rank (v_action x) \<le> action_rank (v_action v)"
      using strongest_auto_cases [OF ne t] by blast
    have "cp_auto p = Some (policy_of v (now + tick_cooldown st))"
      using up v(2) by (auto simp: update_policy_def Let_def split: if_splits)
    with v(1,3,4) show ?thesis by blast
  qed
qed

lemma client_decision_strongest:
  assumes "client_decision now st c = Some p" "client_violations now st c \<noteq> []"
  shows "\<exists>v \<in> set (client_violations now st c). cp_auto p = Some (policy_of v (now + tick_cooldown st)) \<and>
     (\<forall>u \<in> set (client_violations now st c). action_rank (v_action u) \<le> action_rank (v_action v))"
proof -
  obtain pre v post where v: "client_violations now st c = pre @ v # post" "cp_auto p = Some (policy_of v (now + tick_cooldown st))"
    "\<forall>u \<in> set pre. action_rank (v_action u) < action_rank (v_action v)"
    "\<forall>u \<in> set post. action_rank (v_action u) \<le> action_rank (v_action v)"
    using client_decision_policies(3) [OF assms] by blast
  then show ?thesis by (intro bexI [of _ v]) (auto intro: less_imp_le)
qed

text \<open>
  C34: after a tick a client's manual policy is the one it had, unless that has expired. Its
  automatic policy is, without a violation, the one it had unless expired, and with violations, the
  policy of the first of the strongest violations, running for the cooldown from now. It then replaces
  whatever automatic policy the client had, even a stronger one that has not expired: a client that is blocked
  and in its cooldown is only throttled once a tick finds nothing but a violation of a throttling rule.
\<close>

theorem tick_policy_lifecycle:
  assumes "tick now order st = Some st'" "distinct order" "set order = tick_clients st"
    and "c \<in> tick_clients st"
    and "old = hm_get_or (ds_policies st) c client_policy_default"
  shows "\<exists>p. hm_get (ds_policies st') c = Some p \<and>
     cp_manual p = filter_opt (\<lambda>m. \<not> manual_expired m now) (cp_manual old) \<and>
     (if client_violations now st c = []
      then cp_auto p = filter_opt (\<lambda>a. \<not> auto_expired a now) (cp_auto old)
      else \<exists>pre v post. client_violations now st c = pre @ v # post \<and>
        (\<forall>u \<in> set pre. action_rank (v_action u) < action_rank (v_action v)) \<and>
        (\<forall>u \<in> set post. action_rank (v_action u) \<le> action_rank (v_action v)) \<and>
        cp_auto p = Some (policy_of v (now + tick_cooldown st)))"
proof -
  obtain p where p: "client_decision now st c = Some p" "hm_get (ds_policies st') c = Some p"
    using tick_correct_lemma(3) [OF assms(1-4)] by (auto simp: decided_def)
  show ?thesis
    using p(2) client_decision_policies [OF p(1)] unfolding assms(5)
    by (cases "client_violations now st c = []") (simp, metis)
qed

theorem tick_policy_lifecycle_witness:
  "\<exists>st' p. tick 7 [client_new (Mac 1 2 3 4 5 6) (V4 (Ipv4 10 0 0 1))] sample_state = Some st' \<and>
     hm_get (ds_policies st') (client_new (Mac 1 2 3 4 5 6) (V4 (Ipv4 10 0 0 1))) = Some p \<and> cp_manual p = None"
proof -
  let ?c = "client_new (Mac 1 2 3 4 5 6) (V4 (Ipv4 10 0 0 1))"
  obtain st' where st': "tick 7 [?c] sample_state = Some st'" using sample_tick_ok by blast
  have "hm_get_or (ds_policies sample_state) ?c client_policy_default =
      \<lparr>cp_manual = Some \<lparr>mp_throttle = Some 30, mp_blocked = False, mp_until = Some 5\<rparr>, cp_auto = None\<rparr>"
    by (simp add: sample_state_def hm_get_or_def hm_simps)
  with tick_policy_lifecycle [OF st' _ _ _ refl, of ?c] st' show ?thesis
    by (auto simp: sample_state_clients filter_opt_def manual_expired_def)
qed

text \<open>How strong an enforced action is, on the scale of the rules' actions.\<close>

definition at_least :: "action \<Rightarrow> effective_action \<Rightarrow> bool" where
  "at_least act eff = (case act of ActBlock \<Rightarrow> is_blocked eff | ActThrottle d \<Rightarrow> d \<le> drop_rate eff)"

lemma evaluate_valid_action:
  "rs_wf rs \<Longrightarrow> v \<in> set (evaluate rs ws) \<Longrightarrow> v_action v = ActThrottle d \<Longrightarrow> d \<le> 100"
  by (auto simp: evaluate_member Let_def rs_wf_def valid_rule_def word_le_nat_alt)

lemma tick_cooldown_pos: "0 < tick_cooldown st"
proof -
  have "1 \<le> max (dc_cooldown_secs (daemon_cfg st)) 1" by simp
  then have "0 < unat (max (dc_cooldown_secs (daemon_cfg st)) 1)" by (simp add: word_le_nat_alt)
  then show ?thesis by (simp add: tick_cooldown_def dur_from_secs_def nanos_per_sec_def)
qed

lemma policy_of_at_least:
  assumes "cp_auto p = Some (policy_of v u)" "t < u" "action_rank (v_action w) \<le> action_rank (v_action v)"
    and "\<And>d. v_action w = ActThrottle d \<Longrightarrow> d \<le> 100"
  shows "at_least (v_action w) (merge_policy p t)"
proof -
  have act: "active_auto p t = Some (policy_of v u)"
    using assms(1,2) by (simp add: active_auto_def filter_opt_def auto_expired_def policy_of_def)
  have small: "unat d < 256" for d :: u8 using unat_bound [of d] by simp
  show ?thesis
  proof (cases "v_action w")
    case (ActThrottle d)
    have "d \<le> 100" using assms(4) ActThrottle by simp
    show ?thesis
    proof (cases "v_action v")
      case (ActThrottle r)
      have "d \<le> r" using assms(3) \<open>v_action w = ActThrottle d\<close> ActThrottle by (simp add: word_le_nat_alt)
      then have "d \<le> max (manual_rate p t) r" by (simp add: le_max_iff_disj)
      with \<open>d \<le> 100\<close> act ActThrottle \<open>v_action w = ActThrottle d\<close> show ?thesis
        by (simp add: at_least_def merge_policy_rate auto_rate_def policy_of_def)
    next
      case ActBlock
      with \<open>d \<le> 100\<close> act \<open>v_action w = ActThrottle d\<close> show ?thesis
        by (simp add: at_least_def merge_policy_rate auto_blocks_def policy_of_def)
    qed
  next
    case ActBlock
    have "v_action v = ActBlock"
      using assms(3) ActBlock small by (cases "v_action v") (simp_all add: not_le [symmetric])
    with act ActBlock show ?thesis
      by (simp add: at_least_def merge_policy_blocked auto_blocks_def policy_of_def)
  qed
qed

lemma tick_enforces_lemma:
  assumes "tick now order st = Some st'" "distinct order" "set order = tick_clients st"
    and "c \<in> tick_clients st" "rs_wf (state_rules st)"
    and "v \<in> set (client_violations now st c)"
    and "now \<le> t" "t < now + tick_cooldown st"
  shows "\<exists>p. hm_get (ds_policies st') c = Some p \<and> at_least (v_action v) (merge_policy p t) \<and>
     (state_enforces st c \<longrightarrow> at_least (v_action v) (state_in_force st' c))"
proof -
  obtain p where p: "client_decision now st c = Some p" "hm_get (ds_policies st') c = Some p"
    "state_in_force st' c = (if state_enforces st c then merge_policy p now else state_in_force st c)"
    using tick_correct_lemma(3) [OF assms(1-4)] by (auto simp: decided_def)
  have ne: "client_violations now st c \<noteq> []" using assms(6) by auto
  obtain w where w: "cp_auto p = Some (policy_of w (now + tick_cooldown st))"
    "action_rank (v_action v) \<le> action_rank (v_action w)"
    using client_decision_strongest [OF p(1) ne] assms(6) by blast
  have lim: "\<And>d. v_action v = ActThrottle d \<Longrightarrow> d \<le> 100"
    using evaluate_valid_action [OF assms(5)] assms(6) by (simp add: client_violations_def)
  have "at_least (v_action v) (merge_policy p t)" "at_least (v_action v) (merge_policy p now)"
    using policy_of_at_least [OF w(1) _ w(2) lim] assms(8) tick_cooldown_pos [of st] by simp_all
  with p show ?thesis by simp
qed

text \<open>A state in which one client has sent 20 bytes under a rule that blocks above 10.\<close>

definition busy_state :: "unit daemon_state" where
  "busy_state =
     (daemon_state_new Enforce ''any''
        \<lparr>lc_daemon = daemon_config_default, lc_sets = sets_config_default,
         lc_rules = \<lparr>rs_rules = [\<lparr>r_id = ''u'', r_protocol = Udp, r_ports = None, r_metric = Bytes,
           r_window = PerSecond, r_limit = 10, r_action = ActBlock, r_min_threshold = 0, r_match = None,
           r_match_src = None\<rparr>]\<rparr>\<rparr>)
     \<lparr>ds_counters := cs_add (client_new (Mac 1 2 3 4 5 6) (V4 (Ipv4 10 0 0 1))) ''u'' 0 20 0 counter_store_default\<rparr>"

lemma busy_sum: "rw_sum (rw_run [RAdvance now, RAdd ''u'' Bytes 20 now]) ''u'' Bytes 1 = 20"
proof -
  have "log_sum (rule_log ''u'' [RAdvance now, RAdd ''u'' Bytes 20 now]) Bytes (clamp_secs 1) = 20"
    by (simp add: rule_log_def rule_ops_def rule_op_step_def log_run_def log_advance_def log_sum_def
        duration_since_def dur_as_secs_def clamp_secs_def Let_def)
  then show ?thesis by (simp add: rw_run_sum)
qed

lemma busy_wf: "ds_wf busy_state"
  by (simp add: ds_wf_def busy_state_def daemon_state_new_def state_rules_def rs_wf_def MAX_RULES_def valid_rule_def
      is_parsed_def valid_for_def)

section \<open>Every counted event reaches a window once\<close>

text \<open>A tick as operations on one client's windows.\<close>

definition delta_ops1 :: "instant \<Rightarrow> rule_id \<Rightarrow> triple \<Rightarrow> triple \<Rightarrow> rw_op list" where
  "delta_ops1 now rid cur prev =
     map (\<lambda>m. RAdd rid m (sat_sub (triple_get m cur) (triple_get m prev)) now)
       (filter (\<lambda>m. sat_sub (triple_get m cur) (triple_get m prev) > 0) [Requests, Bytes, Connections])"

fun delta_ops :: "instant \<Rightarrow> client_id \<Rightarrow> (counter_key, triple) hmap \<Rightarrow> (counter_key, triple) hmap \<Rightarrow> rw_op list" where
  "delta_ops now client prevs [] = []"
| "delta_ops now client prevs ((key, cur) # rest) =
     (if ck_client key \<noteq> client then []
      else delta_ops1 now (ck_rule_id key) cur (hm_get_or prevs key (0, 0, 0))) @
     delta_ops now client prevs rest"

fun op_value :: "rule_id \<Rightarrow> metric \<Rightarrow> rw_op \<Rightarrow> u64" where
  "op_value r m (RAdd r' m' d t) = (if r' = r \<and> m' = m then d else 0)"
| "op_value r m (RAdvance t) = 0"

definition rule_total :: "rule_id \<Rightarrow> metric \<Rightarrow> rw_op list \<Rightarrow> u64" where
  "rule_total r m ops = sat_sum (map (op_value r m) ops)"

lemma rule_total_append: "rule_total r m (xs @ ys) = sat_add (rule_total r m xs) (rule_total r m ys)"
  by (simp add: rule_total_def sat_sum_append)

lemma add_deltas_ops: "add_deltas now rid cur prev w = foldl rw_step w (delta_ops1 now rid cur prev)"
  by (cases cur; cases prev) (simp add: add_deltas_def delta_ops1_def Let_def)

lemma delta_loop_ops: "delta_loop now c prevs snp w = foldl rw_step w (delta_ops now c prevs snp)"
  by (induction now c prevs snp w rule: delta_loop.induct) (simp_all add: add_deltas_ops)

lemma delta_ops1_total:
  "rule_total r m (delta_ops1 now rid cur prev) =
     (if r = rid then sat_sub (triple_get m cur) (triple_get m prev) else 0)"
proof -
  have z: "\<not> 0 < x \<longleftrightarrow> x = 0" for x :: u64 by (simp add: word_less_nat_alt unat_eq_0)
  show ?thesis
    by (cases m) (auto simp: rule_total_def delta_ops1_def z)
qed

lemma delta_ops_total:
  "hm_wf snp \<Longrightarrow> rule_total r m (delta_ops now c prevs snp) =
     (case hm_get snp \<lparr>ck_client = c, ck_rule_id = r\<rparr> of
        None \<Rightarrow> 0
      | Some cur \<Rightarrow>
          sat_sub (triple_get m cur) (triple_get m (hm_get_or prevs \<lparr>ck_client = c, ck_rule_id = r\<rparr> (0, 0, 0))))"
proof (induction snp)
  case Nil
  then show ?case by (simp add: rule_total_def hm_simps)
next
  case (Cons p snp)
  obtain key cur where p: "p = (key, cur)" by (cases p)
  have wf: "hm_wf snp" "hm_get snp key = None"
    using Cons.prems by (auto simp: p hm_wf_def hm_keys_def hm_get_def map_of_eq_None_iff)
  have key: "key = \<lparr>ck_client = c, ck_rule_id = r\<rparr> \<longleftrightarrow> ck_client key = c \<and> ck_rule_id key = r"
    by (cases key) auto
  show ?case
    using Cons.IH wf key
    by (auto simp: p rule_total_append delta_ops1_total hm_simps split: option.splits)
      (simp_all add: rule_total_def)
qed

definition counter_of :: "(counter_key, triple) hmap \<Rightarrow> client_id \<Rightarrow> rule_id \<Rightarrow> metric \<Rightarrow> u64" where
  "counter_of m c r me = triple_get me (hm_get_or m \<lparr>ck_client = c, ck_rule_id = r\<rparr> (0, 0, 0))"

definition accounted :: "'p daemon_state \<Rightarrow> bool" where
  "accounted st \<longleftrightarrow> cs_wf (ds_counters st) \<and>
     (\<forall>c r m. counter_of (ds_last_counters st) c r m \<le> counter_of (snap st) c r m) \<and>
     (\<forall>c. \<exists>ops. hm_get_or (ds_windows st) c rw_default = rw_run ops \<and>
        (\<forall>r m. rule_total r m ops = counter_of (ds_last_counters st) c r m))"

lemma counter_of_untouched:
  assumes "c \<notin> tick_clients st"
  shows "counter_of (snap st) c r m = 0"
proof -
  have "\<lparr>ck_client = c, ck_rule_id = r\<rparr> \<notin> set (hm_keys (snap st))"
    using assms by (force simp: tick_clients_def)
  then have "hm_get (snap st) \<lparr>ck_client = c, ck_rule_id = r\<rparr> = None" by (auto simp: hm_keys_dom)
  then show ?thesis by (simp add: counter_of_def hm_get_or_def)
qed

text \<open>The windows a tick would evaluate, from the counters and what earlier ticks have added.\<close>

lemma client_windows_total:
  assumes "accounted st"
  obtains ops where "client_windows now st c = rw_run ops"
    "\<And>r m. rule_total r m ops = counter_of (snap st) c r m"
proof -
  obtain ops where ops: "hm_get_or (ds_windows st) c rw_default = rw_run ops"
    "\<And>r m. rule_total r m ops = counter_of (ds_last_counters st) c r m"
    using assms unfolding accounted_def by blast
  let ?new = "RAdvance now # delta_ops now c (ds_last_counters st) (snap st)"
  have wf: "hm_wf (snap st)" using assms by (simp add: accounted_def cs_wf_def snapshot_rules_def)
  have "client_windows now st c = rw_run (ops @ ?new)"
    by (simp add: client_windows_def ops(1) delta_loop_ops rw_run_def)
  moreover have "rule_total r m (ops @ ?new) = counter_of (snap st) c r m" for r m
  proof -
    have "rule_total r m ?new = sat_sub (counter_of (snap st) c r m) (counter_of (ds_last_counters st) c r m)"
      using delta_ops_total [OF wf, of r m now c "ds_last_counters st"]
      by (auto simp: rule_total_def counter_of_def hm_get_or_def sat_sub_def split: option.splits)
    moreover have "counter_of (ds_last_counters st) c r m \<le> counter_of (snap st) c r m"
      using assms by (simp add: accounted_def)
    ultimately show ?thesis by (simp add: rule_total_append ops(2) sat_add_sat_sub)
  qed
  ultimately show thesis by (rule that)
qed

lemma accounted_tick:
  assumes acc: "accounted st" and tick: "tick now order st = Some st'" "distinct order" "set order = tick_clients st"
  shows "accounted st'"
proof -
  note T = tick_correct_lemma [OF tick]
  have cnt: "ds_counters st' = ds_counters st" using T(2) by (simp add: agree_off_def)
  have "\<exists>ops. hm_get_or (ds_windows st') c rw_default = rw_run ops \<and>
      (\<forall>r m. rule_total r m ops = counter_of (snap st) c r m)" for c
  proof (cases "c \<in> tick_clients st")
    case True
    have "hm_get (ds_windows st') c = Some (client_windows now st c)"
      using T(3) [OF True] by (auto simp: decided_def)
    then have "hm_get_or (ds_windows st') c rw_default = client_windows now st c" by (simp add: hm_simps)
    with client_windows_total [OF acc, of now c] show ?thesis by metis
  next
    case False
    obtain ops where ops: "hm_get_or (ds_windows st) c rw_default = rw_run ops"
      "\<And>r m. rule_total r m ops = counter_of (ds_last_counters st) c r m"
      using acc unfolding accounted_def by blast
    have "hm_get (ds_windows st') c = hm_get (ds_windows st) c" using T(2) False by (simp add: agree_off_def)
    then have "hm_get_or (ds_windows st') c rw_default = rw_run ops" by (simp add: hm_get_or_def ops(1) [symmetric])
    moreover have "rule_total r m ops = counter_of (snap st) c r m" for r m
    proof -
      have "counter_of (ds_last_counters st) c r m \<le> counter_of (snap st) c r m"
        using acc by (simp add: accounted_def)
      then show ?thesis using counter_of_untouched [OF False, of r m] by (simp add: ops(2))
    qed
    ultimately show ?thesis by blast
  qed
  with acc show ?thesis by (simp add: accounted_def cnt T(1))
qed

lemma accounted_counters:
  assumes "accounted st" "cs_wf cs" "\<And>c r m. counter_of (snap st) c r m \<le> counter_of (cs_by_rule cs) c r m"
  shows "accounted (st\<lparr>ds_counters := cs\<rparr>)"
  using assms order_trans unfolding accounted_def by (simp add: snapshot_rules_def) blast

lemma accounted_add:
  "accounted st \<Longrightarrow> accounted (st\<lparr>ds_counters := cs_add c r a b n (ds_counters st)\<rparr>)"
proof (rule accounted_counters)
  assume acc: "accounted st"
  then show "cs_wf (cs_add c r a b n (ds_counters st))" by (simp add: accounted_def)
  show "counter_of (snap st) c' r' m \<le> counter_of (cs_by_rule (cs_add c r a b n (ds_counters st))) c' r' m" for c' r' m
    using get_rule_add [of c r a b n "ds_counters st" c' r'] triple_le_add [of "get_rule (ds_counters st) c r" "(a, b, n)"]
    by (auto simp: counter_of_def get_rule_def snapshot_rules_def triple_le_def split: if_splits)
qed assumption

lemma accounted_new: "accounted (daemon_state_new mode iface live)"
proof -
  have "rw_run [] = rw_default" by (simp add: rw_run_def)
  then show ?thesis
    by (auto simp: accounted_def daemon_state_new_def snapshot_rules_def counter_store_default_def counter_of_def
        hm_get_or_def hm_simps rule_total_def cs_wf_def intro!: exI [of _ "[]"])
qed

end
