(* ===== verification/Top_View.thy ===== *)
theory Top_View
  imports Ipc_Client Decision_Loop
begin

text \<open>
  The table of \<open>microwaf top\<close> (\<open>crates/microwaf/src/cli/top.rs\<close>): its columns, their widths, its
  rows, and the live view with its terminal modes and its wait for a key. Widths are measured
  in bytes and cells are padded by characters, as \<open>format!\<close> does; the texts of durations, of
  errors and of pretty JSON come from libraries and are parameters.
\<close>

section \<open>Padding\<close>

text \<open>
  \<open>str::chars().count()\<close> counts the bytes that start a character. The three paddings are those of
  a width with \<open>>\<close>, \<open><\<close> and \<open>^\<close>.
\<close>

definition char_count :: "string \<Rightarrow> nat" where
  "char_count s = length (filter (\<lambda>c. \<not> utf8_cont (byte_of c)) s)"

definition fill_with :: "string \<Rightarrow> nat \<Rightarrow> string" where
  "fill_with f n = concat (replicate n f)"

definition pad_right_aligned :: "nat \<Rightarrow> string \<Rightarrow> string" where
  "pad_right_aligned w s = fill_with '' '' (w - char_count s) @ s"

definition pad_left_aligned :: "string \<Rightarrow> nat \<Rightarrow> string \<Rightarrow> string" where
  "pad_left_aligned f w s = s @ fill_with f (w - char_count s)"

definition pad_centered :: "nat \<Rightarrow> string \<Rightarrow> string" where
  "pad_centered w s =
     (let n = w - char_count s in fill_with '' '' (n div 2) @ s @ fill_with '' '' ((n + 1) div 2))"

text \<open>The middle dot that separates hot clients from the others is two bytes long.\<close>

definition middle_dot :: string where
  "middle_dot = latin1_to_string 0xB7"

section \<open>Cells\<close>

definition value_for_column :: "client_entry \<Rightarrow> top_column \<Rightarrow> nat \<Rightarrow> u64" where
  "value_for_column entry col index =
     (let found = (case find (\<lambda>v. vw_rule_id v = tc_rule_id col) (ce_violations entry) of Some v \<Rightarrow> vw_value v | None \<Rightarrow> 0)
      in if index < length (ce_violations entry) \<and> vw_rule_id (ce_violations entry ! index) = tc_rule_id col
         then vw_value (ce_violations entry ! index) else found)"

definition window_unit :: "string \<Rightarrow> string" where
  "window_unit window =
     (if window \<in> set [''per-second'', ''per_second'', ''second'', ''1s''] then ''/s''
      else if window \<in> set [''per-minute'', ''per_minute'', ''minute'', ''60s''] then ''/m''
      else [])"

definition format_rate :: "u64 \<Rightarrow> string \<Rightarrow> string" where
  "format_rate value unit = fmt_dec (unat value) @ unit"

definition format_client :: "client_ref \<Rightarrow> string" where
  "format_client c = (case cf_ip c of Some ip \<Rightarrow> cf_mac c @ ''@'' @ ip | None \<Rightarrow> cf_mac c)"

definition format_action :: "action_wire option \<Rightarrow> string" where
  "format_action a =
     (case a of
        None \<Rightarrow> ''-''
      | Some WNone \<Rightarrow> ''-''
      | Some WBlock \<Rightarrow> ''block''
      | Some (WThrottle r) \<Rightarrow> ''thr '' @ fmt_dec (unat r) @ ''%'')"

section \<open>The table\<close>

definition cell :: "client_entry \<Rightarrow> top_column \<Rightarrow> nat \<Rightarrow> string" where
  "cell entry col i = format_rate (value_for_column entry col i) (window_unit (tc_window col))"

definition column_width :: "client_entry list \<Rightarrow> nat \<Rightarrow> top_column \<Rightarrow> nat" where
  "column_width clients i col =
     max (fold (\<lambda>entry w. max w (length (cell entry col i))) clients (length (tc_rule_id col))) 3"

definition column_widths :: "top_column list \<Rightarrow> client_entry list \<Rightarrow> nat list" where
  "column_widths columns clients = map (\<lambda>(i, col). column_width clients i col) (enumerate 0 columns)"

definition format_row :: "nat \<Rightarrow> client_entry \<Rightarrow> top_column list \<Rightarrow> nat list \<Rightarrow> nat \<Rightarrow> nat \<Rightarrow> nat \<Rightarrow> string" where
  "format_row rank entry columns col_widths client_w action_w would_w =
     (if ce_hot entry then ''*'' else '' '') @ pad_right_aligned 3 (fmt_dec rank) @
     ''  '' @ pad_left_aligned '' '' client_w (format_client (ce_client entry)) @
     ''  '' @ pad_left_aligned '' '' action_w (format_action (ce_action entry)) @
     ''  '' @ pad_left_aligned '' '' would_w (format_action (ce_would_be_action entry)) @
     concat (map (\<lambda>(i, col, w). ''  '' @ pad_right_aligned w (cell entry col i))
       (enumerate 0 (zip columns col_widths)))"

definition header_line :: "top_column list \<Rightarrow> nat list \<Rightarrow> nat \<Rightarrow> nat \<Rightarrow> nat \<Rightarrow> string" where
  "header_line columns col_widths client_w action_w would_w =
     '' '' @ pad_right_aligned 3 ''#'' @ ''  '' @ pad_left_aligned '' '' client_w ''CLIENT'' @
     ''  '' @ pad_left_aligned '' '' action_w ''ACTION'' @ ''  '' @ pad_left_aligned '' '' would_w ''WOULD'' @
     concat (map (\<lambda>(col, w). ''  '' @ pad_centered w (tc_rule_id col)) (zip columns col_widths))"

definition ruled_line :: "string \<Rightarrow> nat list \<Rightarrow> nat \<Rightarrow> nat \<Rightarrow> nat \<Rightarrow> string" where
  "ruled_line f col_widths client_w action_w would_w =
     '' '' @ pad_left_aligned f 3 [] @ ''  '' @ pad_left_aligned f client_w [] @
     ''  '' @ pad_left_aligned f action_w [] @ ''  '' @ pad_left_aligned f would_w [] @
     concat (map (\<lambda>w. ''  '' @ pad_left_aligned f w []) col_widths)"

definition nl :: string where
  "nl = [CHR 0x0A]"

text \<open>The loop over the clients, from row \<open>i\<close> on.\<close>

fun push_rows :: "top_column list \<Rightarrow> nat list \<Rightarrow> nat \<Rightarrow> nat \<Rightarrow> nat \<Rightarrow> nat \<Rightarrow> bool \<Rightarrow> client_entry list \<Rightarrow> string" where
  "push_rows columns col_widths client_w action_w would_w i saw_rest [] = []"
| "push_rows columns col_widths client_w action_w would_w i saw_rest (entry # rest) =
     (if \<not> ce_hot entry \<and> \<not> saw_rest \<and> i > 0
      then ruled_line middle_dot col_widths client_w action_w would_w @ nl else []) @
     format_row (i + 1) entry columns col_widths client_w action_w would_w @ nl @
     push_rows columns col_widths client_w action_w would_w (i + 1) (saw_rest \<or> \<not> ce_hot entry) rest"

definition client_width :: "client_entry list \<Rightarrow> nat" where
  "client_width clients =
     max (case map (\<lambda>c. length (format_client (ce_client c))) clients of [] \<Rightarrow> 6 | w # ws \<Rightarrow> fold max ws w) 6"

definition title_line :: "(duration \<Rightarrow> string) \<Rightarrow> clients_result \<Rightarrow> u64 \<Rightarrow> duration \<Rightarrow> bool \<Rightarrow> string" where
  "title_line format_duration result limit interval live =
     (let hot_n = fmt_dec (length (filter ce_hot (cl_clients result)))
      in if live
         then ''microwaf top  -n '' @ fmt_dec (unat limit) @ ''  hot='' @ hot_n @ ''  interval='' @
           format_duration interval @ ''  q/Ctrl+C quit'' @ nl
         else ''microwaf top  hot='' @ hot_n @ nl)"

definition render_frame :: "(duration \<Rightarrow> string) \<Rightarrow> clients_result \<Rightarrow> u64 \<Rightarrow> duration \<Rightarrow> bool \<Rightarrow> string" where
  "render_frame format_duration result limit interval live =
     (let client_w = client_width (cl_clients result);
          action_w = 10; would_w = 10;
          col_widths = column_widths (cl_columns result) (cl_clients result)
      in title_line format_duration result limit interval live @
         header_line (cl_columns result) col_widths client_w action_w would_w @ nl @
         ruled_line ''-'' col_widths client_w action_w would_w @ nl @
         (if cl_clients result = [] then '' (no known clients)'' @ nl
          else push_rows (cl_columns result) col_widths client_w action_w would_w 0 False (cl_clients result)))"

section \<open>Waiting for a key\<close>

text \<open>
  What one turn of the wait sees: \<open>poll\<close> fails, nothing arrives in the time left, \<open>read\<close> fails, or bytes
  arrive, none at the end of the input. The number is the time until the next look at the clock.
\<close>

datatype poll_result = PollFails | PollIdle | ReadFails | ReadBytes "u8 list"

datatype cli_error = CliClient client_error | CliContext string | CliParse string | CliInternal string

definition is_quit_key :: "u8 \<Rightarrow> bool" where
  "is_quit_key b \<longleftrightarrow> b = 113 \<or> b = 81 \<or> b = 3"

fun wait_quit_or_timeout :: "duration \<Rightarrow> (duration \<times> poll_result) list \<Rightarrow> (cli_error + bool) option" where
  "wait_quit_or_timeout remaining turns =
     (if remaining = 0 then Some (Inr False)
      else case turns of
        [] \<Rightarrow> None
      | (dt, e) # turns' \<Rightarrow>
          (case e of
             PollFails \<Rightarrow> Some (Inl (CliContext ''poll stdin''))
           | PollIdle \<Rightarrow> Some (Inr False)
           | ReadFails \<Rightarrow> Some (Inl (CliContext ''read stdin''))
           | ReadBytes bs \<Rightarrow>
               if bs = [] then Some (Inr True)
               else if list_ex is_quit_key bs then Some (Inr True)
               else wait_quit_or_timeout (remaining - dt) turns'))"

declare wait_quit_or_timeout.simps [simp del]

section \<open>The live view\<close>

text \<open>The terminal's flags that matter here, what was written to it, and \<open>RawMode::enter\<close>.\<close>

record tty =
  ty_echo :: bool
  ty_icanon :: bool
  ty_isig :: bool
  ty_ixon :: bool
  ty_icrnl :: bool
  ty_inlcr :: bool

definition raw_mode_enter :: "tty \<Rightarrow> tty" where
  "raw_mode_enter t = t\<lparr>ty_echo := False, ty_icanon := False, ty_ixon := False, ty_icrnl := False, ty_inlcr := False\<rparr>"

definition esc :: "string \<Rightarrow> string" where
  "esc s = CHR 0x1B # CHR ''['' # s"

definition raw_mode_drop :: "tty \<Rightarrow> tty \<Rightarrow> tty" where
  [simp]: "raw_mode_drop orig t = orig"

definition alternate_screen_enter :: string where
  "alternate_screen_enter = esc ''?1049h'' @ esc ''?25l''"

definition alternate_screen_drop :: string where
  "alternate_screen_drop = esc ''?25h'' @ esc ''?1049l''"

text \<open>The texts that come from libraries: durations, pretty JSON, and errors.\<close>

record cli_lib =
  lb_duration :: "duration \<Rightarrow> string"
  lb_pretty :: "json \<Rightarrow> string"
  lb_error :: "client_error \<Rightarrow> string"

text \<open>One turn of the live loop: whether the frame could be written, and what the wait sees.\<close>

type_synonym live_turn = "bool \<times> (duration \<times> poll_result) list"

definition live_frame :: "cli_lib \<Rightarrow> u64 \<Rightarrow> duration \<Rightarrow> client_error + clients_result \<Rightarrow> string" where
  "live_frame lib limit interval res =
     (case res of
        Inr r \<Rightarrow> render_frame (lb_duration lib) r limit interval True
      | Inl e \<Rightarrow> ''microwaf top  -n '' @ fmt_dec (unat limit) @ ''  interval='' @ lb_duration lib interval @
          ''  q/Ctrl+C quit'' @ nl @ nl @ ''error: '' @ lb_error lib e @ nl)"

text \<open>The loop ends with a result, or is still running (\<open>None\<close>) when the turns are used up.\<close>

fun live_loop ::
  "cli_lib \<Rightarrow> 'w channel \<Rightarrow> top_params \<Rightarrow> duration \<Rightarrow> live_turn list \<Rightarrow> string \<Rightarrow> 'w \<Rightarrow>
   ((cli_error + unit) \<times> string \<times> 'w) option" where
  "live_loop lib ch params interval [] out w = None"
| "live_loop lib ch params interval ((writable, input) # turns) out w =
     (case client_top ch params w of
        (res, w') \<Rightarrow>
          if \<not> writable then Some (Inl (CliContext ''write''), out, w')
          else let out' = out @ esc ''H'' @ live_frame lib (tp_limit params) interval res @ esc ''J''
               in case wait_quit_or_timeout interval input of
                    None \<Rightarrow> None
                  | Some (Inl e) \<Rightarrow> Some (Inl e, out', w')
                  | Some (Inr True) \<Rightarrow> Some (Inr (), out', w')
                  | Some (Inr False) \<Rightarrow> live_loop lib ch params interval turns out' w')"

record live_env =
  le_getattr :: bool
  le_setattr :: bool
  le_screen :: bool
  le_turns :: "live_turn list"

text \<open>
  \<open>run_live\<close>: raw mode, then the other screen, then the loop; both are undone in the opposite
  order on every way out.
\<close>

definition run_live ::
  "cli_lib \<Rightarrow> live_env \<Rightarrow> 'w channel \<Rightarrow> top_params \<Rightarrow> duration \<Rightarrow> tty \<times> string \<Rightarrow> 'w \<Rightarrow>
   ((cli_error + unit) \<times> (tty \<times> string) \<times> 'w) option" where
  "run_live lib env ch params interval scr w =
     (case scr of (orig, out) \<Rightarrow>
        let interval' = max interval (50 * 1000000) in
        if \<not> le_getattr env \<or> \<not> le_setattr env
        then Some (Inl (CliContext ''enable terminal raw mode''), scr, w)
        else if \<not> le_screen env then Some (Inl (CliContext ''write''), scr, w)
        else (case live_loop lib ch params interval' (le_turns env) (out @ alternate_screen_enter) w of
                None \<Rightarrow> None
              | Some (res, out', w') \<Rightarrow> Some (res, (raw_mode_drop orig (raw_mode_enter orig), out' @ alternate_screen_drop), w')))"

definition from_client :: "(client_error + 'a) \<Rightarrow> cli_error + 'a" where
  "from_client r = (case r of Inl e \<Rightarrow> Inl (CliClient e) | Inr x \<Rightarrow> Inr x)"

text \<open>\<open>top::run\<close>; \<open>is_tty\<close> says whether standard input and output are both terminals.\<close>

definition top_run ::
  "cli_lib \<Rightarrow> live_env \<Rightarrow> bool \<Rightarrow> 'w channel \<Rightarrow> top_params \<Rightarrow> duration \<Rightarrow> bool \<Rightarrow> bool \<Rightarrow> tty \<times> string \<Rightarrow> 'w \<Rightarrow>
   ((cli_error + unit) \<times> (tty \<times> string) \<times> 'w) option" where
  "top_run lib env is_tty ch params interval once json scr w =
     (case scr of (t, out) \<Rightarrow>
        if json then
          (case client_top ch params w of
             (Inl e, w') \<Rightarrow> Some (Inl (CliClient e), scr, w')
           | (Inr r, w') \<Rightarrow> Some (Inr (), (t, out @ lb_pretty lib (enc_clients r) @ nl), w'))
        else if once \<or> \<not> is_tty then
          (case client_top ch params w of
             (Inl e, w') \<Rightarrow> Some (Inl (CliClient e), scr, w')
           | (Inr r, w') \<Rightarrow> Some (Inr (), (t, out @ render_frame (lb_duration lib) r (tp_limit params) interval False), w'))
        else run_live lib env ch params interval scr w)"

section \<open>Every line of a frame is equally wide\<close>

lemma char_count_simps [simp]:
  "char_count [] = 0"
  "char_count (s @ t) = char_count s + char_count t"
  by (simp_all add: char_count_def)

lemma char_count_concat: "char_count (concat ss) = sum_list (map char_count ss)"
  by (induction ss) simp_all

lemma char_count_le: "char_count s \<le> length s"
  by (simp add: char_count_def)

text \<open>On valid UTF-8 the count is the number of characters the bytes are cut into.\<close>

lemma char_count_chars: "utf8_valid (map byte_of s) \<Longrightarrow> char_count s = length (str_chars s)"
proof (induction s rule: str_chars.induct)
  case (2 c cs)
  then show ?case
    by (auto simp: char_count_def utf8_width_def utf8_cont_def utf8_second3_def utf8_second4_def
        split: if_splits list.splits)
qed simp

lemma char_count_cons: "char_count (c # s) = (if utf8_cont (byte_of c) then 0 else 1) + char_count s"
  by (simp add: char_count_def)

lemmas count_ascii = char_count_cons utf8_cont_def byte_of_def

lemma fill_count: "char_count f = 1 \<Longrightarrow> char_count (fill_with f n) = n"
  by (simp add: fill_with_def char_count_concat sum_list_replicate)

lemma one_char [simp]: "char_count '' '' = 1" "char_count ''-'' = 1" "char_count middle_dot = 1"
  "char_count ''  '' = 2"
  by (simp_all add: count_ascii middle_dot_def latin1_to_string_def)

lemma pad_counts:
  "char_count s \<le> w \<Longrightarrow> char_count (pad_right_aligned w s) = w"
  "char_count f = 1 \<Longrightarrow> char_count s \<le> w \<Longrightarrow> char_count (pad_left_aligned f w s) = w"
  "char_count s \<le> w \<Longrightarrow> char_count (pad_centered w s) = w"
  by (simp_all add: pad_right_aligned_def pad_left_aligned_def pad_centered_def Let_def fill_count)

lemma fmt_dec_length:
  "length (fmt_dec n) \<le> k \<longleftrightarrow> n < 10 ^ k" if "0 < k"
  unfolding fmt_dec_def using that
proof (induction "10 :: nat" n arbitrary: k rule: fmt_radix.induct)
  case (1 n)
  show ?case
  proof (cases "n < 10")
    case True
    then have "n < 10 ^ k" using 1(2) by (cases k) (auto intro: less_le_trans)
    then show ?thesis using True 1(2) by (subst fmt_radix.simps) simp
  next
    case False
    show ?thesis
    proof (cases "k = 1")
      case True
      then show ?thesis using False by (subst fmt_radix.simps) simp
    next
      case k: False
      with 1(2) obtain j where j: "k = Suc j" "0 < j" by (cases k) auto
      have "length (fmt_radix 10 (n div 10)) \<le> j \<longleftrightarrow> n div 10 < 10 ^ j"
        using 1(1) [of j] False j by simp
      moreover have "n div 10 < 10 ^ j \<longleftrightarrow> n < 10 ^ k" by (simp add: j div_less_iff_less_mult mult.commute)
      ultimately show ?thesis using False j by (subst fmt_radix.simps) simp
    qed
  qed
qed

lemma fold_max_bounds:
  "(m :: nat) \<le> fold (\<lambda>x w. max w (f x)) xs m" "x \<in> set xs \<Longrightarrow> f x \<le> fold (\<lambda>x w. max w (f x)) xs m"
proof -
  have mono: "m \<le> fold (\<lambda>x w. max w (f x)) xs m" for m xs
    by (induction xs arbitrary: m) (simp, metis fold_simps(2) max.bounded_iff)
  show "m \<le> fold (\<lambda>x w. max w (f x)) xs m" by (rule mono)
  show "x \<in> set xs \<Longrightarrow> f x \<le> fold (\<lambda>x w. max w (f x)) xs m"
    by (induction xs arbitrary: m) (auto intro: order_trans [OF max.cobounded2 mono])
qed

lemma column_width_fits:
  "char_count (tc_rule_id col) \<le> column_width clients i col"
  "e \<in> set clients \<Longrightarrow> char_count (cell e col i) \<le> column_width clients i col"
proof -
  let ?f = "\<lambda>entry. length (cell entry col i)"
  have "length (tc_rule_id col) \<le> column_width clients i col"
    unfolding column_width_def by (rule max.coboundedI1, rule fold_max_bounds(1))
  then show "char_count (tc_rule_id col) \<le> column_width clients i col" using char_count_le order_trans by blast
  assume "e \<in> set clients"
  then have "length (cell e col i) \<le> column_width clients i col"
    unfolding column_width_def by (intro max.coboundedI1 fold_max_bounds(2) [of e clients ?f])
  then show "char_count (cell e col i) \<le> column_width clients i col" using char_count_le order_trans by blast
qed

lemma client_width_fits: "e \<in> set clients \<Longrightarrow> char_count (format_client (ce_client e)) \<le> client_width clients"
proof -
  assume e: "e \<in> set clients"
  let ?ls = "map (\<lambda>c. length (format_client (ce_client c))) clients"
  obtain w ws where ls: "?ls = w # ws" using e by (cases clients) auto
  have "fold max ws w = Max (set ?ls)" unfolding ls by (rule Max.set_eq_fold [symmetric])
  moreover have "length (format_client (ce_client e)) \<le> Max (set ?ls)" using e by (intro Max_ge) auto
  ultimately have "length (format_client (ce_client e)) \<le> client_width clients"
    unfolding client_width_def ls by simp
  then show ?thesis using char_count_le order_trans by blast
qed

lemma action_fits: "char_count (format_action a) \<le> 10"
proof -
  have "length (format_action a) \<le> 10"
  proof (cases a)
    case (Some x)
    have "length (fmt_dec (unat r)) \<le> 3" for r :: u8
      using unsigned_less [of r, where ?'a = nat] by (simp add: fmt_dec_length)
    from le_trans [OF this, of 5] show ?thesis by (cases x) (auto simp: Some format_action_def)
  qed (simp add: format_action_def)
  then show ?thesis using char_count_le order_trans by blast
qed

text \<open>
  The lines below the title: the header, a ruled line, the hot clients at the head of the answer,
  a dotted line where the first client that is not hot comes after hot ones, and the rest.
\<close>

definition frame_lines :: "clients_result \<Rightarrow> string list" where
  "frame_lines r =
     (let client_w = client_width (cl_clients r);
          ws = column_widths (cl_columns r) (cl_clients r);
          row = (\<lambda>(i, e). format_row i e (cl_columns r) ws client_w 10 10);
          hot = takeWhile ce_hot (cl_clients r);
          rest = dropWhile ce_hot (cl_clients r)
      in [header_line (cl_columns r) ws client_w 10 10, ruled_line ''-'' ws client_w 10 10] @
         map row (enumerate 1 hot) @
         (if hot \<noteq> [] \<and> rest \<noteq> [] then [ruled_line middle_dot ws client_w 10 10] else []) @
         map row (enumerate (length hot + 1) rest))"

definition frame_width :: "clients_result \<Rightarrow> nat" where
  "frame_width r = 30 + client_width (cl_clients r) + sum_list (map (\<lambda>w. w + 2) (column_widths (cl_columns r) (cl_clients r)))"

abbreviation unlines :: "string list \<Rightarrow> string" where
  "unlines ls \<equiv> concat (map (\<lambda>l. l @ nl) ls)"

lemma push_rows_saw_rest:
  "push_rows cols ws cw aw ww i True es =
     unlines (map (\<lambda>(i, e). format_row i e cols ws cw aw ww) (enumerate (i + 1) es))"
  by (induction es arbitrary: i) simp_all

lemma push_rows_lines:
  "push_rows cols ws cw aw ww i False es =
     unlines (map (\<lambda>(i, e). format_row i e cols ws cw aw ww) (enumerate (i + 1) (takeWhile ce_hot es)) @
       (if (0 < i \<or> takeWhile ce_hot es \<noteq> []) \<and> dropWhile ce_hot es \<noteq> [] then [ruled_line middle_dot ws cw aw ww] else []) @
       map (\<lambda>(i, e). format_row i e cols ws cw aw ww) (enumerate (i + length (takeWhile ce_hot es) + 1) (dropWhile ce_hot es)))"
  by (induction es arbitrary: i) (simp_all add: push_rows_saw_rest del: dropWhile_eq_Nil_conv)

lemma enumerate_member: "(i, x) \<in> set (enumerate n xs) \<Longrightarrow> x \<in> set xs"
  by (metis map_snd_enumerate image_eqI list.set_map snd_conv)

lemma enumerate_zip_cols:
  "concat (map (\<lambda>(i, col, w). f i col w) (enumerate n (zip cols (map (\<lambda>(i, col). g i col) (enumerate n cols))))) =
     concat (map (\<lambda>(i, col). f i col (g i col)) (enumerate n cols))"
  by (induction cols arbitrary: n) simp_all

lemma zip_cols:
  "map (\<lambda>(col, w). f col w) (zip cols (map (\<lambda>(i, col). g i col) (enumerate n cols))) =
     map (\<lambda>(i, col). f col (g i col)) (enumerate n cols)"
  by (induction cols arbitrary: n) simp_all

lemma sum_columns:
  assumes "\<And>i col. char_count (f i col) = h (g i col)"
  shows "char_count (concat (map (\<lambda>(i, col). f i col) (enumerate n cols))) =
     sum_list (map h (map (\<lambda>(i, col). g i col) (enumerate n cols)))"
  unfolding char_count_concat by (induction cols arbitrary: n) (simp_all add: assms)

lemma row_width:
  assumes "e \<in> set (cl_clients r)" "rank < 1000"
  shows "char_count (format_row rank e (cl_columns r) (column_widths (cl_columns r) (cl_clients r))
     (client_width (cl_clients r)) 10 10) = frame_width r"
proof -
  let ?w = "column_width (cl_clients r)"
  have rank: "char_count (fmt_dec rank) \<le> 3"
    using order_trans [OF char_count_le, of "fmt_dec rank" 3] assms(2) by (simp add: fmt_dec_length)
  have "char_count (''  '' @ pad_right_aligned (?w i col) (cell e col i)) = ?w i col + 2" for i col
    using column_width_fits(2) [OF assms(1)] by (simp add: pad_counts count_ascii)
  note cols = sum_columns [of "\<lambda>i col. ''  '' @ pad_right_aligned (?w i col) (cell e col i)" "\<lambda>w. w + 2" ?w, OF this]
  show ?thesis
    unfolding format_row_def column_widths_def enumerate_zip_cols frame_width_def char_count_simps cols
    using rank client_width_fits [OF assms(1)] action_fits
    by (simp add: pad_counts count_ascii)
qed

lemma header_width:
  "char_count (header_line (cl_columns r) (column_widths (cl_columns r) (cl_clients r)) (client_width (cl_clients r)) 10 10)
     = frame_width r"
proof -
  let ?w = "column_width (cl_clients r)"
  have "char_count (''  '' @ pad_centered (?w i col) (tc_rule_id col)) = ?w i col + 2" for i col
    using column_width_fits(1) by (simp add: pad_counts count_ascii)
  note cols = sum_columns [of "\<lambda>i col. ''  '' @ pad_centered (?w i col) (tc_rule_id col)" "\<lambda>w. w + 2" ?w, OF this]
  have "6 \<le> client_width (cl_clients r)" by (simp add: client_width_def)
  then show ?thesis
    unfolding header_line_def column_widths_def zip_cols frame_width_def char_count_simps cols
    by (simp add: pad_counts count_ascii)
qed

lemma ruled_width:
  "char_count f = 1 \<Longrightarrow>
   char_count (ruled_line f (column_widths (cl_columns r) (cl_clients r)) (client_width (cl_clients r)) 10 10) = frame_width r"
  by (simp add: ruled_line_def frame_width_def pad_counts char_count_concat o_def count_ascii)

text \<open>
  A frame of \<open>top\<close> is its title and then the header, a ruled line and one row for each
  client in the order of the answer, numbered from one, with one dotted line where the first
  client that is not hot follows hot ones. While there are fewer than 1000 clients, all these
  lines have the same number of characters, whatever the names of clients and rules are.
\<close>

lemma frame_aligned:
  assumes "cl_clients r \<noteq> []"
  shows "render_frame format_duration r limit interval live =
       title_line format_duration r limit interval live @ unlines (frame_lines r) \<and>
     (length (cl_clients r) < 1000 \<longrightarrow> (\<forall>l \<in> set (frame_lines r). char_count l = frame_width r))"
proof
  show "render_frame format_duration r limit interval live =
       title_line format_duration r limit interval live @ unlines (frame_lines r)"
    using assms by (simp add: render_frame_def frame_lines_def Let_def push_rows_lines)
  have row: "char_count (format_row i e (cl_columns r) (column_widths (cl_columns r) (cl_clients r))
     (client_width (cl_clients r)) 10 10) = frame_width r"
    if "length (cl_clients r) < 1000"
      "(i, e) \<in> set (enumerate 1 (takeWhile ce_hot (cl_clients r))) \<or>
       (i, e) \<in> set (enumerate (length (takeWhile ce_hot (cl_clients r)) + 1) (dropWhile ce_hot (cl_clients r)))" for i e
  proof (rule row_width)
    have len: "length (takeWhile ce_hot (cl_clients r)) + length (dropWhile ce_hot (cl_clients r)) = length (cl_clients r)"
      by (metis length_append takeWhile_dropWhile_id)
    show "e \<in> set (cl_clients r)"
      using that(2) enumerate_member set_takeWhileD set_dropWhileD by metis
    show "i < 1000" using that len by (auto simp: in_set_enumerate_eq)
  qed
  show "length (cl_clients r) < 1000 \<longrightarrow> (\<forall>l \<in> set (frame_lines r). char_count l = frame_width r)"
    using row by (auto simp: frame_lines_def Let_def header_width ruled_width split: if_splits)
qed

definition sample_top :: clients_result where
  "sample_top =
     \<lparr>cl_clients =
        [\<lparr>ce_client = \<lparr>cf_mac = ''aa:bb:cc:dd:ee:ff'', cf_ip = Some ''10.0.0.1''\<rparr>, ce_action = Some WNone,
          ce_would_be_action = None,
          ce_violations = [\<lparr>vw_rule_id = ''http-rps'', vw_value = 3, vw_limit = 100, vw_action = WNone\<rparr>,
            \<lparr>vw_rule_id = ''z21-rpm'', vw_value = 0, vw_limit = 500, vw_action = WNone\<rparr>],
          ce_hot = False, ce_stats = None\<rparr>],
      cl_columns =
        [\<lparr>tc_rule_id = ''http-rps'', tc_window = ''per-second'', tc_limit = 100, tc_min_threshold = 50\<rparr>,
         \<lparr>tc_rule_id = ''z21-rpm'', tc_window = ''per-minute'', tc_limit = 500, tc_min_threshold = 200\<rparr>]\<rparr>"

lemma frame_aligned_example:
  "render_frame (\<lambda>_. []) sample_top 0 500 False =
     title_line (\<lambda>_. []) sample_top 0 500 False @ unlines (frame_lines sample_top) \<and>
   (\<forall>l \<in> set (frame_lines sample_top). char_count l = frame_width sample_top)"
proof -
  have "cl_clients sample_top \<noteq> []" "length (cl_clients sample_top) < 1000" by (simp_all add: sample_top_def)
  then show ?thesis using frame_aligned [of sample_top] by blast
qed

section \<open>What the cells of a row say\<close>

lemma value_for_column_at:
  assumes "map vw_rule_id (ce_violations e) = map tc_rule_id cols" "i < length cols"
  shows "value_for_column e (cols ! i) i = vw_value (ce_violations e ! i)"
proof -
  have "i < length (ce_violations e)" using assms by (metis length_map)
  moreover have "vw_rule_id (ce_violations e ! i) = tc_rule_id (cols ! i)"
    using assms calculation by (metis nth_map)
  ultimately show ?thesis by (simp add: value_for_column_def)
qed

lemma scored_row_obs:
  assumes "ds_wf st" "row \<in> set (scored_rows st rules)"
  shows "sc_obs row = map (\<lambda>r. \<lparr>vw_rule_id = r_id r,
       vw_value = (case hm_get (ds_windows st) (sc_client row) of
                     Some win \<Rightarrow> rw_sum win (r_id r) (r_metric r) (window_secs (r_window r)) | None \<Rightarrow> 0),
       vw_limit = r_limit r, vw_action = action_to_wire (r_action r)\<rparr>) rules"
proof -
  have wf: "distinct (map fst (ds_windows st))" using assms(1) by (simp add: ds_wf_def hm_wf_def hm_keys_def)
  consider win where "(sc_client row, win) \<in> set (ds_windows st)" "sc_obs row = snd (snd (score_client win rules))"
    | "sc_client row \<notin> set (hm_keys (ds_windows st))" "sc_obs row = zero_observations rules"
    using assms(2) by (force simp: scored_rows_def Let_def split: prod.splits)
  then show ?thesis
  proof cases
    case 1
    then have "hm_get (ds_windows st) (sc_client row) = Some win" using wf by (simp add: hm_get_def)
    with 1 show ?thesis by (simp add: score_client_def score_loop_eq)
  next
    case 2
    then have "hm_get (ds_windows st) (sc_client row) = None"
      by (simp add: hm_get_def hm_keys_def map_of_eq_None_iff)
    with 2 show ?thesis by (simp add: zero_observations_def)
  qed
qed

text \<open>
  C26: in the table of \<open>top\<close> the cells of a client's row are the sums of its sliding windows under
  the rules that pass the filters, in rule order, each with the unit of the rule's window; a
  client without windows has zeros.
\<close>

theorem top_table_shows_sums:
  assumes "ds_wf st" "e \<in> set (cl_clients (top_cmd now st params))" "ce_client e = client_to_ref c"
  shows "map (\<lambda>(i, col). cell e col i) (enumerate 0 (cl_columns (top_cmd now st params))) =
     map (\<lambda>r. fmt_dec (unat (case hm_get (ds_windows st) c of
                   Some win \<Rightarrow> rw_sum win (r_id r) (r_metric r) (window_secs (r_window r)) | None \<Rightarrow> 0)) @
              (case r_window r of PerSecond \<Rightarrow> ''/s'' | PerMinute \<Rightarrow> ''/m''))
       (filter (rule_matches params) (rs_rules (state_rules st)))"
proof -
  define rules where "rules = filter (rule_matches params) (rs_rules (state_rules st))"
  define cols where "cols = cl_columns (top_cmd now st params)"
  have cols: "cols = map (\<lambda>r. \<lparr>tc_rule_id = r_id r, tc_window = window_as_str (r_window r),
      tc_limit = r_limit r, tc_min_threshold = r_min_threshold r\<rparr>) rules"
    by (simp add: cols_def top_cmd_def Let_def rules_def)
  obtain row where row: "row \<in> set (top_rows st params)" "ce_client e = client_to_ref (sc_client row)" "ce_violations e = sc_obs row"
    using assms(2) by (auto simp: top_cmd_def Let_def)
  then have c: "sc_client row = c" using assms(3) by simp
  have "row \<in> set (scored_rows st rules)"
    using row(1) by (auto simp: top_rows_def Let_def rules_def dest: in_set_takeD split: if_splits)
  from scored_row_obs [OF assms(1) this] have obs: "ce_violations e = map (\<lambda>r. \<lparr>vw_rule_id = r_id r,
       vw_value = (case hm_get (ds_windows st) c of
                     Some win \<Rightarrow> rw_sum win (r_id r) (r_metric r) (window_secs (r_window r)) | None \<Rightarrow> 0),
       vw_limit = r_limit r, vw_action = action_to_wire (r_action r)\<rparr>) rules"
    by (simp add: row(3) c)
  then have ids: "map vw_rule_id (ce_violations e) = map tc_rule_id cols" by (simp add: cols o_def)
  have unit: "window_unit (window_as_str w) = (case w of PerSecond \<Rightarrow> ''/s'' | PerMinute \<Rightarrow> ''/m'')" for w
    by (cases w) (simp_all add: window_unit_def)
  show ?thesis
    unfolding cols_def [symmetric] rules_def [symmetric]
  proof (rule nth_equalityI)
    fix i assume "i < length (map (\<lambda>(i, col). cell e col i) (enumerate 0 cols))"
    then have "i < length rules" by (simp add: cols)
    then show "map (\<lambda>(i, col). cell e col i) (enumerate 0 cols) ! i = map (\<lambda>r. fmt_dec (unat (case hm_get (ds_windows st) c of
                   Some win \<Rightarrow> rw_sum win (r_id r) (r_metric r) (window_secs (r_window r)) | None \<Rightarrow> 0)) @
              (case r_window r of PerSecond \<Rightarrow> ''/s'' | PerMinute \<Rightarrow> ''/m'')) rules ! i"
      using value_for_column_at [OF ids, of i]
      by (simp add: nth_enumerate_eq cell_def format_rate_def cols obs unit)
  qed (simp add: cols)
qed

lemma top_lists_known:
  assumes "ds_wf st" "tp_limit params = 0" "c \<in> known_clients st"
  shows "\<exists>e \<in> set (cl_clients (top_cmd now st params)). ce_client e = client_to_ref c"
proof -
  let ?rules = "filter (rule_matches params) (rs_rules (state_rules st))"
  have "c \<in> sc_client ` set (scored_rows st ?rules)"
    using scored_rows_distinct(2) [OF assms(1), of ?rules] assms(3) by simp
  then show ?thesis using assms(2) by (auto simp: top_cmd_def top_rows_def Let_def)
qed

definition watched_state :: "unit daemon_state" where
  "watched_state = busy_state\<lparr>ds_windows := [(sample_client, rw_run [RAdvance 7, RAdd ''u'' Bytes 20 7])]\<rparr>"

definition all_top :: top_params where
  "all_top = \<lparr>tp_limit = 0, tp_rule_id = None, tp_protocol = None, tp_metric = None\<rparr>"

theorem top_table_shows_sums_witness:
  "\<exists>e. e \<in> set (cl_clients (top_cmd 7 watched_state all_top)) \<and> ce_client e = client_to_ref sample_client \<and>
     map (\<lambda>(i, col). cell e col i) (enumerate 0 (cl_columns (top_cmd 7 watched_state all_top))) = [''20/s'']"
proof -
  have wf: "ds_wf watched_state"
    using busy_wf by (simp add: watched_state_def ds_wf_def state_rules_def hm_wf_def hm_keys_def)
  have rules: "filter (rule_matches all_top) (rs_rules (state_rules watched_state)) =
      [\<lparr>r_id = ''u'', r_protocol = Udp, r_ports = None, r_metric = Bytes, r_window = PerSecond, r_limit = 10,
        r_action = ActBlock, r_min_threshold = 0, r_match = None, r_match_src = None\<rparr>]"
    by (simp add: watched_state_def busy_state_def daemon_state_new_def state_rules_def rule_matches_def all_top_def)
  have "sample_client \<in> known_clients watched_state"
    by (simp add: known_clients_def watched_state_def hm_keys_def)
  then obtain e where e: "e \<in> set (cl_clients (top_cmd 7 watched_state all_top))" "ce_client e = client_to_ref sample_client"
    using top_lists_known [OF wf, of all_top] by (auto simp: all_top_def)
  have win: "hm_get (ds_windows watched_state) sample_client = Some (rw_run [RAdvance 7, RAdd ''u'' Bytes 20 7])"
    by (simp add: watched_state_def hm_simps)
  have "fmt_dec 20 = ''20''" by code_simp
  then have "map (\<lambda>(i, col). cell e col i) (enumerate 0 (cl_columns (top_cmd 7 watched_state all_top))) = [''20/s'']"
    unfolding top_table_shows_sums [OF wf e] rules using win busy_sum [of 7] by simp
  then show ?thesis by (intro exI [of _ e] conjI e)
qed

section \<open>The live view ends and tidies up\<close>

lemma wait_returns:
  "remaining \<le> sum_list (map fst turns) \<Longrightarrow> wait_quit_or_timeout remaining turns \<noteq> None"
proof (induction turns arbitrary: remaining)
  case Nil
  then show ?case by (simp add: wait_quit_or_timeout.simps)
next
  case (Cons t turns)
  obtain dt e where t: "t = (dt, e)" by fastforce
  have "wait_quit_or_timeout (remaining - dt) turns \<noteq> None" using Cons by (simp add: t)
  then show ?case
    by (simp add: wait_quit_or_timeout.simps [of remaining "(dt, e) # turns"] t split: poll_result.split)
qed

text \<open>Bytes that arrive while the clock has not run out are looked at one by one.\<close>

lemma wait_quit_iff:
  assumes "\<forall>(dt, e) \<in> set turns. \<exists>bs. e = ReadBytes bs \<and> bs \<noteq> []" "sum_list (map fst turns) < remaining"
  shows "wait_quit_or_timeout remaining (turns @ [(dt, PollIdle)]) =
     Some (Inr (\<exists>(dt, e) \<in> set turns. \<exists>bs. e = ReadBytes bs \<and> list_ex is_quit_key bs))"
  using assms
proof (induction turns arbitrary: remaining)
  case Nil
  then show ?case by (simp add: wait_quit_or_timeout.simps)
next
  case (Cons t turns)
  then obtain dt' bs where t: "t = (dt', ReadBytes bs)" "bs \<noteq> []" by fastforce
  have "wait_quit_or_timeout (remaining - dt') (turns @ [(dt, PollIdle)]) =
     Some (Inr (\<exists>(dt, e) \<in> set turns. \<exists>bs. e = ReadBytes bs \<and> list_ex is_quit_key bs))"
    using Cons.prems by (intro Cons.IH) (auto simp: t)
  then show ?case
    using Cons.prems(2) by (simp add: wait_quit_or_timeout.simps [of remaining "(dt', ReadBytes bs) # turns @ [(dt, PollIdle)]"] t)
qed

lemma live_loop_out: "live_loop lib ch params interval turns out w = Some (res, out', w') \<Longrightarrow> \<exists>s. out' = out @ s"
proof (induction turns arbitrary: out w)
  case (Cons t turns)
  then show ?case
    by (cases t) (fastforce simp: Let_def split: prod.splits if_splits option.splits sum.splits bool.splits)
qed simp

lemma raw_mode_isig [simp]: "ty_isig (raw_mode_enter t) = ty_isig t"
  by (simp add: raw_mode_enter_def)

end
