(* ===== verification/L7_Detectors.thy ===== *)
theory L7_Detectors
  imports Rust_Str
begin

text \<open>
  \<open>crates/mw-sniffer/src\<close>: the detectors for HTTP requests, WebSocket frames, Z21 records and
  WiThrottle lines. Indexing is checked, so \<open>None\<close> is a panic and the answer of a detector is
  the value inside. No detector panics on any payload; the WebSocket and Z21 detectors read
  back what the protocols' encodings say; and the lengths Z21 reports fit in the payload.
\<close>

unbundle bit_operations_syntax

section \<open>HTTP\<close>

record http_request_line =
  ht_method :: string
  ht_path :: string
  ht_query :: string
  ht_upgrade_ws :: bool
  ht_headers :: "(string \<times> string) list"

abbreviation crlf :: string where "crlf \<equiv> [CHR 0x0D, CHR 0x0A]"
abbreviation lf :: char where "lf \<equiv> CHR 0x0A"
abbreviation cr :: char where "cr \<equiv> CHR 0x0D"

text \<open>The loop over the header lines, up to the first empty one.\<close>

fun http_headers :: "string list \<Rightarrow> bool \<Rightarrow> (string \<times> string) list \<Rightarrow> bool \<times> (string \<times> string) list" where
  "http_headers [] up acc = (up, acc)"
| "http_headers (l # ls) up acc =
     (if l = [] then (up, acc)
      else case split_once_at CHR '':'' l of
             None \<Rightarrow> http_headers ls up acc
           | Some (n, v) \<Rightarrow>
               let n = to_ascii_lowercase (str_trim n); v = str_trim v
               in http_headers ls (up \<or> n = ''upgrade'' \<and> eq_ignore_ascii_case v ''websocket'') (acc @ [(n, v)]))"

definition http_target :: "string \<Rightarrow> string \<times> string" where
  "http_target target =
     (case split_once_at CHR ''?'' target of
        Some (p, q) \<Rightarrow> (p, hd (split_at_char CHR ''#'' q))
      | None \<Rightarrow> (hd (split_at_char CHR ''#'' target), []))"

definition detect_http_text :: "string \<Rightarrow> http_request_line option" where
  "detect_http_text t =
     (case (case split_once_str crlf t of Some x \<Rightarrow> Some x | None \<Rightarrow> split_once_at lf t) of
        None \<Rightarrow> None
      | Some (head, rest) \<Rightarrow>
          (case split_whitespace head of
             meth # target # version # _ \<Rightarrow>
               if \<not> prefix ''HTTP/'' version then None
               else if \<not> list_all (\<lambda>c. is_ascii_alphabetic (byte_of c)) meth then None
               else
                 let (path, query) = http_target target;
                     ls = concat (map (split_at_char lf) (split_str crlf rest));
                     (up, hs) = http_headers ls False []
                 in Some \<lparr>ht_method = meth, ht_path = path, ht_query = query, ht_upgrade_ws = up, ht_headers = hs\<rparr>
           | _ \<Rightarrow> None))"

definition detect_http_request :: "u8 list \<Rightarrow> http_request_line option option" where
  "detect_http_request payload =
     (if payload = [] then Some None
      else do {
        b0 \<leftarrow> idx payload 0;
        tls \<leftarrow> (if length payload \<ge> 2 \<and> b0 = 0x16
               then map_option (\<lambda>b1. b1 = 0x03) (idx payload 1) else Some False);
        if tls then Some None
        else if \<not> is_ascii_alphabetic (unat b0) then Some None
        else Some (Option.bind (from_utf8 payload) detect_http_text)})"

section \<open>WebSocket\<close>

record ws_frame_header =
  wf_fin :: bool
  wf_opcode :: u8
  wf_payload_len :: u64
  wf_masked :: bool

definition u64_from_be :: "u8 list \<Rightarrow> u64" where
  "u64_from_be bs = of_nat (foldl (\<lambda>a b. a * 256 + unat b) 0 bs)"

text \<open>The length and the size of the header before the mask.\<close>

definition ws_length :: "u8 list \<Rightarrow> u8 \<Rightarrow> (u64 \<times> nat) option option" where
  "ws_length payload len7 =
     (if len7 = 126 then
        (if length payload < 4 then Some None
         else do {
           x \<leftarrow> idx payload 2;
           y \<leftarrow> idx payload 3;
           Some (Some (u64_from_be [x, y], 4))})
      else if len7 = 127 then
        (if length payload < 10 then Some None
         else do {
           bs \<leftarrow> sub_slice payload 2 10;
           let len = u64_from_be bs;
           if len AND push_bit 63 1 \<noteq> 0 then Some None else Some (Some (len, 10))})
      else Some (Some (ucast len7, 2)))"

definition detect_ws_frame :: "u8 list \<Rightarrow> ws_frame_header option option" where
  "detect_ws_frame payload =
     (if length payload < 2 then Some None
      else do {
        b0 \<leftarrow> idx payload 0;
        b1 \<leftarrow> idx payload 1;
        let fin = (b0 AND 0x80 \<noteq> 0);
        let opcode = b0 AND 0x0F;
        let masked = (b1 AND 0x80 \<noteq> 0);
        r \<leftarrow> ws_length payload (b1 AND 0x7F);
        case r of
          None \<Rightarrow> Some None
        | Some (len, hdr) \<Rightarrow>
            let need = hdr + (if masked then 4 else 0)
            in if length payload < need then Some None
               else if \<not> (opcode \<le> 2 \<or> 8 \<le> opcode \<and> opcode \<le> 10) then Some None
               else Some (Some \<lparr>wf_fin = fin, wf_opcode = opcode, wf_payload_len = len, wf_masked = masked\<rparr>)})"

section \<open>Z21\<close>

record z21_record =
  zr_header :: u16
  zr_xheader :: u8
  zr_data_len :: u16
  zr_data :: "u8 list"

definition u16_from_le :: "u8 \<Rightarrow> u8 \<Rightarrow> u16" where
  "u16_from_le lo hi = of_nat (unat lo + 256 * unat hi)"

text \<open>The loop of \<open>detect_z21_records\<close> from the offset \<open>off\<close>.\<close>

function z21_loop :: "u8 list \<Rightarrow> nat \<Rightarrow> z21_record list option" where
  "z21_loop payload off =
     (if off + 4 \<le> length payload then
        (case (idx payload off, idx payload (off + 1), idx payload (off + 2), idx payload (off + 3)) of
           (Some a, Some b, Some c, Some d) \<Rightarrow>
             let data_len = u16_from_le a b; header = u16_from_le c d; total = unat data_len
             in if total < 4 then Some []
                else if off + total > length payload then Some []
                else (case sub_slice payload (off + 4) (off + total) of
                        None \<Rightarrow> None
                      | Some dat \<Rightarrow>
                          let xheader = (if header = 0x40 then (case dat of x # _ \<Rightarrow> x | [] \<Rightarrow> 0) else 0)
                          in map_option (\<lambda>rs. \<lparr>zr_header = header, zr_xheader = xheader, zr_data_len = data_len,
                                               zr_data = dat\<rparr> # rs) (z21_loop payload (off + total)))
         | _ \<Rightarrow> None)
      else Some [])"
  by pat_completeness auto
termination
  by (relation "measure (\<lambda>(p, off). length p + 1 - off)") auto

definition detect_z21_records :: "u8 list \<Rightarrow> z21_record list option" where
  "detect_z21_records payload = z21_loop payload 0"

section \<open>WiThrottle\<close>

record withrottle_line =
  wl_prefix :: string
  wl_throttle :: string
  wl_command :: string

definition take_chars :: "nat \<Rightarrow> string \<Rightarrow> string" where
  "take_chars n s = concat (take n (str_chars s))"

definition alpha_at :: "string \<Rightarrow> nat \<Rightarrow> bool option" where
  "alpha_at s i = map_option (\<lambda>c. is_ascii_alphabetic (byte_of c)) (idx s i)"

definition and_then :: "bool option \<Rightarrow> bool option \<Rightarrow> bool option" where
  "and_then a b = (case a of None \<Rightarrow> None | Some False \<Rightarrow> Some False | Some True \<Rightarrow> b)"

definition parse_prefix :: "string \<Rightarrow> (string \<times> string) option" where
  "parse_prefix line =
     (if line = [] then Some ([], [])
      else do {
        b0 \<leftarrow> idx line 0;
        if b0 = CHR ''*'' then Some (''*'', [])
        else if b0 = CHR ''M'' \<and> length line \<ge> 3 then do {
          b1 \<leftarrow> idx line 1;
          Some (take_chars 3 line, latin1_to_string (byte_of b1))}
        else do {
          three \<leftarrow> (if length line \<ge> 3
                   then and_then (alpha_at line 0) (and_then (alpha_at line 1) (alpha_at line 2))
                   else Some False);
          two \<leftarrow> (if length line \<ge> 2 then and_then (alpha_at line 0) (alpha_at line 1) else Some False);
          let n = (if three then 3 else if two then 2 else 1);
          Some (take_chars n line, [])}})"

text \<open>The loop over the lines of the text.\<close>

fun withrottle_loop :: "string list \<Rightarrow> withrottle_line list option" where
  "withrottle_loop [] = Some []"
| "withrottle_loop (raw # rest) =
     (let line = str_trim raw
      in if line = [] then withrottle_loop rest
         else if prefix ''AT+CIPSENDBUF='' line then withrottle_loop rest
         else case parse_prefix line of
                None \<Rightarrow> None
              | Some (p, t) \<Rightarrow>
                  map_option (\<lambda>ls. \<lparr>wl_prefix = p, wl_throttle = t, wl_command = line\<rparr> # ls) (withrottle_loop rest))"

definition detect_withrottle_lines :: "u8 list \<Rightarrow> withrottle_line list option" where
  "detect_withrottle_lines payload =
     (case from_utf8 payload of
        None \<Rightarrow> Some []
      | Some t \<Rightarrow> withrottle_loop (split_on (\<lambda>c. c = lf \<or> c = cr) t))"

section \<open>No detector panics\<close>

lemma detect_http_total: "\<exists>r. detect_http_request payload = Some r"
  by (cases payload) (auto simp: detect_http_request_def idx_def)

lemma ws_length_total: "\<exists>r. ws_length payload len7 = Some r"
  by (auto simp: ws_length_def idx_def sub_slice_def Let_def)

lemma detect_ws_total: "\<exists>r. detect_ws_frame payload = Some r"
proof (cases "length payload < 2")
  case False
  obtain r where "ws_length payload (payload ! 1 AND 0x7F) = Some r" using ws_length_total by blast
  with False show ?thesis by (auto simp: detect_ws_frame_def idx_def Let_def split: option.splits)
qed (simp add: detect_ws_frame_def)

declare z21_loop.simps [simp del]

text \<open>The length field at an offset, and the record there.\<close>

definition z21_len :: "u8 list \<Rightarrow> nat \<Rightarrow> nat" where
  "z21_len payload off = unat (u16_from_le (payload ! off) (payload ! (off + 1)))"

definition z21_at :: "u8 list \<Rightarrow> nat \<Rightarrow> z21_record" where
  "z21_at payload off =
     (let header = u16_from_le (payload ! (off + 2)) (payload ! (off + 3));
          dat = take (z21_len payload off - 4) (drop (off + 4) payload)
      in \<lparr>zr_header = header,
          zr_xheader = (if header = 0x40 then (case dat of x # _ \<Rightarrow> x | [] \<Rightarrow> 0) else 0),
          zr_data_len = u16_from_le (payload ! off) (payload ! (off + 1)), zr_data = dat\<rparr>)"

lemma z21_step:
  "z21_loop payload off =
     (if off + 4 \<le> length payload \<and> 4 \<le> z21_len payload off \<and> off + z21_len payload off \<le> length payload
      then map_option (\<lambda>rs. z21_at payload off # rs) (z21_loop payload (off + z21_len payload off))
      else Some [])"
  by (subst z21_loop.simps) (auto simp: idx_def sub_slice_def z21_len_def z21_at_def Let_def)

lemma z21_loop_total: "\<exists>rs. z21_loop payload off = Some rs"
proof (induction "length payload + 1 - off" arbitrary: off rule: less_induct)
  case less
  show ?case
  proof (cases "off + 4 \<le> length payload \<and> 4 \<le> z21_len payload off \<and> off + z21_len payload off \<le> length payload")
    case True
    then obtain rs where "z21_loop payload (off + z21_len payload off) = Some rs"
      using less [of "off + z21_len payload off"] by fastforce
    then show ?thesis by (subst z21_step) simp
  next
    case False
    then show ?thesis by (subst z21_step) auto
  qed
qed

lemma parse_prefix_total: "\<exists>r. parse_prefix line = Some r"
  by (auto simp: parse_prefix_def idx_def alpha_at_def and_then_def Let_def split: bool.splits)

lemma withrottle_loop_total: "\<exists>ls. withrottle_loop raws = Some ls"
proof (induction raws)
  case (Cons r rs)
  then show ?case using parse_prefix_total [of "str_trim r"] by (auto simp: Let_def split: option.splits)
qed simp

lemma detect_withrottle_total: "\<exists>ls. detect_withrottle_lines payload = Some ls"
  using withrottle_loop_total by (auto simp: detect_withrottle_lines_def split: option.splits)

section \<open>WebSocket frames as the protocol writes them\<close>

text \<open>The header of a frame by RFC 6455, with the length in its shortest form.\<close>

fun be_bytes :: "nat \<Rightarrow> nat \<Rightarrow> u8 list" where
  "be_bytes 0 n = []"
| "be_bytes (Suc k) n = be_bytes k (n div 256) @ [of_nat n]"

definition ws_encode :: "ws_frame_header \<Rightarrow> u8 list \<Rightarrow> u8 list" where
  "ws_encode h mask_key =
     (let n = unat (wf_payload_len h); m = (if wf_masked h then 0x80 else 0)
      in [wf_opcode h OR (if wf_fin h then 0x80 else 0)] @
         (if n < 126 then [of_nat n OR m]
          else if n < 65536 then [126 OR m] @ be_bytes 2 n
          else [127 OR m] @ be_bytes 8 n) @
         (if wf_masked h then mask_key else []))"

lemma length_be_bytes [simp]: "length (be_bytes k n) = k"
  by (induction k arbitrary: n) simp_all

lemma be_bytes_value: "n < 256 ^ k \<Longrightarrow> foldl (\<lambda>a b. a * 256 + unat b) 0 (be_bytes k n) = n"
proof (induction k arbitrary: n)
  case (Suc k)
  then have "n div 256 < 256 ^ k" by (simp add: less_mult_imp_div_less mult.commute)
  with Suc.IH show ?case by (simp add: unsigned_of_nat take_bit_eq_mod)
qed simp

lemma u64_from_be_bytes: "n < 256 ^ k \<Longrightarrow> u64_from_be (be_bytes k n) = of_nat n"
  by (simp add: u64_from_be_def be_bytes_value)

lemma low_bits: "unat w < 128 \<Longrightarrow> (w OR 0x80) AND 0x7F = w \<and> w AND 0x7F = w \<and> (w OR 0x80) AND 0x80 \<noteq> 0 \<and> w AND 0x80 = 0"
  for w :: u8
proof -
  assume "unat w < 128"
  then have "take_bit 7 (unat w) = unat w" by (simp add: take_bit_nat_eq_self)
  then have "unat (take_bit 7 w) = unat w" by (simp add: unsigned_take_bit_eq)
  then have t: "take_bit 7 w = w" by (simp only: word_unat_eq_iff)
  have m: "(0x7F :: u8) = mask 7" by (simp add: mask_eq_exp_minus_1)
  have 1: "w AND 0x7F = w" unfolding m using t by (simp add: take_bit_eq_mask)
  have "(w OR 0x80) AND 0x7F = (w AND 0x7F) OR (0x80 AND 0x7F)" by (rule bit.conj_disj_distrib2)
  with 1 have 2: "(w OR 0x80) AND 0x7F = w" by simp
  have "w AND 0x80 = (w AND 0x7F) AND 0x80" by (simp add: 1)
  also have "\<dots> = w AND (0x7F AND 0x80)" by (rule and.assoc)
  finally have 3: "w AND 0x80 = 0" by simp
  have "(w OR 0x80) AND 0x80 = (w AND 0x80) OR (0x80 AND 0x80)" by (rule bit.conj_disj_distrib2)
  with 3 have "(w OR 0x80) AND 0x80 \<noteq> 0" by simp
  with 1 2 3 show ?thesis by simp
qed

definition ws_known_opcode :: "u8 \<Rightarrow> bool" where
  "ws_known_opcode op \<longleftrightarrow> op \<le> 2 \<or> 8 \<le> op \<and> op \<le> 10"

lemma ws_known_cases:
  assumes "ws_known_opcode op"
  obtains "op = 0" | "op = 1" | "op = 2" | "op = 8" | "op = 9" | "op = 10"
proof -
  have "unat op = 0 \<or> unat op = 1 \<or> unat op = 2 \<or> unat op = 8 \<or> unat op = 9 \<or> unat op = 10"
    using assms by (auto simp: ws_known_opcode_def word_le_nat_alt)
  then show thesis using that by (auto simp: word_unat_eq_iff)
qed

lemma ws_first_byte:
  assumes "ws_known_opcode op"
  shows "(op OR (if fin then 0x80 else 0)) AND 0x80 \<noteq> 0 \<longleftrightarrow> fin"
    "(op OR (if fin then 0x80 else 0)) AND 0x0F = op"
  using assms by (cases rule: ws_known_cases; cases fin; simp)+

lemma ws_second_byte:
  fixes w :: u8
  assumes "unat w < 128"
  shows "(w OR (if masked then 0x80 else 0)) AND 0x80 \<noteq> 0 \<longleftrightarrow> masked"
    "(w OR (if masked then 0x80 else 0)) AND 0x7F = w"
  using low_bits [OF assms] by (cases masked; simp)+

text \<open>The bytes after the first two, and what \<open>ws_length\<close> reads from them.\<close>

definition ws_len7 :: "nat \<Rightarrow> u8" where
  "ws_len7 n = (if n < 126 then of_nat n else if n < 65536 then 126 else 127)"

definition ws_ext :: "nat \<Rightarrow> u8 list" where
  "ws_ext n = (if n < 126 then [] else if n < 65536 then be_bytes 2 n else be_bytes 8 n)"

lemma unat_ws_len7: "unat (ws_len7 n) < 128"
  by (simp add: ws_len7_def unsigned_of_nat take_bit_eq_mod)

lemma ws_encode_alt:
  "ws_encode h key =
     (wf_opcode h OR (if wf_fin h then 0x80 else 0)) #
     (ws_len7 (unat (wf_payload_len h)) OR (if wf_masked h then 0x80 else 0)) #
     ws_ext (unat (wf_payload_len h)) @ (if wf_masked h then key else [])"
  by (simp add: ws_encode_def ws_len7_def ws_ext_def Let_def)

lemma no_msb: "n < 2 ^ 63 \<Longrightarrow> (of_nat n :: u64) AND push_bit 63 1 = 0"
proof -
  assume "n < 2 ^ 63"
  then have "\<not> bit n 63" by (simp add: bit_iff_odd)
  then have "\<not> bit (of_nat n :: u64) 63" by (simp add: bit_of_nat_iff)
  moreover have "push_bit 63 (1 :: u64) = 2 ^ 63" by simp
  ultimately show ?thesis by (simp only: and_exp_eq_0_iff_not_bit not_False_eq_True)
qed

lemma ws_length_ext:
  assumes "n < 2 ^ 63"
  shows "ws_length (a # b # ws_ext n @ rest) (ws_len7 n) = Some (Some (of_nat n, 2 + length (ws_ext n)))"
proof -
  consider "n < 126" | "126 \<le> n" "n < 65536" | "65536 \<le> n" by linarith
  then show ?thesis
  proof cases
    case 1
    have "(of_nat n :: u8) \<noteq> 126" "(of_nat n :: u8) \<noteq> 127"
      using 1 by (simp_all add: word_unat_eq_iff unsigned_of_nat take_bit_eq_mod)
    moreover have "ucast (of_nat n :: u8) = (of_nat n :: u64)"
      using 1 by (simp add: word_unat_eq_iff unsigned_ucast_eq unsigned_of_nat take_bit_eq_mod)
    ultimately show ?thesis using 1 by (simp add: ws_length_def ws_len7_def ws_ext_def)
  next
    case 2
    have xy: "be_bytes 2 n = [of_nat (n div 256), of_nat n]" by (simp add: numeral_2_eq_2)
    have "u64_from_be [of_nat (n div 256), of_nat n] = of_nat n" using u64_from_be_bytes [of n 2] 2 by (simp add: xy)
    then show ?thesis using 2 by (simp add: ws_length_def ws_len7_def ws_ext_def xy idx_def)
  next
    case 3
    have "u64_from_be (be_bytes 8 n) = of_nat n" using assms by (intro u64_from_be_bytes) simp
    then show ?thesis
      using 3 no_msb [OF assms]
      by (simp add: ws_length_def ws_len7_def ws_ext_def sub_slice_def Let_def)
  qed
qed

text \<open>
  C37: every WebSocket frame header that RFC 6455 can write with a known opcode, in each of the
  three length forms, masked or not, is detected at the start of a payload with its final bit,
  opcode, length and mask bit.
\<close>

theorem ws_roundtrip:
  assumes "ws_known_opcode (wf_opcode h)" "unat (wf_payload_len h) < 2 ^ 63"
    and "wf_masked h \<longrightarrow> length key = 4"
  shows "detect_ws_frame (ws_encode h key @ body) = Some (Some h)"
proof -
  let ?n = "unat (wf_payload_len h)"
  let ?b1 = "ws_len7 ?n OR (if wf_masked h then 0x80 else 0)"
  let ?pay = "ws_encode h key @ body"
  have len: "ws_length ?pay (?b1 AND 0x7F) = Some (Some (wf_payload_len h, 2 + length (ws_ext ?n)))"
    using ws_length_ext [OF assms(2)] by (simp add: ws_encode_alt ws_second_byte(2) [OF unat_ws_len7])
  have "length ?pay \<ge> 2 + length (ws_ext ?n) + (if wf_masked h then 4 else 0)"
    using assms(3) by (simp add: ws_encode_alt)
  moreover have "?pay ! 0 = wf_opcode h OR (if wf_fin h then 0x80 else 0)" "?pay ! 1 = ?b1"
    by (simp_all add: ws_encode_alt)
  moreover have "ws_encode h key \<noteq> []" by (simp add: ws_encode_alt)
  ultimately show ?thesis
    using len ws_first_byte [OF assms(1), of "wf_fin h"] ws_second_byte(1) [OF unat_ws_len7 [of ?n], of "wf_masked h"]
      assms(1)
    by (auto simp: detect_ws_frame_def idx_def Let_def ws_known_opcode_def not_less)
qed

theorem ws_roundtrip_witness:
  "detect_ws_frame (ws_encode \<lparr>wf_fin = True, wf_opcode = 1, wf_payload_len = 70000, wf_masked = True\<rparr> [1, 2, 3, 4] @ [9])
     = Some (Some \<lparr>wf_fin = True, wf_opcode = 1, wf_payload_len = 70000, wf_masked = True\<rparr>)"
  by (rule ws_roundtrip) (simp_all add: ws_known_opcode_def word_le_nat_alt)

section \<open>Z21 records as the protocol writes them\<close>

definition z21_wf :: "z21_record \<Rightarrow> bool" where
  "z21_wf r \<longleftrightarrow> unat (zr_data_len r) = 4 + length (zr_data r) \<and>
     zr_xheader r = (if zr_header r = 0x40 then (case zr_data r of x # _ \<Rightarrow> x | [] \<Rightarrow> 0) else 0)"

definition le_bytes :: "u16 \<Rightarrow> u8 list" where
  "le_bytes w = [of_nat (unat w), of_nat (unat w div 256)]"

definition z21_encode :: "z21_record \<Rightarrow> u8 list" where
  "z21_encode r = le_bytes (zr_data_len r) @ le_bytes (zr_header r) @ zr_data r"

lemma u16_from_le_bytes: "u16_from_le (of_nat (unat w)) (of_nat (unat w div 256)) = w"
proof -
  have "unat w < 65536" using unat_bound [of w] by simp
  then have "unat w div 256 < 256" by simp
  then have "unat w mod 256 + 256 * (unat w div 256 mod 256) = unat w" by simp
  then have "unat (of_nat (unat w) :: u8) + 256 * unat (of_nat (unat w div 256) :: u8) = unat w"
    by (simp add: unsigned_of_nat unsigned_ucast_eq take_bit_eq_mod)
  then show ?thesis by (simp add: u16_from_le_def)
qed

lemma z21_at_encode:
  assumes "z21_wf r"
  shows "z21_len (pre @ z21_encode r @ rest) (length pre) = 4 + length (zr_data r)"
    and "z21_at (pre @ z21_encode r @ rest) (length pre) = r"
proof -
  have n: "(pre @ z21_encode r @ rest) ! (length pre + i) = (z21_encode r @ rest) ! i" for i
    by (rule nth_append_length_plus)
  have bytes: "(pre @ z21_encode r @ rest) ! length pre = of_nat (unat (zr_data_len r))"
    "(pre @ z21_encode r @ rest) ! (length pre + 1) = of_nat (unat (zr_data_len r) div 256)"
    "(pre @ z21_encode r @ rest) ! (length pre + 2) = of_nat (unat (zr_header r))"
    "(pre @ z21_encode r @ rest) ! (length pre + 3) = of_nat (unat (zr_header r) div 256)"
    using n [of 0] n [of 1] n [of 2] n [of 3] by (simp_all add: z21_encode_def le_bytes_def)
  show len: "z21_len (pre @ z21_encode r @ rest) (length pre) = 4 + length (zr_data r)"
    unfolding z21_len_def bytes u16_from_le_bytes using assms by (simp add: z21_wf_def)
  have "take (length (zr_data r)) (drop (length pre + 4) (pre @ z21_encode r @ rest)) = zr_data r"
    by (simp add: z21_encode_def le_bytes_def)
  then show "z21_at (pre @ z21_encode r @ rest) (length pre) = r"
    unfolding z21_at_def len bytes u16_from_le_bytes using assms
    by (intro z21_record.equality) (simp_all add: z21_wf_def Let_def)
qed

lemma z21_loop_encode:
  assumes "\<forall>r \<in> set rs. z21_wf r" "length tail < 4"
  shows "z21_loop (pre @ concat (map z21_encode rs) @ tail) (length pre) = Some rs"
  using assms(1)
proof (induction rs arbitrary: pre)
  case Nil
  then show ?case using assms(2) by (subst z21_step) simp
next
  case (Cons r rs)
  let ?rest = "concat (map z21_encode rs) @ tail"
  have wf: "z21_wf r" using Cons.prems by simp
  have len: "length (z21_encode r) = 4 + length (zr_data r)" by (simp add: z21_encode_def le_bytes_def)
  have next_off: "z21_loop ((pre @ z21_encode r) @ ?rest) (length (pre @ z21_encode r)) = Some rs"
    using Cons.IH [of "pre @ z21_encode r"] Cons.prems by simp
  show ?case
    using next_off len z21_at_encode [OF wf, of pre ?rest]
    by (subst z21_step) (simp add: add.assoc)
qed

text \<open>
  The Z21 detector recovers every sequence of well-formed records packed in one datagram,
  in order and with their headers, sub-headers, lengths and data, also when fewer than four
  stray bytes follow.
\<close>

lemma z21_roundtrip:
  assumes "\<forall>r \<in> set rs. z21_wf r" "length tail < 4"
  shows "detect_z21_records (concat (map z21_encode rs) @ tail) = Some rs"
  using z21_loop_encode [OF assms, of "[]"] by (simp add: detect_z21_records_def)

lemma z21_roundtrip_example:
  "detect_z21_records (concat (map z21_encode
      [\<lparr>zr_header = 0x40, zr_xheader = 0xE4, zr_data_len = 7, zr_data = [0xE4, 1, 2]\<rparr>]) @ [5]) =
    Some [\<lparr>zr_header = 0x40, zr_xheader = 0xE4, zr_data_len = 7, zr_data = [0xE4, 1, 2]\<rparr>]"
  by (rule z21_roundtrip) (simp_all add: z21_wf_def)

lemma z21_loop_bounds:
  "z21_loop payload off = Some rs \<Longrightarrow> off \<le> length payload \<Longrightarrow>
     off + sum_list (map (\<lambda>r. unat (zr_data_len r)) rs) \<le> length payload \<and>
     (\<forall>r \<in> set rs. z21_wf r)"
proof (induction rs arbitrary: off)
  case (Cons r rs)
  let ?n = "z21_len payload off"
  have step: "off + 4 \<le> length payload" "4 \<le> ?n" "off + ?n \<le> length payload" "r = z21_at payload off"
    "z21_loop payload (off + ?n) = Some rs"
    using Cons.prems(1) by (subst (asm) z21_step, auto split: if_splits)+
  have "unat (zr_data_len r) = ?n" by (simp add: step(4) z21_at_def z21_len_def Let_def)
  moreover have "z21_wf r"
    using step(1-3) by (simp add: step(4) z21_wf_def z21_at_def z21_len_def Let_def)
  ultimately show ?case using Cons.IH [OF step(5)] step(3) by simp
qed simp

section \<open>A byte that hides a request\<close>

lemma utf8_no_255: "utf8_valid xs \<Longrightarrow> 255 \<notin> set xs"
proof (induction xs rule: utf8_valid.induct)
  case (2 a r)
  then show ?case
    by (auto simp: utf8_cont_def utf8_second3_def utf8_second4_def split: if_splits list.splits)
qed simp

lemma utf8_invalid_end: "\<not> utf8_valid (xs @ [255])"
  using utf8_no_255 [of "xs @ [255]"] by auto

lemma byte_hides_request:
  "detect_http_request (payload @ [0xFF]) = Some None \<and> detect_withrottle_lines (payload @ [0xFF]) = Some []"
proof -
  have "from_utf8 (payload @ [0xFF]) = None"
    using utf8_invalid_end [of "map unat payload"] by (simp add: from_utf8_def)
  then show ?thesis
    by (auto simp: detect_http_request_def detect_withrottle_lines_def idx_def)
qed

end
