(* ===== verification/Packet_Sniffer.thy ===== *)
theory Packet_Sniffer
  imports Daemon_State L7_Detectors
begin

text \<open>
  \<open>crates/microwaf/src/sniffer.rs\<close>: from an Ethernet frame to counters. Slicing and indexing are
  checked, so \<open>None\<close> is a panic. The clocks and the CEL interpreter are arguments. A frame never
  panics the sniffer, only moves counters of the frame's own sender for rules of the configured
  set, and keeps the flow table within its bound.
\<close>

unbundle bit_operations_syntax

section \<open>The flow table\<close>

record flow_key =
  fk_src :: ipv4_addr
  fk_sport :: u16
  fk_dst :: ipv4_addr
  fk_dport :: u16
  fk_proto :: u8

record flow_table =
  ft_flows :: "(flow_key, instant) hmap"
  ft_max :: nat
  ft_idle :: duration

definition flow_table_new :: flow_table where
  "flow_table_new = \<lparr>ft_flows = [], ft_max = 8192, ft_idle = 60 * nanos_per_sec\<rparr>"

text \<open>\<open>min_by_key\<close>: the first of the oldest entries.\<close>

fun oldest :: "('k \<times> instant) list \<Rightarrow> 'k option" where
  "oldest [] = None"
| "oldest ((k, t) # rest) =
     (if \<forall>x \<in> set rest. t \<le> snd x then Some k else oldest rest)"

definition observe :: "flow_key \<Rightarrow> instant \<Rightarrow> flow_table \<Rightarrow> bool \<times> flow_table" where
  "observe key now ft =
     (let flows = filter (\<lambda>(k, t). duration_since now t < ft_idle ft) (ft_flows ft)
      in if hm_contains flows key then (False, ft\<lparr>ft_flows := hm_insert key now flows\<rparr>)
         else
           let flows = (if length flows \<ge> ft_max ft
                        then (case oldest flows of Some k \<Rightarrow> hm_remove k flows | None \<Rightarrow> flows)
                        else flows)
           in (True, ft\<lparr>ft_flows := hm_insert key now flows\<rparr>))"

section \<open>Counting\<close>

type_synonym ws_key = "ipv4_addr \<times> u16 \<times> ipv4_addr \<times> u16"

text \<open>What the sniffer changes: the shared counters and its two own tables.\<close>

record sniff =
  sf_counters :: counter_store
  sf_flows :: flow_table
  sf_ws :: "(ws_key, unit) hmap"

record utc =
  ut_epoch :: int
  ut_hour :: int
  ut_dow :: int

text \<open>What a frame is handled with: CEL, the live rules and sets, and the two clocks.\<close>

record 'p sniff_env =
  sv_cel :: "'p cel_api"
  sv_rules :: "'p rule_set"
  sv_sets :: sets_config
  sv_utc :: utc
  sv_now :: instant

definition common_ctx :: "'p sniff_env \<Rightarrow> client_id \<Rightarrow> u16 \<Rightarrow> match_context" where
  "common_ctx env client port =
     (let ctx = match_context_default;
          ctx = set_str ''client.mac'' (mac_string client) ctx;
          ctx = set_str ''client.ip'' (show_ip (cl_ip client)) ctx;
          ctx = set_int ''port'' (uint port) ctx;
          ctx = set_int ''time.epoch'' (ut_epoch (sv_utc env)) ctx;
          ctx = set_int ''time.hour'' (ut_hour (sv_utc env)) ctx;
          ctx = set_int ''time.dow'' (ut_dow (sv_utc env)) ctx
      in ctx\<lparr>mc_sets := sc_sets (sv_sets env)\<rparr>)"

definition match_ok :: "'p sniff_env \<Rightarrow> 'p rule \<Rightarrow> match_context \<Rightarrow> bool" where
  "match_ok env rule ctx =
     (case r_match rule of None \<Rightarrow> True | Some prog \<Rightarrow> eval_match (sv_cel env) prog ctx)"

text \<open>The body of the loop over the plain TCP or UDP rules; \<open>opens\<close> is true for a SYN or a datagram.\<close>

definition l4_rule :: "'p sniff_env \<Rightarrow> client_id \<Rightarrow> flow_key \<Rightarrow> bool \<Rightarrow> u64 \<Rightarrow> 'p rule \<Rightarrow> sniff \<Rightarrow> sniff" where
  "l4_rule env client key opens byte_len rule sf =
     (let ok = match_ok env rule (common_ctx env client (fk_dport key));
          sf = (if r_metric rule = Connections \<and> opens then
                  let (fresh, flows) = observe key (sv_now env) (sf_flows sf);
                      sf = sf\<lparr>sf_flows := flows\<rparr>
                  in if fresh \<and> ok
                     then sf\<lparr>sf_counters := add_connections client (r_id rule) 1 (sf_counters sf)\<rparr>
                     else sf
                else sf)
      in if r_metric rule = Bytes \<and> byte_len > 0 \<and> ok
         then sf\<lparr>sf_counters := add_bytes client (r_id rule) byte_len (sf_counters sf)\<rparr>
         else sf)"

text \<open>One detected event of \<open>bytes\<close> bytes under a rule of a parsed protocol.\<close>

definition event_rule :: "'p sniff_env \<Rightarrow> client_id \<Rightarrow> u64 \<Rightarrow> match_context \<Rightarrow> 'p rule \<Rightarrow> sniff \<Rightarrow> sniff" where
  "event_rule env client bytes ctx rule sf =
     (if match_ok env rule ctx then
        let sf = (if r_metric rule = Requests
                  then sf\<lparr>sf_counters := add_requests client (r_id rule) 1 (sf_counters sf)\<rparr> else sf)
        in if r_metric rule = Bytes
           then sf\<lparr>sf_counters := add_bytes client (r_id rule) bytes (sf_counters sf)\<rparr> else sf
      else sf)"

definition ws_ctx :: "'p sniff_env \<Rightarrow> client_id \<Rightarrow> u16 \<Rightarrow> ws_frame_header \<Rightarrow> match_context" where
  "ws_ctx env client port h =
     set_int ''frame.payloadLen'' (sint (wf_payload_len h))
       (set_int ''frame.opcode'' (uint (wf_opcode h))
          (set_bool ''frame.fin'' (wf_fin h) (common_ctx env client port)))"

definition http_ctx :: "'p sniff_env \<Rightarrow> client_id \<Rightarrow> u16 \<Rightarrow> http_request_line \<Rightarrow> match_context" where
  "http_ctx env client port h =
     set_str ''request.path'' (ht_path h) (set_str ''request.method'' (ht_method h) (common_ctx env client port))"

definition withrottle_ctx :: "'p sniff_env \<Rightarrow> client_id \<Rightarrow> u16 \<Rightarrow> withrottle_line \<Rightarrow> match_context" where
  "withrottle_ctx env client port l =
     set_str ''withrottle.command'' (wl_command l)
       (set_str ''withrottle.throttle'' (wl_throttle l)
          (set_str ''withrottle.prefix'' (wl_prefix l) (common_ctx env client port)))"

definition z21_ctx :: "'p sniff_env \<Rightarrow> client_id \<Rightarrow> u16 \<Rightarrow> z21_record \<Rightarrow> match_context" where
  "z21_ctx env client port r =
     set_int ''z21.dataLen'' (uint (zr_data_len r))
       (set_int ''z21.xheader'' (uint (zr_xheader r))
          (set_int ''z21.header'' (uint (zr_header r)) (common_ctx env client port)))"

definition dispatch_tcp ::
  "'p sniff_env \<Rightarrow> client_id \<Rightarrow> ipv4_addr \<Rightarrow> u16 \<Rightarrow> ipv4_addr \<Rightarrow> u16 \<Rightarrow> bool \<Rightarrow> u8 list \<Rightarrow> sniff \<Rightarrow> sniff option" where
  "dispatch_tcp env client src sport dst dport syn payload sf =
     (let byte_len = of_nat (length payload);
          key = \<lparr>fk_src = src, fk_sport = sport, fk_dst = dst, fk_dport = dport, fk_proto = 6\<rparr>;
          sf = fold (l4_rule env client key syn byte_len) (matching (sv_rules env) Tcp dport) sf;
          ws_key = (src, sport, dst, dport)
      in if hm_contains (sf_ws sf) ws_key then
           (case detect_ws_frame payload of
              None \<Rightarrow> None
            | Some None \<Rightarrow> Some sf
            | Some (Some h) \<Rightarrow>
                Some (fold (\<lambda>rule. event_rule env client byte_len (ws_ctx env client dport h) rule)
                  (matching (sv_rules env) WebSocket dport) sf))
         else
           (case detect_http_request payload of
              None \<Rightarrow> None
            | Some (Some http) \<Rightarrow>
                if ht_upgrade_ws http then
                  Some (sf\<lparr>sf_ws := hm_insert ws_key () (sf_ws sf),
                           sf_counters := add_ws_connection client (sf_counters sf)\<rparr>)
                else
                  Some (fold (\<lambda>rule. event_rule env client byte_len (http_ctx env client dport http) rule)
                    (matching (sv_rules env) Http dport) sf)
            | Some None \<Rightarrow>
                (case detect_withrottle_lines payload of
                   None \<Rightarrow> None
                 | Some ls \<Rightarrow>
                     Some (fold (\<lambda>rule sf. fold (\<lambda>l. event_rule env client (of_nat (length (wl_command l)))
                         (withrottle_ctx env client dport l) rule) ls sf)
                       (matching (sv_rules env) Withrottle dport) sf))))"

definition dispatch_udp ::
  "'p sniff_env \<Rightarrow> client_id \<Rightarrow> ipv4_addr \<Rightarrow> u16 \<Rightarrow> ipv4_addr \<Rightarrow> u16 \<Rightarrow> u8 list \<Rightarrow> sniff \<Rightarrow> sniff option" where
  "dispatch_udp env client src sport dst dport payload sf =
     (let byte_len = of_nat (length payload);
          key = \<lparr>fk_src = src, fk_sport = sport, fk_dst = dst, fk_dport = dport, fk_proto = 17\<rparr>;
          sf = fold (l4_rule env client key True byte_len) (matching (sv_rules env) Udp dport) sf
      in case detect_z21_records payload of
           None \<Rightarrow> None
         | Some recs \<Rightarrow>
             Some (fold (\<lambda>rule sf. fold (\<lambda>r. event_rule env client (ucast (zr_data_len r))
                 (z21_ctx env client dport r) rule) recs sf)
               (matching (sv_rules env) Z21 dport) sf))"

definition u16_be :: "u8 \<Rightarrow> u8 \<Rightarrow> u16" where
  "u16_be hi lo = of_nat (be16 hi lo)"

definition ipv4_at :: "u8 list \<Rightarrow> nat \<Rightarrow> ipv4_addr option" where
  "ipv4_at ip i = do {
     a \<leftarrow> idx ip i;
     b \<leftarrow> idx ip (i + 1);
     c \<leftarrow> idx ip (i + 2);
     d \<leftarrow> idx ip (i + 3);
     Some (Ipv4 a b c d)}"

definition mac_of :: "u8 list \<Rightarrow> mac_addr option" where
  "mac_of bs = (case bs of [a, b, c, d, e, f] \<Rightarrow> Some (Mac a b c d e f) | _ \<Rightarrow> None)"

text \<open>The two arms on the transport protocol.\<close>

definition handle_tcp :: "'p sniff_env \<Rightarrow> client_id \<Rightarrow> ipv4_addr \<Rightarrow> ipv4_addr \<Rightarrow> u8 list \<Rightarrow> sniff \<Rightarrow> sniff option" where
  "handle_tcp env client src dst l4 sf = do {
     s0 \<leftarrow> idx l4 0;
     s1 \<leftarrow> idx l4 1;
     d0 \<leftarrow> idx l4 2;
     d1 \<leftarrow> idx l4 3;
     flags \<leftarrow> idx l4 13;
     off \<leftarrow> idx l4 12;
     let data_off = unat (drop_bit 4 off) * 4;
     payload \<leftarrow> (if length l4 > data_off then slice_from l4 data_off else Some []);
     let syn = (flags AND 0x02 \<noteq> 0 \<and> flags AND 0x10 = 0);
     dispatch_tcp env client src (u16_be s0 s1) dst (u16_be d0 d1) syn payload sf}"

definition handle_udp :: "'p sniff_env \<Rightarrow> client_id \<Rightarrow> ipv4_addr \<Rightarrow> ipv4_addr \<Rightarrow> u8 list \<Rightarrow> sniff \<Rightarrow> sniff option" where
  "handle_udp env client src dst l4 sf = do {
     s0 \<leftarrow> idx l4 0;
     s1 \<leftarrow> idx l4 1;
     d0 \<leftarrow> idx l4 2;
     d1 \<leftarrow> idx l4 3;
     payload \<leftarrow> slice_from l4 8;
     dispatch_udp env client src (u16_be s0 s1) dst (u16_be d0 d1) payload sf}"

definition handle_ip :: "'p sniff_env \<Rightarrow> mac_addr \<Rightarrow> u8 list \<Rightarrow> sniff \<Rightarrow> sniff option" where
  "handle_ip env mac ip sf =
     (if length ip < 20 then Some sf
      else do {
        v \<leftarrow> idx ip 0;
        let ihl = unat (v AND 0x0F) * 4;
        if length ip < ihl then Some sf
        else do {
          proto \<leftarrow> idx ip 9;
          src \<leftarrow> ipv4_at ip 12;
          dst \<leftarrow> ipv4_at ip 16;
          l4 \<leftarrow> slice_from ip ihl;
          let client = client_new mac (V4 src);
          if proto = 6 \<and> length l4 \<ge> 20 then handle_tcp env client src dst l4 sf
          else if proto = 17 \<and> length l4 \<ge> 8 then handle_udp env client src dst l4 sf
          else Some sf}})"

definition handle_frame :: "'p sniff_env \<Rightarrow> u8 list \<Rightarrow> sniff \<Rightarrow> sniff option" where
  "handle_frame env frame sf =
     (if length frame < 14 then Some sf
      else do {
        t0 \<leftarrow> idx frame 12;
        t1 \<leftarrow> idx frame 13;
        if be16 t0 t1 \<noteq> ETH_P_IP then Some sf
        else do {
          bs \<leftarrow> sub_slice frame 6 12;
          mac \<leftarrow> mac_of bs;
          ip \<leftarrow> slice_from frame 14;
          handle_ip env mac ip sf}})"

text \<open>The sniffer on the daemon's shared state: it reads the live rules and sets, and counts.\<close>

definition sniff_frame ::
  "'p cel_api \<Rightarrow> utc \<Rightarrow> instant \<Rightarrow> u8 list \<Rightarrow> 'p daemon_state \<times> flow_table \<times> (ws_key, unit) hmap \<Rightarrow>
   ('p daemon_state \<times> flow_table \<times> (ws_key, unit) hmap) option" where
  "sniff_frame api utc now frame s =
     (case s of (st, flows, ws) \<Rightarrow>
        map_option (\<lambda>sf. (st\<lparr>ds_counters := sf_counters sf\<rparr>, sf_flows sf, sf_ws sf))
          (handle_frame \<lparr>sv_cel = api, sv_rules = state_rules st, sv_sets = state_sets st, sv_utc = utc, sv_now = now\<rparr>
             frame \<lparr>sf_counters = ds_counters st, sf_flows = flows, sf_ws = ws\<rparr>))"

section \<open>The flow table is bounded\<close>

definition ft_wf :: "flow_table \<Rightarrow> bool" where
  "ft_wf ft \<longleftrightarrow> hm_wf (ft_flows ft) \<and> length (ft_flows ft) \<le> ft_max ft \<and> 0 < ft_max ft \<and> 0 < ft_idle ft"

definition ft_live :: "flow_table \<Rightarrow> instant \<Rightarrow> flow_key \<Rightarrow> bool" where
  "ft_live ft now key \<longleftrightarrow> (\<exists>t. hm_get (ft_flows ft) key = Some t \<and> duration_since now t < ft_idle ft)"

lemma ft_wf_new: "ft_wf flow_table_new"
  by (simp add: ft_wf_def flow_table_new_def nanos_per_sec_def)

lemma hm_wf_filter: "hm_wf m \<Longrightarrow> hm_wf (filter P m)"
  by (simp add: hm_wf_def hm_keys_def distinct_map_filter)

lemma length_hm_insert: "length (hm_insert k v m) = (if hm_contains m k then length m else Suc (length m))"
proof -
  have "length (AList.update k v m) = (if k \<in> fst ` set m then length m else Suc (length m))"
    by (induction m) auto
  then show ?thesis by (simp add: hm_insert_def hm_contains_def hm_keys_def)
qed

lemma length_hm_remove: "hm_contains m k \<Longrightarrow> length (hm_remove k m) < length m"
proof -
  assume "hm_contains m k"
  then obtain v where "(k, v) \<in> set m" by (auto simp: hm_contains_def hm_keys_def)
  then have "length (filter (\<lambda>(k', v). k \<noteq> k') m) < length m" by (intro length_filter_less [of "(k, v)"]) auto
  then show ?thesis by (simp add: hm_remove_def AList.delete_eq)
qed

lemma oldest_mem: "oldest m = Some k \<Longrightarrow> hm_contains m k"
  by (induction m) (auto simp: hm_contains_def hm_keys_def split: if_splits)

lemma oldest_None: "oldest m = None \<longleftrightarrow> m = []"
proof (induction m)
  case (Cons x m)
  then show ?case by (cases x) auto
qed simp

lemma oldest_minimal: "oldest m = Some k \<Longrightarrow> \<exists>t. (k, t) \<in> set m \<and> (\<forall>x \<in> set m. t \<le> snd x)"
proof (induction m)
  case (Cons x m)
  obtain k' t' where x: "x = (k', t')" by (cases x)
  show ?case
  proof (cases "\<forall>y \<in> set m. t' \<le> snd y")
    case True
    then show ?thesis using Cons.prems by (auto simp: x)
  next
    case False
    then have "oldest m = Some k" using Cons.prems by (simp add: x split: if_splits)
    then obtain t where t: "(k, t) \<in> set m" "\<forall>y \<in> set m. t \<le> snd y"
      using Cons.IH by blast
    obtain y where "y \<in> set m" "snd y < t'" using False by force
    with t have "t \<le> t'" by fastforce
    with t show ?thesis by (auto simp: x)
  qed
qed simp

lemma hm_get_filter_time:
  "hm_wf m \<Longrightarrow> hm_get (filter (\<lambda>(k, t). P t) m) k = (case hm_get m k of Some t \<Rightarrow> if P t then Some t else None | None \<Rightarrow> None)"
proof (induction m)
  case (Cons x m)
  obtain k' t where x: "x = (k', t)" by (cases x)
  have "hm_wf m" "hm_get m k' = None"
    using Cons.prems by (auto simp: x hm_wf_def hm_keys_def hm_get_def map_of_eq_None_iff)
  then show ?case using Cons.IH by (auto simp: x hm_simps split: option.splits)
qed (simp add: hm_simps)

lemma observe_kept [simp]:
  "ft_max (snd (observe key now ft)) = ft_max ft" "ft_idle (snd (observe key now ft)) = ft_idle ft"
  by (simp_all add: observe_def Let_def)

lemma observe_wf:
  assumes "ft_wf ft"
  shows "ft_wf (snd (observe key now ft))"
proof -
  let ?fl = "filter (\<lambda>(k, t). duration_since now t < ft_idle ft) (ft_flows ft)"
  have wf: "hm_wf ?fl" using assms by (simp add: ft_wf_def hm_wf_filter)
  have len: "length ?fl \<le> ft_max ft"
    using assms length_filter_le [of _ "ft_flows ft"] order_trans unfolding ft_wf_def by blast
  show ?thesis
  proof (cases "hm_contains ?fl key")
    case True
    then show ?thesis using assms wf len by (simp add: observe_def Let_def ft_wf_def length_hm_insert)
  next
    case new: False
    show ?thesis
    proof (cases "length ?fl \<ge> ft_max ft")
      case True
      then have "?fl \<noteq> []" using assms by (auto simp: ft_wf_def)
      then obtain k where k: "oldest ?fl = Some k" by (cases "oldest ?fl") (auto simp: oldest_None)
      then have "length (hm_remove k ?fl) < ft_max ft" using length_hm_remove [OF oldest_mem [OF k]] len by simp
      then show ?thesis using assms wf new True k by (simp add: observe_def Let_def ft_wf_def length_hm_insert)
    next
      case False
      then show ?thesis using assms wf new by (simp add: observe_def Let_def ft_wf_def length_hm_insert)
    qed
  qed
qed

lemma observe_fresh: "ft_wf ft \<Longrightarrow> fst (observe key now ft) \<longleftrightarrow> \<not> ft_live ft now key"
  by (auto simp: observe_def Let_def ft_wf_def ft_live_def hm_contains_get hm_get_filter_time split: option.splits if_splits)

lemma observe_get_self: "hm_get (ft_flows (snd (observe key now ft))) key = Some now"
  by (simp add: observe_def Let_def hm_simps)

lemma observe_live: "ft_wf ft \<Longrightarrow> ft_live (snd (observe key now ft)) now key"
  by (simp add: ft_live_def observe_get_self duration_since_def ft_wf_def)

section \<open>What a step may count\<close>

text \<open>
  \<open>counted c Q s s'\<close>: the rule counters of \<open>s'\<close> are those of \<open>s\<close> after increments that are all
  for the client \<open>c\<close>, each under a rule that satisfies \<open>Q\<close> and in that rule's metric only.
\<close>

definition incr_under :: "client_id \<Rightarrow> ('p rule \<Rightarrow> bool) \<Rightarrow> counter_incr \<Rightarrow> bool" where
  "incr_under client Q i \<longleftrightarrow>
     (case i of (c, r, d) \<Rightarrow> c = client \<and>
        (\<exists>rule. Q rule \<and> r_id rule = r \<and> (\<forall>m. m \<noteq> r_metric rule \<longrightarrow> triple_get m d = 0)))"

definition counted :: "client_id \<Rightarrow> ('p rule \<Rightarrow> bool) \<Rightarrow> counter_store \<Rightarrow> counter_store \<Rightarrow> bool" where
  "counted client Q s s' \<longleftrightarrow>
     (\<exists>incs. list_all (incr_under client Q) incs \<and> cs_by_rule s' = cs_by_rule (fold cs_incr incs s))"

lemma by_rule_incr:
  assumes "cs_by_rule s = cs_by_rule s'"
  shows "cs_by_rule (cs_incr i s) = cs_by_rule (cs_incr i s')"
proof -
  obtain c r a b n where i: "i = (c, r, a, b, n)" by (cases i)
  show ?thesis by (simp add: i cs_incr_def cs_add_def Let_def assms)
qed

lemma by_rule_fold:
  "cs_by_rule s = cs_by_rule s' \<Longrightarrow> cs_by_rule (fold cs_incr incs s) = cs_by_rule (fold cs_incr incs s')"
proof (induction incs arbitrary: s s')
  case (Cons i incs)
  show ?case using Cons.IH [OF by_rule_incr [OF Cons.prems]] by simp
qed simp

lemma counted_refl [simp]: "counted c Q s s"
  unfolding counted_def by (rule exI [of _ "[]"]) simp

lemma counted_trans:
  assumes "counted c Q s t" "counted c Q t u"
  shows "counted c Q s u"
proof -
  obtain xs ys where "list_all (incr_under c Q) xs" "cs_by_rule t = cs_by_rule (fold cs_incr xs s)"
    "list_all (incr_under c Q) ys" "cs_by_rule u = cs_by_rule (fold cs_incr ys t)"
    using assms by (auto simp: counted_def)
  then have "list_all (incr_under c Q) (xs @ ys)" "cs_by_rule u = cs_by_rule (fold cs_incr (xs @ ys) s)"
    using by_rule_fold [of t "fold cs_incr xs s" ys] by simp_all
  then show ?thesis unfolding counted_def by blast
qed

lemma incr_under_mono: "incr_under c Q i \<Longrightarrow> (\<And>r. Q r \<Longrightarrow> Q' r) \<Longrightarrow> incr_under c Q' i"
  unfolding incr_under_def by (cases i) auto

lemma counted_mono:
  assumes "counted c Q s t" "\<And>r. Q r \<Longrightarrow> Q' r"
  shows "counted c Q' s t"
proof -
  obtain incs where "list_all (incr_under c Q) incs" "cs_by_rule t = cs_by_rule (fold cs_incr incs s)"
    using assms(1) by (auto simp: counted_def)
  moreover from this(1) have "list_all (incr_under c Q') incs"
    by (rule list.pred_mono_strong) (rule incr_under_mono [OF _ assms(2)])
  ultimately show ?thesis unfolding counted_def by blast
qed

lemma counted_single:
  "Q rule \<Longrightarrow> (\<And>m. m \<noteq> r_metric rule \<Longrightarrow> triple_get m (a, b, n) = 0) \<Longrightarrow> counted c Q s (cs_add c (r_id rule) a b n s)"
  unfolding counted_def
  by (rule exI [of _ "[(c, r_id rule, a, b, n)]"]) (auto simp: incr_under_def cs_incr_def)

lemma triple_get_other:
  "m \<noteq> Requests \<Longrightarrow> triple_get m (k, 0, 0) = 0"
  "m \<noteq> Bytes \<Longrightarrow> triple_get m (0, k, 0) = 0"
  "m \<noteq> Connections \<Longrightarrow> triple_get m (0, 0, k) = 0"
  by (cases m; simp)+

lemma counted_adds:
  "Q rule \<Longrightarrow> r_metric rule = Requests \<Longrightarrow> counted c Q s (add_requests c (r_id rule) k s)"
  "Q rule \<Longrightarrow> r_metric rule = Bytes \<Longrightarrow> counted c Q s (add_bytes c (r_id rule) k s)"
  "Q rule \<Longrightarrow> r_metric rule = Connections \<Longrightarrow> counted c Q s (add_connections c (r_id rule) k s)"
  unfolding add_requests_def add_bytes_def add_connections_def
  by (rule counted_single; simp add: triple_get_other)+

lemma counted_ws [simp]: "counted c Q s (add_ws_connection c s)"
  unfolding counted_def by (rule exI [of _ "[]"]) (simp add: add_ws_connection_def Let_def)

lemma counted_mono_counters:
  assumes "counted c Q s t"
  shows "triple_le (get_rule s c' r) (get_rule t c' r)"
proof -
  obtain incs where "cs_by_rule t = cs_by_rule (fold cs_incr incs s)" using assms by (auto simp: counted_def)
  then have "get_rule t c' r = get_rule (fold cs_incr incs s) c' r" by (simp add: get_rule_def)
  then show ?thesis by (simp add: counters.counter_mono)
qed

lemma counted_untouched:
  assumes "counted c Q s t" "c' \<noteq> c \<or> (\<forall>rule. Q rule \<longrightarrow> r_id rule \<noteq> r)"
  shows "get_rule t c' r = get_rule s c' r"
proof -
  obtain incs where incs: "list_all (incr_under c Q) incs" "cs_by_rule t = cs_by_rule (fold cs_incr incs s)"
    using assms(1) by (auto simp: counted_def)
  have "filter (\<lambda>(c1, r1, d). c1 = c' \<and> r1 = r) incs = []"
  proof -
    have "\<not> (c1 = c' \<and> r1 = r)" if "(c1, r1, d) \<in> set incs" for c1 r1 d
    proof -
      have "incr_under c Q (c1, r1, d)" using incs(1) that by (simp add: list_all_iff)
      then show ?thesis using assms(2) by (auto simp: incr_under_def)
    qed
    then show ?thesis by (simp add: filter_empty_conv) blast
  qed
  then have "triple_get m (get_rule (fold cs_incr incs s) c' r) = triple_get m (get_rule s c' r)" for m
    by (simp add: counters.counter_total incr_values_def)
  then have "get_rule (fold cs_incr incs s) c' r = get_rule s c' r" by (rule triple_eqI)
  with incs(2) show ?thesis by (simp add: get_rule_def)
qed

text \<open>
  The whole of a sniffer step: counters move as \<open>counted\<close> says, the store and the flow table
  stay well-formed, and no WebSocket mark is lost.
\<close>

definition sniffed :: "client_id \<Rightarrow> ('p rule \<Rightarrow> bool) \<Rightarrow> sniff \<Rightarrow> sniff \<Rightarrow> bool" where
  "sniffed c Q sf sf' \<longleftrightarrow> counted c Q (sf_counters sf) (sf_counters sf') \<and>
     (cs_wf (sf_counters sf) \<longrightarrow> cs_wf (sf_counters sf')) \<and>
     (ft_wf (sf_flows sf) \<longrightarrow> ft_wf (sf_flows sf')) \<and> ft_max (sf_flows sf') = ft_max (sf_flows sf) \<and>
     (\<forall>k. hm_contains (sf_ws sf) k \<longrightarrow> hm_contains (sf_ws sf') k)"

lemma sniffed_refl [simp]: "sniffed c Q sf sf"
  by (simp add: sniffed_def)

lemma sniffed_trans: "sniffed c Q s t \<Longrightarrow> sniffed c Q t u \<Longrightarrow> sniffed c Q s u"
  unfolding sniffed_def using counted_trans by auto

lemma sniffed_mono: "sniffed c Q s t \<Longrightarrow> (\<And>r. Q r \<Longrightarrow> Q' r) \<Longrightarrow> sniffed c Q' s t"
  unfolding sniffed_def using counted_mono by blast

lemma sniffed_fold:
  "(\<And>x sf. x \<in> set xs \<Longrightarrow> sniffed c Q sf (f x sf)) \<Longrightarrow> sniffed c Q sf (fold f xs sf)"
proof (induction xs arbitrary: sf)
  case (Cons x xs)
  have "sniffed c Q sf (f x sf)" "sniffed c Q (f x sf) (fold f xs (f x sf))" using Cons by simp_all
  then show ?case using sniffed_trans by simp
qed simp

lemma sniffed_counters:
  "counted c Q (sf_counters sf) cs \<Longrightarrow> (cs_wf (sf_counters sf) \<Longrightarrow> cs_wf cs) \<Longrightarrow> sniffed c Q sf (sf\<lparr>sf_counters := cs\<rparr>)"
  by (simp add: sniffed_def)

lemma sniffed_flows: "sniffed c Q sf (sf\<lparr>sf_flows := snd (observe key now (sf_flows sf))\<rparr>)"
  by (simp add: sniffed_def observe_wf)

lemma l4_rule_sniffed:
  assumes "Q rule"
  shows "sniffed client Q sf (l4_rule env client key opens len rule sf)"
proof -
  let ?sf1 = "sf\<lparr>sf_flows := snd (observe key (sv_now env) (sf_flows sf))\<rparr>"
  have c: "sniffed client Q ?sf1 (?sf1\<lparr>sf_counters := add_connections client (r_id rule) 1 (sf_counters sf)\<rparr>)"
    if "r_metric rule = Connections"
    using sniffed_counters [OF counted_adds(3) [of Q, OF assms that], of ?sf1 client 1] by simp
  have b: "sniffed client Q s (s\<lparr>sf_counters := add_bytes client (r_id rule) len (sf_counters s)\<rparr>)"
    if "r_metric rule = Bytes" for s
    using sniffed_counters [OF counted_adds(2) [of Q, OF assms that], of s client len] by simp
  show ?thesis
  proof (cases "r_metric rule")
    case Connections
    then show ?thesis using sniffed_flows [of client Q sf key "sv_now env"] sniffed_trans [OF _ c [OF Connections]]
      by (simp add: l4_rule_def Let_def case_prod_beta)
  qed (simp_all add: l4_rule_def Let_def b)
qed

lemma event_rule_sniffed: "Q rule \<Longrightarrow> sniffed client Q sf (event_rule env client bytes ctx rule sf)"
  by (simp add: sniffed_def event_rule_def Let_def counted_adds)

lemma rs_wf_inj:
  "rs_wf rs \<Longrightarrow> r \<in> set (rs_rules rs) \<Longrightarrow> r' \<in> set (rs_rules rs) \<Longrightarrow> r_id r = r_id r' \<Longrightarrow> r = r'"
  by (auto simp: rs_wf_def distinct_map dest: inj_onD)

lemma matching_iff: "r \<in> set (matching rs p port) \<longleftrightarrow> r \<in> set (rs_rules rs) \<and> r_protocol r = p \<and> matches_port r port"
  by (auto simp: matching_def)

section \<open>Frames\<close>

definition counts_for :: "'p sniff_env \<Rightarrow> protocol set \<Rightarrow> u16 \<Rightarrow> 'p rule \<Rightarrow> bool" where
  "counts_for env ps port r \<longleftrightarrow> r \<in> set (rs_rules (sv_rules env)) \<and> r_protocol r \<in> ps \<and> matches_port r port"

lemma counted_other_protocol:
  assumes "counted c (counts_for env ps port) s t" "rs_wf (sv_rules env)" "rule \<in> set (rs_rules (sv_rules env))"
    and "r_protocol rule \<notin> ps"
  shows "get_rule t c' (r_id rule) = get_rule s c' (r_id rule)"
proof -
  have "r_id rule' \<noteq> r_id rule" if "counts_for env ps port rule'" for rule'
    using that assms(3,4) rs_wf_inj [OF assms(2)] unfolding counts_for_def by metis
  then show ?thesis by (blast intro: counted_untouched [OF assms(1)])
qed

lemma event_fold_sniffed:
  "p \<in> ps \<Longrightarrow> sniffed client (counts_for env ps port) sf
     (fold (\<lambda>rule. event_rule env client bytes ctx rule) (matching (sv_rules env) p port) sf)"
  by (rule sniffed_fold) (simp add: event_rule_sniffed counts_for_def matching_iff)

lemma events_fold_sniffed:
  "p \<in> ps \<Longrightarrow> sniffed client (counts_for env ps port) sf
     (fold (\<lambda>rule sf. fold (\<lambda>e. event_rule env client (bytes e) (ctx e) rule) es sf) (matching (sv_rules env) p port) sf)"
  by (rule sniffed_fold) (rule sniffed_fold, simp add: event_rule_sniffed counts_for_def matching_iff)

lemma l4_fold_sniffed:
  "p \<in> ps \<Longrightarrow> sniffed client (counts_for env ps port) sf
     (fold (l4_rule env client key opens len) (matching (sv_rules env) p port) sf)"
  by (rule sniffed_fold) (simp add: l4_rule_sniffed counts_for_def matching_iff)

lemma l4_rule_ws [simp]: "sf_ws (l4_rule env client key opens len rule sf) = sf_ws sf"
  by (simp add: l4_rule_def Let_def case_prod_beta)

lemma l4_fold_ws [simp]: "sf_ws (fold (l4_rule env client key opens len) rules sf) = sf_ws sf"
  by (induction rules arbitrary: sf) simp_all

text \<open>The protocols a TCP segment can count under depend on the WebSocket mark of its 4-tuple.\<close>

definition tcp_protocols :: "bool \<Rightarrow> protocol set" where
  "tcp_protocols marked = (if marked then {Tcp, WebSocket} else {Tcp, Http, Withrottle})"

lemma dispatch_tcp_sniffed:
  "\<exists>sf'. dispatch_tcp env client src sport dst dport syn payload sf = Some sf' \<and>
     sniffed client (counts_for env (tcp_protocols (hm_contains (sf_ws sf) (src, sport, dst, dport))) dport) sf sf'"
proof -
  let ?key = "\<lparr>fk_src = src, fk_sport = sport, fk_dst = dst, fk_dport = dport, fk_proto = 6\<rparr>"
  let ?sf1 = "fold (l4_rule env client ?key syn (of_nat (length payload))) (matching (sv_rules env) Tcp dport) sf"
  let ?Q = "counts_for env (tcp_protocols (hm_contains (sf_ws sf) (src, sport, dst, dport))) dport"
  have 1: "sniffed client ?Q sf ?sf1" by (rule l4_fold_sniffed) (simp add: tcp_protocols_def)
  obtain ws http ls where d: "detect_ws_frame payload = Some ws" "detect_http_request payload = Some http"
    "detect_withrottle_lines payload = Some ls"
    using detect_ws_total detect_http_total detect_withrottle_total by blast
  have up: "sniffed client ?Q ?sf1 (?sf1\<lparr>sf_ws := hm_insert k () (sf_ws ?sf1),
      sf_counters := add_ws_connection client (sf_counters ?sf1)\<rparr>)" for k
    by (simp add: sniffed_def hm_simps)
  have "\<exists>sf'. dispatch_tcp env client src sport dst dport syn payload sf = Some sf' \<and> sniffed client ?Q ?sf1 sf'"
  proof (cases "hm_contains (sf_ws sf) (src, sport, dst, dport)")
    case True
    then show ?thesis
      by (cases ws) (auto simp: dispatch_tcp_def Let_def d tcp_protocols_def intro: event_fold_sniffed)
  next
    case False
    then show ?thesis
      using up
      by (cases http)
        (auto simp: dispatch_tcp_def Let_def d tcp_protocols_def intro: event_fold_sniffed events_fold_sniffed)
  qed
  with 1 show ?thesis using sniffed_trans by blast
qed

lemma dispatch_udp_sniffed:
  "\<exists>sf'. dispatch_udp env client src sport dst dport payload sf = Some sf' \<and>
     sniffed client (counts_for env {Udp, Z21} dport) sf sf'"
proof -
  obtain recs where "detect_z21_records payload = Some recs"
    using z21_loop_total by (auto simp: detect_z21_records_def)
  then show ?thesis
    by (simp add: dispatch_udp_def Let_def)
      (rule sniffed_trans [OF l4_fold_sniffed events_fold_sniffed]; simp)
qed

text \<open>Sender, flow and length of the headers, read off a frame at fixed offsets.\<close>

definition frame_client :: "u8 list \<Rightarrow> client_id" where
  "frame_client f = client_new (Mac (f ! 6) (f ! 7) (f ! 8) (f ! 9) (f ! 10) (f ! 11))
     (V4 (Ipv4 (f ! 26) (f ! 27) (f ! 28) (f ! 29)))"

definition frame_l4 :: "u8 list \<Rightarrow> nat" where
  "frame_l4 f = 14 + unat (f ! 14) mod 16 * 4"

definition frame_key :: "u8 list \<Rightarrow> flow_key" where
  "frame_key f =
     (let l4 = frame_l4 f in
      \<lparr>fk_src = Ipv4 (f ! 26) (f ! 27) (f ! 28) (f ! 29), fk_sport = u16_be (f ! l4) (f ! (l4 + 1)),
       fk_dst = Ipv4 (f ! 30) (f ! 31) (f ! 32) (f ! 33), fk_dport = u16_be (f ! (l4 + 2)) (f ! (l4 + 3)),
       fk_proto = f ! 23\<rparr>)"

definition frame_flow :: "u8 list \<Rightarrow> flow_key option" where
  "frame_flow f =
     (if length f \<ge> 34 \<and> be16 (f ! 12) (f ! 13) = 2048 \<and>
         (f ! 23 = 6 \<and> length f \<ge> frame_l4 f + 20 \<or> f ! 23 = 17 \<and> length f \<ge> frame_l4 f + 8)
      then Some (frame_key f) else None)"

definition flow_ws :: "flow_key \<Rightarrow> ws_key" where
  "flow_ws k = (fk_src k, fk_sport k, fk_dst k, fk_dport k)"

definition flow_protocols :: "sniff \<Rightarrow> flow_key \<Rightarrow> protocol set" where
  "flow_protocols sf k =
     (if fk_proto k = 6 then tcp_protocols (hm_contains (sf_ws sf) (flow_ws k)) else {Udp, Z21})"

lemma mac_of_slice:
  "length f \<ge> 12 \<Longrightarrow> mac_of (take 6 (drop 6 f)) = Some (Mac (f ! 6) (f ! 7) (f ! 8) (f ! 9) (f ! 10) (f ! 11))"
proof -
  assume "length f \<ge> 12"
  then have "take 6 (drop 6 f) = [f ! 6, f ! 7, f ! 8, f ! 9, f ! 10, f ! 11]"
    by (intro nth_equalityI) (auto simp: less_Suc_eq numeral_eq_Suc)
  then show ?thesis by (simp add: mac_of_def)
qed

text \<open>On a frame with whole headers the checked accesses succeed, and read what \<open>frame_key\<close> reads.\<close>

definition frame_payload :: "u8 list \<Rightarrow> u8 list" where
  "frame_payload f =
     (let l4 = drop (frame_l4 f) f; off = unat (drop_bit 4 (f ! (frame_l4 f + 12))) * 4
      in if length l4 > off then drop off l4 else [])"

definition frame_syn :: "u8 list \<Rightarrow> bool" where
  "frame_syn f \<longleftrightarrow> f ! (frame_l4 f + 13) AND 0x02 \<noteq> 0 \<and> f ! (frame_l4 f + 13) AND 0x10 = 0"

lemma handle_tcp_dispatch:
  "length f \<ge> frame_l4 f + 20 \<Longrightarrow>
     handle_tcp env c (fk_src (frame_key f)) (fk_dst (frame_key f)) (drop (frame_l4 f) f) sf =
     dispatch_tcp env c (fk_src (frame_key f)) (fk_sport (frame_key f)) (fk_dst (frame_key f)) (fk_dport (frame_key f))
       (frame_syn f) (frame_payload f) sf"
  by (auto simp: handle_tcp_def frame_key_def frame_syn_def frame_payload_def idx_def slice_from_def Let_def)

definition frame_datagram :: "u8 list \<Rightarrow> u8 list" where
  "frame_datagram f = drop (frame_l4 f + 8) f"

lemma handle_udp_dispatch:
  "length f \<ge> frame_l4 f + 8 \<Longrightarrow>
     handle_udp env c (fk_src (frame_key f)) (fk_dst (frame_key f)) (drop (frame_l4 f) f) sf =
     dispatch_udp env c (fk_src (frame_key f)) (fk_sport (frame_key f)) (fk_dst (frame_key f)) (fk_dport (frame_key f))
       (frame_datagram f) sf"
  by (auto simp: handle_udp_def frame_key_def frame_datagram_def idx_def slice_from_def Let_def add.commute)

lemma handle_ip_eq:
  assumes "length f \<ge> 34"
  shows "handle_ip env (cl_mac (frame_client f)) (drop 14 f) sf =
     (if f ! 23 = 6 \<and> length f \<ge> frame_l4 f + 20
      then handle_tcp env (frame_client f) (fk_src (frame_key f)) (fk_dst (frame_key f)) (drop (frame_l4 f) f) sf
      else if f ! 23 = 17 \<and> length f \<ge> frame_l4 f + 8
      then handle_udp env (frame_client f) (fk_src (frame_key f)) (fk_dst (frame_key f)) (drop (frame_l4 f) f) sf
      else Some sf)"
proof -
  have at: "ipv4_at (drop 14 f) 12 = Some (fk_src (frame_key f))" "ipv4_at (drop 14 f) 16 = Some (fk_dst (frame_key f))"
    "idx (drop 14 f) 0 = Some (f ! 14)" "idx (drop 14 f) 9 = Some (f ! 23)"
    using assms by (simp_all add: ipv4_at_def idx_def frame_key_def Let_def)
  have cl: "client_new (cl_mac (frame_client f)) (V4 (fk_src (frame_key f))) = frame_client f"
    by (simp add: frame_client_def client_new_def frame_key_def Let_def)
  show ?thesis
  proof (cases "length f < frame_l4 f")
    case True
    then show ?thesis using assms at by (auto simp: handle_ip_def Let_def unat_low_nibble frame_l4_def)
  next
    case False
    then have l4: "slice_from (drop 14 f) (unat (f ! 14) mod 16 * 4) = Some (drop (frame_l4 f) f)"
      "length (drop 14 f) \<ge> unat (f ! 14) mod 16 * 4"
      by (auto simp: slice_from_def frame_l4_def add.commute)
    have len: "length f \<ge> frame_l4 f + n \<longleftrightarrow> length (drop (frame_l4 f) f) \<ge> n" for n
      using False by auto
    show ?thesis using assms at l4 unfolding len
      by (simp add: handle_ip_def Let_def unat_low_nibble cl not_less)
  qed
qed

lemma handle_frame_ip:
  "length f \<ge> 34 \<Longrightarrow> be16 (f ! 12) (f ! 13) = 2048 \<Longrightarrow>
   handle_frame env f sf = handle_ip env (cl_mac (frame_client f)) (drop 14 f) sf"
  by (simp add: handle_frame_def checked_access ETH_P_IP_def mac_of_slice frame_client_def client_new_def)

lemma handle_frame_short:
  "\<not> (length f \<ge> 34 \<and> be16 (f ! 12) (f ! 13) = 2048) \<Longrightarrow> handle_frame env f sf = Some sf"
  by (auto simp: handle_frame_def checked_access ETH_P_IP_def mac_of_slice handle_ip_def)

lemma frame_flow_Some: "frame_flow f = Some k \<Longrightarrow> k = frame_key f \<and> (fk_proto k = 6 \<or> fk_proto k = 17)"
  by (auto simp: frame_flow_def frame_key_def Let_def split: if_splits)

lemma handle_frame_cases:
  obtains (pass) "frame_flow f = None" "handle_frame env f sf = Some sf"
  | (tcp) k where "frame_flow f = Some k" "fk_proto k = 6"
      "handle_frame env f sf = dispatch_tcp env (frame_client f) (fk_src k) (fk_sport k) (fk_dst k) (fk_dport k)
         (frame_syn f) (frame_payload f) sf"
  | (udp) k where "frame_flow f = Some k" "fk_proto k = 17"
      "handle_frame env f sf = dispatch_udp env (frame_client f) (fk_src k) (fk_sport k) (fk_dst k) (fk_dport k)
         (frame_datagram f) sf"
proof (cases "length f \<ge> 34 \<and> be16 (f ! 12) (f ! 13) = 2048")
  case True
  then have eq: "handle_frame env f sf = handle_ip env (cl_mac (frame_client f)) (drop 14 f) sf"
    and len: "length f \<ge> 34" by (simp_all add: handle_frame_ip)
  have proto: "fk_proto (frame_key f) = f ! 23" by (simp add: frame_key_def Let_def)
  consider "f ! 23 = 6" "length f \<ge> frame_l4 f + 20" | "f ! 23 = 17" "length f \<ge> frame_l4 f + 8"
    | "\<not> (f ! 23 = 6 \<and> length f \<ge> frame_l4 f + 20)" "\<not> (f ! 23 = 17 \<and> length f \<ge> frame_l4 f + 8)"
    by blast
  then show ?thesis
  proof cases
    case 1
    then show ?thesis using True
      by (intro tcp [of "frame_key f"]) (simp_all add: eq handle_ip_eq frame_flow_def proto handle_tcp_dispatch)
  next
    case 2
    then show ?thesis using True
      by (intro udp [of "frame_key f"]) (simp_all add: eq handle_ip_eq frame_flow_def proto handle_udp_dispatch)
  next
    case 3
    then show ?thesis by (intro pass) (auto simp: eq handle_ip_eq [OF len] frame_flow_def)
  qed
next
  case False
  then show ?thesis by (intro pass handle_frame_short) (auto simp: frame_flow_def)
qed

lemma handle_frame_sniffed:
  "\<exists>sf'. handle_frame env f sf = Some sf' \<and>
     (case frame_flow f of
        None \<Rightarrow> sf' = sf
      | Some k \<Rightarrow> sniffed (frame_client f) (counts_for env (flow_protocols sf k) (fk_dport k)) sf sf')"
  by (rule handle_frame_cases [of f env sf])
    (simp_all add: flow_protocols_def flow_ws_def dispatch_tcp_sniffed dispatch_udp_sniffed)

lemma handle_frame_keeps:
  assumes "handle_frame env f sf = Some sf'"
  shows "ft_wf (sf_flows sf) \<Longrightarrow> ft_wf (sf_flows sf')" "ft_max (sf_flows sf') = ft_max (sf_flows sf)"
    "cs_wf (sf_counters sf) \<Longrightarrow> cs_wf (sf_counters sf')"
    "hm_contains (sf_ws sf) k \<Longrightarrow> hm_contains (sf_ws sf') k"
    "triple_le (get_rule (sf_counters sf) c r) (get_rule (sf_counters sf') c r)"
proof -
  obtain Q where Q: "sniffed (frame_client f) (Q :: 'a rule \<Rightarrow> bool) sf sf'"
    using handle_frame_sniffed [of env f sf] assms by (cases "frame_flow f") auto
  show "ft_wf (sf_flows sf) \<Longrightarrow> ft_wf (sf_flows sf')" "ft_max (sf_flows sf') = ft_max (sf_flows sf)"
    "cs_wf (sf_counters sf) \<Longrightarrow> cs_wf (sf_counters sf')"
    using Q by (simp_all add: sniffed_def)
  show "hm_contains (sf_ws sf) k \<Longrightarrow> hm_contains (sf_ws sf') k"
    using Q unfolding sniffed_def by blast
  show "triple_le (get_rule (sf_counters sf) c r) (get_rule (sf_counters sf') c r)"
    using Q counted_mono_counters unfolding sniffed_def by blast
qed

section \<open>Properties of the sniffer\<close>

text \<open>
  No frame makes the sniffer panic, whatever the rules. A frame that is no complete TCP or UDP segment
  over IPv4 changes nothing. Any other moves only counters of its own sender, each under a rule of the
  live set whose port covers the frame's destination port and whose protocol fits the
  segment, and each only in that rule's metric.
\<close>

lemma handle_frame_attribution:
  "\<exists>sf'. handle_frame env f sf = Some sf' \<and>
     (case frame_flow f of
        None \<Rightarrow> sf' = sf
      | Some k \<Rightarrow> \<exists>incs.
          list_all (incr_under (frame_client f) (counts_for env (flow_protocols sf k) (fk_dport k))) incs \<and>
          cs_by_rule (sf_counters sf') = cs_by_rule (fold cs_incr incs (sf_counters sf)))"
  using handle_frame_sniffed [of env f sf] by (auto simp: sniffed_def counted_def split: option.splits)

text \<open>Runs of the sniffer: each frame with the rules and the clock of its moment.\<close>

fun sniff_run :: "('p sniff_env \<times> u8 list) list \<Rightarrow> sniff \<Rightarrow> sniff option" where
  "sniff_run [] sf = Some sf"
| "sniff_run ((env, f) # rest) sf = Option.bind (handle_frame env f sf) (sniff_run rest)"

lemma sniff_run_total: "\<exists>sf'. sniff_run fs sf = Some sf'"
proof (induction fs arbitrary: sf)
  case (Cons x fs)
  obtain env f where x: "x = (env, f)" by (cases x)
  obtain sf1 where "handle_frame env f sf = Some sf1" using handle_frame_sniffed by blast
  then show ?case using Cons.IH by (simp add: x)
qed simp

lemma sniff_run_invariant:
  fixes fs :: "('p sniff_env \<times> u8 list) list"
  assumes "sniff_run fs sf = Some sf'" "P sf"
    and "\<And>env f s s'. handle_frame (env :: 'p sniff_env) f s = Some s' \<Longrightarrow> P s \<Longrightarrow> P s'"
  shows "P sf'"
  using assms(1,2)
proof (induction fs arbitrary: sf)
  case (Cons x fs)
  obtain env f where x: "x = (env, f)" by (cases x)
  with Cons.prems obtain sf1 where "handle_frame env f sf = Some sf1" "sniff_run fs sf1 = Some sf'"
    by (auto simp: bind_eq_Some_conv)
  with Cons.IH Cons.prems(2) assms(3) show ?case by blast
qed simp

text \<open>
  Whatever frames arrive, the sniffer goes on, its flow table never holds more than 8192
  flows, and no flow twice.
\<close>

lemma flow_table_bounded:
  "\<exists>sf. sniff_run fs \<lparr>sf_counters = cs, sf_flows = flow_table_new, sf_ws = ws\<rparr> = Some sf \<and>
     length (ft_flows (sf_flows sf)) \<le> 8192 \<and> hm_wf (ft_flows (sf_flows sf))"
proof -
  let ?P = "\<lambda>s. ft_wf (sf_flows s) \<and> ft_max (sf_flows s) = 8192"
  obtain sf where sf: "sniff_run fs \<lparr>sf_counters = cs, sf_flows = flow_table_new, sf_ws = ws\<rparr> = Some sf"
    using sniff_run_total by blast
  have "?P sf"
  proof (rule sniff_run_invariant [OF sf])
    show "?P \<lparr>sf_counters = cs, sf_flows = flow_table_new, sf_ws = ws\<rparr>"
      using ft_wf_new by (simp add: flow_table_new_def)
    show "handle_frame env f s = Some s' \<Longrightarrow> ?P s \<Longrightarrow> ?P s'" for env :: "'a sniff_env" and f s s'
      using handle_frame_keeps(1,2) [of env f s s'] by simp
  qed
  with sf show ?thesis by (auto simp: ft_wf_def)
qed

text \<open>The key under which the enforcer files the sender of a frame is the one the XDP program reads from it.\<close>

lemma sniffed_key:
  assumes "frame_flow f = Some k" "5 \<le> unat (f ! 14) mod 16"
  shows "\<exists>key. bpf_key (frame_client f) = Some key \<and> xdp_key f = Some key"
proof -
  have len: "length f \<ge> 34" and ip: "be16 (f ! 12) (f ! 13) = 2048"
    using assms(1) by (auto simp: frame_flow_def split: if_splits)
  have "take 6 (drop 6 f) = [f ! 6, f ! 7, f ! 8, f ! 9, f ! 10, f ! 11]"
    "take 4 (drop 26 f) = [f ! 26, f ! 27, f ! 28, f ! 29]"
    using len by (auto intro!: nth_equalityI simp: less_Suc_eq numeral_eq_Suc)
  then have "xdp_key f = bpf_key (frame_client f)"
    using len ip assms(2) by (simp add: xdp_key_def bpf_key_def frame_client_def client_new_def)
  moreover obtain key where "bpf_key (frame_client f) = Some key"
    by (simp add: bpf_key_def frame_client_def client_new_def)
  ultimately show ?thesis by simp
qed

text \<open>A SYN from 10.0.0.1 port 256 to port 80, with no options and no data.\<close>

definition syn_frame :: "u8 list" where
  "syn_frame = [0,0,0,0,0,0, 2,0,0,0,0,1, 8,0,
     0x45,0,0,40, 0,0,0,0, 64,6,0,0, 10,0,0,1, 10,0,0,2,
     1,0, 0,80, 0,0,0,0, 0,0,0,0, 0x50,2,0,0, 0,0,0,0]"

lemma syn_frame_flow:
  "frame_flow syn_frame = Some \<lparr>fk_src = Ipv4 10 0 0 1, fk_sport = 256, fk_dst = Ipv4 10 0 0 2, fk_dport = 80, fk_proto = 6\<rparr>"
  by (simp add: frame_flow_def frame_key_def syn_frame_def frame_l4_def be16_def u16_be_def)

text \<open>
  C31: once a 4-tuple has been marked as a WebSocket, no later segment on it, after any traffic,
  counts under an HTTP or WiThrottle rule again: only TCP and WebSocket rules can move.
\<close>

theorem ws_mark_hides_http:
  assumes "hm_contains (sf_ws sf) (flow_ws k)" "sniff_run fs sf = Some sf1"
    and "frame_flow f = Some k" "fk_proto k = 6" "handle_frame env f sf1 = Some sf2"
    and "rs_wf (sv_rules env)" "rule \<in> set (rs_rules (sv_rules env))" "r_protocol rule \<in> {Http, Withrottle}"
  shows "get_rule (sf_counters sf2) c (r_id rule) = get_rule (sf_counters sf1) c (r_id rule)"
proof -
  have marked: "hm_contains (sf_ws sf1) (flow_ws k)"
    by (rule sniff_run_invariant [where P = "\<lambda>s. hm_contains (sf_ws s) (flow_ws k)", OF assms(2,1)])
      (rule handle_frame_keeps(4))
  then have "counted (frame_client f) (counts_for env {Tcp, WebSocket} (fk_dport k)) (sf_counters sf1) (sf_counters sf2)"
    using handle_frame_sniffed [of env f sf1] assms(3-5)
    by (simp add: flow_protocols_def tcp_protocols_def sniffed_def)
  then show ?thesis using assms(8) by (intro counted_other_protocol [OF _ assms(6,7)]) auto
qed

text \<open>A rule for all metrics of one protocol on port 80, and an environment with such rules.\<close>

definition port80_rule :: "rule_id \<Rightarrow> protocol \<Rightarrow> metric \<Rightarrow> unit rule" where
  "port80_rule i p m =
     \<lparr>r_id = i, r_protocol = p, r_ports = Some [80], r_metric = m, r_window = PerSecond, r_limit = 10,
      r_action = ActBlock, r_min_threshold = 0, r_match = None, r_match_src = None\<rparr>"

definition port80_env :: "unit rule list \<Rightarrow> unit sniff_env" where
  "port80_env rules =
     \<lparr>sv_cel = \<lparr>cel_compile = (\<lambda>_. Inr ()), cel_execute = (\<lambda>_ _. Inl ''no CEL'')\<rparr>, sv_rules = \<lparr>rs_rules = rules\<rparr>,
      sv_sets = sets_config_default, sv_utc = \<lparr>ut_epoch = 0, ut_hour = 0, ut_dow = 0\<rparr>, sv_now = 0\<rparr>"

theorem ws_mark_hides_http_witness:
  "\<exists>sf. handle_frame (port80_env [port80_rule ''h'' Http Requests]) syn_frame
      \<lparr>sf_counters = counter_store_default, sf_flows = flow_table_new, sf_ws = [((Ipv4 10 0 0 1, 256, Ipv4 10 0 0 2, 80), ())]\<rparr>
        = Some sf \<and>
     get_rule (sf_counters sf) (frame_client syn_frame) ''h'' = (0, 0, 0)"
proof -
  let ?sf = "\<lparr>sf_counters = counter_store_default, sf_flows = flow_table_new,
    sf_ws = [((Ipv4 10 0 0 1, 256, Ipv4 10 0 0 2, 80), ())]\<rparr>"
  let ?env = "port80_env [port80_rule ''h'' Http Requests]"
  obtain sf2 where sf2: "handle_frame ?env syn_frame ?sf = Some sf2" using handle_frame_sniffed by blast
  have wf: "rs_wf (sv_rules ?env)"
    by (simp add: rs_wf_def port80_env_def port80_rule_def valid_rule_def MAX_RULES_def is_parsed_def valid_for_def)
  have "get_rule (sf_counters sf2) (frame_client syn_frame) (r_id (port80_rule ''h'' Http Requests)) =
      get_rule (sf_counters ?sf) (frame_client syn_frame) (r_id (port80_rule ''h'' Http Requests))"
    by (rule ws_mark_hides_http [where sf = ?sf and fs = "[]", OF _ _ syn_frame_flow _ sf2 wf])
      (simp_all add: flow_ws_def hm_simps port80_env_def, simp_all add: port80_rule_def)
  with sf2 show ?thesis by (simp add: port80_rule_def counters.get_init)
qed

section \<open>Connections\<close>

abbreviation conns :: "sniff \<Rightarrow> client_id \<Rightarrow> rule_id \<Rightarrow> u64" where
  "conns sf c r \<equiv> triple_get Connections (get_rule (sf_counters sf) c r)"

lemma conns_adds [simp]:
  "triple_get Connections (get_rule (add_requests client i n s) c r) = triple_get Connections (get_rule s c r)"
  "triple_get Connections (get_rule (add_bytes client i n s) c r) = triple_get Connections (get_rule s c r)"
  "triple_get Connections (get_rule (add_ws_connection client s) c r) = triple_get Connections (get_rule s c r)"
  by (simp_all add: add_requests_def add_bytes_def get_rule_add triple_get_add)
    (simp add: get_rule_def add_ws_connection_def Let_def)

lemma conns_event_rule [simp]: "conns (event_rule env client bytes ctx rule sf) c r = conns sf c r"
  by (simp add: event_rule_def Let_def)

lemma conns_fold: "(\<And>x s. conns (f x s) c r = conns s c r) \<Longrightarrow> conns (fold f xs sf) c r = conns sf c r"
  by (induction xs arbitrary: sf) simp_all

text \<open>A flow that is already live counts under no rule; one that is not counts at most under the first.\<close>

lemma l4_rule_live:
  assumes "ft_wf (sf_flows sf)" "ft_live (sf_flows sf) (sv_now env) key"
  shows "conns (l4_rule env client key opens len rule sf) c r = conns sf c r"
    and "ft_live (sf_flows (l4_rule env client key opens len rule sf)) (sv_now env) key"
  using assms observe_fresh [OF assms(1), of key "sv_now env"] observe_live [OF assms(1)]
  by (auto simp: l4_rule_def Let_def case_prod_beta)

lemma l4_rule_wf: "ft_wf (sf_flows sf) \<Longrightarrow> ft_wf (sf_flows (l4_rule env client key opens len rule sf))"
  using l4_rule_sniffed [of "\<lambda>_. True" rule client sf env key opens len] by (simp add: sniffed_def)

lemma l4_fold_live:
  "ft_wf (sf_flows sf) \<Longrightarrow> ft_live (sf_flows sf) (sv_now env) key \<Longrightarrow>
   conns (fold (l4_rule env client key opens len) rules sf) c r = conns sf c r"
proof (induction rules arbitrary: sf)
  case (Cons rule rules)
  show ?case
    using Cons.IH [OF l4_rule_wf [OF Cons.prems(1)] l4_rule_live(2) [OF Cons.prems]]
      l4_rule_live(1) [OF Cons.prems] by simp
qed simp

lemma l4_rule_conns:
  assumes "ft_wf (sf_flows sf)"
  shows "(\<forall>c r. conns (l4_rule env client key opens len rule sf) c r = conns sf c r) \<or>
     ft_live (sf_flows (l4_rule env client key opens len rule sf)) (sv_now env) key \<and>
     (\<forall>c r. r \<noteq> r_id rule \<longrightarrow> conns (l4_rule env client key opens len rule sf) c r = conns sf c r)"
  using observe_live [OF assms, of key "sv_now env"]
  by (auto simp: l4_rule_def Let_def case_prod_beta add_connections_def get_rule_add)

lemma l4_fold_conns:
  "ft_wf (sf_flows sf) \<Longrightarrow>
   \<exists>r0. \<forall>c r. r \<noteq> r0 \<longrightarrow> conns (fold (l4_rule env client key opens len) rules sf) c r = conns sf c r"
proof (induction rules arbitrary: sf)
  case (Cons rule rules)
  let ?sf1 = "l4_rule env client key opens len rule sf"
  note wf = l4_rule_wf [OF Cons.prems, of env client key opens len rule]
  from l4_rule_conns [OF Cons.prems, of env client key opens len rule] show ?case
  proof
    assume "\<forall>c r. conns ?sf1 c r = conns sf c r"
    with Cons.IH [OF wf] show ?thesis by simp
  next
    assume *: "ft_live (sf_flows ?sf1) (sv_now env) key \<and> (\<forall>c r. r \<noteq> r_id rule \<longrightarrow> conns ?sf1 c r = conns sf c r)"
    then have "conns (fold (l4_rule env client key opens len) rules ?sf1) c r = conns ?sf1 c r" for c r
      using l4_fold_live [OF wf] by blast
    with * show ?thesis by (intro exI [of _ "r_id rule"]) simp
  qed
qed simp

lemma dispatch_tcp_conns:
  "dispatch_tcp env client src sport dst dport syn payload sf = Some sf' \<Longrightarrow>
   conns sf' c r = conns (fold (l4_rule env client
     \<lparr>fk_src = src, fk_sport = sport, fk_dst = dst, fk_dport = dport, fk_proto = 6\<rparr> syn (of_nat (length payload)))
     (matching (sv_rules env) Tcp dport) sf) c r"
  by (auto simp: dispatch_tcp_def Let_def conns_fold split: if_splits option.splits)

lemma dispatch_udp_conns:
  "dispatch_udp env client src sport dst dport payload sf = Some sf' \<Longrightarrow>
   conns sf' c r = conns (fold (l4_rule env client
     \<lparr>fk_src = src, fk_sport = sport, fk_dst = dst, fk_dport = dport, fk_proto = 17\<rparr> True (of_nat (length payload)))
     (matching (sv_rules env) Udp dport) sf) c r"
  by (auto simp: dispatch_udp_def Let_def conns_fold split: option.splits)

text \<open>
  C30: a frame moves the connection counter of at most one rule, however many connection rules
  cover its port: the flow is new only to the first of them.
\<close>

theorem connection_counted_once:
  assumes "handle_frame env f sf = Some sf'" "ft_wf (sf_flows sf)"
  shows "\<exists>r0. \<forall>c r. r \<noteq> r0 \<longrightarrow> conns sf' c r = conns sf c r"
proof (rule handle_frame_cases [of f env sf])
  fix k
  assume "handle_frame env f sf = dispatch_tcp env (frame_client f) (fk_src k) (fk_sport k) (fk_dst k) (fk_dport k)
    (frame_syn f) (frame_payload f) sf"
  with assms(1) show ?thesis using l4_fold_conns [OF assms(2)] dispatch_tcp_conns by (metis (no_types, lifting))
next
  fix k
  assume "handle_frame env f sf = dispatch_udp env (frame_client f) (fk_src k) (fk_sport k) (fk_dst k) (fk_dport k)
    (frame_datagram f) sf"
  with assms(1) show ?thesis using l4_fold_conns [OF assms(2)] dispatch_udp_conns by (metis (no_types, lifting))
qed (use assms in simp)

theorem connection_counted_once_witness:
  "\<exists>sf r0. handle_frame (port80_env [port80_rule ''a'' Tcp Connections, port80_rule ''b'' Tcp Connections]) syn_frame
      \<lparr>sf_counters = counter_store_default, sf_flows = flow_table_new, sf_ws = []\<rparr> = Some sf \<and>
     (\<forall>r. r \<noteq> r0 \<longrightarrow> conns sf (frame_client syn_frame) r = 0)"
proof -
  let ?sf = "\<lparr>sf_counters = counter_store_default, sf_flows = flow_table_new, sf_ws = []\<rparr>"
  let ?env = "port80_env [port80_rule ''a'' Tcp Connections, port80_rule ''b'' Tcp Connections]"
  obtain sf where sf: "handle_frame ?env syn_frame ?sf = Some sf" using handle_frame_sniffed by blast
  with connection_counted_once [OF sf] show ?thesis by (auto simp: ft_wf_new counters.get_init)
qed

end
