(* ===== verification/Sniffer_Calls.thy ===== *)
theory Sniffer_Calls
  imports Packet_Sniffer
begin

text \<open>
  The sniffer as its calls on the shared counters. Each call of \<open>CounterStore\<close> takes and gives back the
  mutexes of the counters, so other threads can run between two calls for one frame. Which calls a frame
  leads to depends on the sniffer's own tables and the rules, never on the counters: handling a frame is the
  same as finding the calls first and making them one by one afterwards.
\<close>

section \<open>The calls of a frame\<close>

datatype counter_call =
    AddRequests rule_id u64
  | AddBytes rule_id u64
  | AddConnections rule_id u64
  | AddWsConnection

fun do_call :: "client_id \<Rightarrow> counter_call \<Rightarrow> counter_store \<Rightarrow> counter_store" where
  "do_call c (AddRequests r n) cs = add_requests c r n cs"
| "do_call c (AddBytes r n) cs = add_bytes c r n cs"
| "do_call c (AddConnections r n) cs = add_connections c r n cs"
| "do_call c AddWsConnection cs = add_ws_connection c cs"

definition l4_call ::
  "'p sniff_env \<Rightarrow> client_id \<Rightarrow> flow_key \<Rightarrow> bool \<Rightarrow> u64 \<Rightarrow> 'p rule \<Rightarrow> flow_table \<Rightarrow> counter_call list \<times> flow_table" where
  "l4_call env client key opens byte_len rule flows =
     (let ok = match_ok env rule (common_ctx env client (fk_dport key));
          (opened, flows) =
            (if r_metric rule = Connections \<and> opens then
               let (fresh, flows) = observe key (sv_now env) flows
               in (if fresh \<and> ok then [AddConnections (r_id rule) 1] else [], flows)
             else ([], flows))
      in (opened @ (if r_metric rule = Bytes \<and> byte_len > 0 \<and> ok then [AddBytes (r_id rule) byte_len] else []), flows))"

fun l4_calls ::
  "'p sniff_env \<Rightarrow> client_id \<Rightarrow> flow_key \<Rightarrow> bool \<Rightarrow> u64 \<Rightarrow> 'p rule list \<Rightarrow> flow_table \<Rightarrow> counter_call list \<times> flow_table" where
  "l4_calls env client key opens byte_len [] flows = ([], flows)"
| "l4_calls env client key opens byte_len (rule # rules) flows =
     (let (calls, flows) = l4_call env client key opens byte_len rule flows;
          (rest, flows) = l4_calls env client key opens byte_len rules flows
      in (calls @ rest, flows))"

definition event_calls :: "'p sniff_env \<Rightarrow> u64 \<Rightarrow> match_context \<Rightarrow> 'p rule \<Rightarrow> counter_call list" where
  "event_calls env bytes ctx rule =
     (if match_ok env rule ctx then
        (if r_metric rule = Requests then [AddRequests (r_id rule) 1] else []) @
        (if r_metric rule = Bytes then [AddBytes (r_id rule) bytes] else [])
      else [])"

definition tcp_calls ::
  "'p sniff_env \<Rightarrow> client_id \<Rightarrow> flow_key \<Rightarrow> bool \<Rightarrow> u8 list \<Rightarrow> flow_table \<Rightarrow> (ws_key, unit) hmap \<Rightarrow>
   counter_call list \<times> flow_table \<times> (ws_key, unit) hmap" where
  "tcp_calls env client key syn payload flows ws =
     (let len = of_nat (length payload);
          port = fk_dport key;
          (l4, flows) = l4_calls env client key syn len (matching (sv_rules env) Tcp port) flows
      in if hm_contains ws (flow_ws key) then
           (l4 @ (case detect_ws_frame payload of
                    Some (Some h) \<Rightarrow>
                      concat (map (event_calls env len (ws_ctx env client port h)) (matching (sv_rules env) WebSocket port))
                  | _ \<Rightarrow> []), flows, ws)
         else
           (case detect_http_request payload of
              Some (Some h) \<Rightarrow>
                if ht_upgrade_ws h then (l4 @ [AddWsConnection], flows, hm_insert (flow_ws key) () ws)
                else (l4 @ concat (map (event_calls env len (http_ctx env client port h)) (matching (sv_rules env) Http port)),
                  flows, ws)
            | _ \<Rightarrow>
                (l4 @ concat (map (\<lambda>rule.
                     concat (map (\<lambda>l. event_calls env (of_nat (length (wl_command l))) (withrottle_ctx env client port l) rule)
                       (case detect_withrottle_lines payload of Some ls \<Rightarrow> ls | None \<Rightarrow> [])))
                   (matching (sv_rules env) Withrottle port)), flows, ws)))"

definition udp_calls ::
  "'p sniff_env \<Rightarrow> client_id \<Rightarrow> flow_key \<Rightarrow> u8 list \<Rightarrow> flow_table \<Rightarrow> counter_call list \<times> flow_table" where
  "udp_calls env client key payload flows =
     (let port = fk_dport key;
          (l4, flows) = l4_calls env client key True (of_nat (length payload)) (matching (sv_rules env) Udp port) flows
      in (l4 @ concat (map (\<lambda>rule.
             concat (map (\<lambda>r. event_calls env (ucast (zr_data_len r)) (z21_ctx env client port r) rule)
               (case detect_z21_records payload of Some recs \<Rightarrow> recs | None \<Rightarrow> [])))
           (matching (sv_rules env) Z21 port)), flows))"

definition frame_calls ::
  "'p sniff_env \<Rightarrow> u8 list \<Rightarrow> flow_table \<Rightarrow> (ws_key, unit) hmap \<Rightarrow> counter_call list \<times> flow_table \<times> (ws_key, unit) hmap" where
  "frame_calls env f flows ws =
     (case frame_flow f of
        None \<Rightarrow> ([], flows, ws)
      | Some k \<Rightarrow>
          if fk_proto k = 6 then tcp_calls env (frame_client f) k (frame_syn f) (frame_payload f) flows ws
          else (let (calls, flows) = udp_calls env (frame_client f) k (frame_datagram f) flows in (calls, flows, ws)))"

text \<open>What a frame is handled with in a state of the daemon.\<close>

definition frame_env :: "'p cel_api \<Rightarrow> 'p daemon_state \<Rightarrow> utc \<Rightarrow> instant \<Rightarrow> 'p sniff_env" where
  "frame_env api st utc now =
     \<lparr>sv_cel = api, sv_rules = state_rules st, sv_sets = state_sets st, sv_utc = utc, sv_now = now\<rparr>"

section \<open>A frame is its calls\<close>

abbreviation do_calls :: "client_id \<Rightarrow> counter_call list \<Rightarrow> counter_store \<Rightarrow> counter_store" where
  "do_calls c calls cs \<equiv> fold (do_call c) calls cs"

lemma event_rule_calls:
  "event_rule env client n ctx rule sf =
     sf\<lparr>sf_counters := do_calls client (event_calls env n ctx rule) (sf_counters sf)\<rparr>"
  by (simp add: event_rule_def event_calls_def Let_def)

lemma fold_counters:
  assumes "\<And>x sf. f x sf = sf\<lparr>sf_counters := do_calls c (g x) (sf_counters sf)\<rparr>"
  shows "fold f xs sf = sf\<lparr>sf_counters := do_calls c (concat (map g xs)) (sf_counters sf)\<rparr>"
  by (induction xs arbitrary: sf) (simp_all add: assms)

lemmas event_folds = fold_counters [OF event_rule_calls] fold_counters [OF fold_counters [OF event_rule_calls]]

lemma l4_rule_calls:
  "l4_rule env client key opens len rule sf =
     (let (calls, flows) = l4_call env client key opens len rule (sf_flows sf)
      in sf\<lparr>sf_flows := flows, sf_counters := do_calls client calls (sf_counters sf)\<rparr>)"
  by (simp add: l4_rule_def l4_call_def Let_def case_prod_beta)

lemma l4_fold_calls:
  "fold (l4_rule env client key opens len) rules sf =
     (let (calls, flows) = l4_calls env client key opens len rules (sf_flows sf)
      in sf\<lparr>sf_flows := flows, sf_counters := do_calls client calls (sf_counters sf)\<rparr>)"
  by (induction rules arbitrary: sf) (simp_all add: l4_rule_calls Let_def case_prod_beta)

lemma dispatch_tcp_calls:
  assumes "fk_proto k = 6"
  shows "dispatch_tcp env client (fk_src k) (fk_sport k) (fk_dst k) (fk_dport k) syn payload sf =
     Some (let (calls, flows, ws) = tcp_calls env client k syn payload (sf_flows sf) (sf_ws sf)
           in \<lparr>sf_counters = do_calls client calls (sf_counters sf), sf_flows = flows, sf_ws = ws\<rparr>)"
proof -
  have key: "\<lparr>fk_src = fk_src k, fk_sport = fk_sport k, fk_dst = fk_dst k, fk_dport = fk_dport k, fk_proto = 6\<rparr> = k"
    using assms by simp
  obtain ws http ls where d: "detect_ws_frame payload = Some ws" "detect_http_request payload = Some http"
    "detect_withrottle_lines payload = Some ls"
    using detect_ws_total detect_http_total detect_withrottle_total by blast
  show ?thesis
    by (cases sf; cases ws; cases http)
      (simp_all add: dispatch_tcp_def tcp_calls_def Let_def key d flow_ws_def l4_fold_calls event_folds case_prod_beta)
qed

lemma dispatch_udp_calls:
  assumes "fk_proto k = 17"
  shows "dispatch_udp env client (fk_src k) (fk_sport k) (fk_dst k) (fk_dport k) payload sf =
     Some (let (calls, flows) = udp_calls env client k payload (sf_flows sf)
           in sf\<lparr>sf_counters := do_calls client calls (sf_counters sf), sf_flows := flows\<rparr>)"
proof -
  have key: "\<lparr>fk_src = fk_src k, fk_sport = fk_sport k, fk_dst = fk_dst k, fk_dport = fk_dport k, fk_proto = 17\<rparr> = k"
    using assms by simp
  obtain recs where d: "detect_z21_records payload = Some recs"
    using z21_loop_total by (auto simp: detect_z21_records_def)
  show ?thesis
    by (cases sf) (simp add: dispatch_udp_def udp_calls_def Let_def key d l4_fold_calls event_folds case_prod_beta)
qed

lemma handle_frame_calls:
  "handle_frame env f sf =
     Some (let (calls, flows, ws) = frame_calls env f (sf_flows sf) (sf_ws sf)
           in \<lparr>sf_counters = do_calls (frame_client f) calls (sf_counters sf), sf_flows = flows, sf_ws = ws\<rparr>)"
proof (cases rule: handle_frame_cases [of f env sf])
  case pass
  then show ?thesis by (simp add: frame_calls_def)
next
  case (tcp k)
  then show ?thesis by (simp add: dispatch_tcp_calls frame_calls_def)
next
  case (udp k)
  then show ?thesis by (simp add: dispatch_udp_calls frame_calls_def Let_def case_prod_beta)
qed

lemma frame_calls_keeps:
  assumes "frame_calls env f flows ws = (calls, flows', ws')"
  shows "ft_wf flows \<Longrightarrow> ft_wf flows'" "ft_max flows' = ft_max flows"
proof -
  let ?sf = "\<lparr>sf_counters = counter_store_default, sf_flows = flows, sf_ws = ws\<rparr>"
  have "handle_frame env f ?sf =
      Some \<lparr>sf_counters = do_calls (frame_client f) calls counter_store_default, sf_flows = flows', sf_ws = ws'\<rparr>"
    by (simp add: handle_frame_calls assms)
  from handle_frame_keeps(1,2) [OF this] show "ft_wf flows \<Longrightarrow> ft_wf flows'" "ft_max flows' = ft_max flows" by simp_all
qed

lemma sniff_frame_calls:
  assumes "sniff_frame api utc now f (st, flows, ws) = Some (st', flows', ws')"
  obtains calls where "frame_calls (frame_env api st utc now) f flows ws = (calls, flows', ws')"
    "st' = st\<lparr>ds_counters := do_calls (frame_client f) calls (ds_counters st)\<rparr>"
  using assms by (auto simp: sniff_frame_def handle_frame_calls frame_env_def Let_def case_prod_beta prod_eq_iff)

text \<open>A call moves counters up and keeps the store well-formed.\<close>

lemma do_call_wf: "cs_wf cs \<Longrightarrow> cs_wf (do_call c call cs)"
  by (cases call) simp_all

lemma do_call_mono: "triple_le (get_rule cs c' r) (get_rule (do_call c call cs) c' r)"
proof -
  have "get_rule (add_ws_connection c cs) c' r = get_rule cs c' r"
    by (simp add: get_rule_def add_ws_connection_def Let_def)
  then show ?thesis
    by (cases call) (simp_all add: add_requests_def add_bytes_def add_connections_def get_rule_add triple_le_add)
qed

end
