(* ===== verification/Daemon_Run.thy ===== *)
theory Daemon_Run
  imports Sniffer_Calls Decision_Loop Ipc_Server
begin

text \<open>
  \<open>crates/microwaf/src/cli/daemon.rs\<close> and \<open>iface.rs\<close>: how the daemon starts, and its threads as
  a step relation. A step is one frame of the sniffer, one round of the decision loop, one
  reload of the configuration or one IPC request; each holds the locks of what it changes, so
  the steps interleave as wholes. Each step has a name, the event, so that a run is a sequence of events. The invariants of the components hold in every reachable state,
  and with them the daemon decides about a client from that client's own traffic.
\<close>

section \<open>Interfaces\<close>

datatype iface_error = NameEmpty | NameHasNul | NoSuchInterface string

definition is_any :: "string \<Rightarrow> bool" where
  "is_any iface = eq_ignore_ascii_case iface ''any''"

text \<open>\<open>index_of\<close> is \<open>if_nametoindex\<close>, which answers 0 for an unknown name.\<close>

definition ifindex :: "(string \<Rightarrow> u32) \<Rightarrow> string \<Rightarrow> iface_error + u32" where
  "ifindex index_of iface =
     (if is_any iface then Inr 0
      else if CHR 0x00 \<in> set iface then Inl NameHasNul
      else let i = index_of iface in if i = 0 then Inl (NoSuchInterface iface) else Inr i)"

definition ensure_exists :: "(string \<Rightarrow> u32) \<Rightarrow> string \<Rightarrow> iface_error + unit" where
  "ensure_exists index_of iface =
     (if iface = [] then Inl NameEmpty
      else case ifindex index_of iface of Inl e \<Rightarrow> Inl e | Inr _ \<Rightarrow> Inr ())"

text \<open>The entries of \<open>if_nameindex\<close> up to its end mark, and of \<open>/sys/class/net\<close>.\<close>

definition list_via_if_nameindex :: "string + (u32 \<times> string option) list \<Rightarrow> string + string list" where
  "list_via_if_nameindex r =
     (case r of
        Inl e \<Rightarrow> Inl e
      | Inr es \<Rightarrow>
          let named = takeWhile (\<lambda>(i, n). i \<noteq> 0 \<and> n \<noteq> None) es
          in Inr (filter (\<lambda>n. n \<noteq> ''lo'' \<and> \<not> is_any n) (map (the \<circ> snd) named)))"

definition list_via_sysfs :: "string + string list \<Rightarrow> string + string list" where
  "list_via_sysfs r =
     (case r of
        Inl e \<Rightarrow> Inl e
      | Inr ns \<Rightarrow> Inr (sort (filter (\<lambda>n. n \<noteq> ''lo'') ns)))"

definition list_attachable ::
  "string + (u32 \<times> string option) list \<Rightarrow> string + string list \<Rightarrow> string + string list" where
  "list_attachable index sysfs =
     (case list_via_if_nameindex index of Inr ns \<Rightarrow> Inr ns | Inl _ \<Rightarrow> list_via_sysfs sysfs)"

section \<open>Startup\<close>

record daemon_args =
  da_interface :: "string option"
  da_redis_url :: "string option"
  da_config_dir :: "string option"
  da_mode :: "mode option"

text \<open>The command line: the global options, and those of the \<open>daemon\<close> subcommand when it is there.\<close>

record cli =
  cli_args :: daemon_args
  cli_daemon :: "daemon_args option"
  cli_socket :: "string option"

definition or_else :: "'a option \<Rightarrow> 'a option \<Rightarrow> 'a option" where
  "or_else a b = (case a of Some x \<Rightarrow> Some x | None \<Rightarrow> b)"

definition effective_args :: "cli \<Rightarrow> daemon_args" where
  "effective_args c =
     (case cli_daemon c of
        None \<Rightarrow> cli_args c
      | Some d \<Rightarrow>
          \<lparr>da_interface = or_else (da_interface d) (da_interface (cli_args c)),
           da_redis_url = or_else (da_redis_url d) (da_redis_url (cli_args c)),
           da_config_dir = or_else (da_config_dir d) (da_config_dir (cli_args c)),
           da_mode = or_else (da_mode d) (da_mode (cli_args c))\<rparr>)"

definition resolve_socket :: "(string \<Rightarrow> string option) \<Rightarrow> string \<Rightarrow> string option \<Rightarrow> string" where
  "resolve_socket env default_socket override =
     (case override of
        Some p \<Rightarrow> p
      | None \<Rightarrow> (case env ''MICROWAF_SOCKET'' of Some p \<Rightarrow> p | None \<Rightarrow> default_socket))"

text \<open>
  What startup asks of the outside: the environment, the files, the parsers, the network
  interfaces, the socket, Redis, and the loader of the BPF object (\<open>hs_attach\<close> loads and attaches to
  the given interfaces). \<open>hs_ebpf\<close> is the build feature.
\<close>

record ('p, 'y, 'r) host =
  hs_env :: "string \<Rightarrow> string option"
  hs_default_socket :: string
  hs_io :: io_oracle
  hs_yaml :: "'y yaml_api"
  hs_cel :: "'p cel_api"
  hs_dirs :: "string \<Rightarrow> config_dir"
  hs_index_of :: "string \<Rightarrow> u32"
  hs_if_nameindex :: "string + (u32 \<times> string option) list"
  hs_sysfs :: "string + string list"
  hs_bind :: "bind_options \<Rightarrow> string option"
  hs_max_frame :: nat
  hs_connect :: "string \<Rightarrow> string + 'r"
  hs_store :: "'r store_env"
  hs_ebpf :: bool
  hs_attach :: "string list \<Rightarrow> string option"

definition load_and_attach :: "('p, 'y, 'r) host \<Rightarrow> string \<Rightarrow> string + bpf_enforcer" where
  "load_and_attach h iface =
     (let attach = (\<lambda>ifs. case hs_attach h ifs of Some e \<Rightarrow> Inl e | None \<Rightarrow> Inr bpf_load_and_attach)
      in if hs_ebpf h then
           (if is_any iface then
              (case list_attachable (hs_if_nameindex h) (hs_sysfs h) of
                 Inl e \<Rightarrow> Inl e
               | Inr ifs \<Rightarrow> if ifs = [] then Inl ''interface=any but no attachable NICs found'' else attach ifs)
            else attach [iface])
         else Inr bpf_load_and_attach)"

definition choose_enforcer :: "('p, 'y, 'r) host \<Rightarrow> mode \<Rightarrow> string \<Rightarrow> any_enforcer" where
  "choose_enforcer h m iface =
     (case m of
        Enforce \<Rightarrow>
          (case load_and_attach h iface of
             Inr bpf \<Rightarrow> EnfBpf bpf
           | Inl _ \<Rightarrow> EnfPermissive \<lparr>pe_log = []\<rparr>)
      | Permissive \<Rightarrow> EnfPermissive \<lparr>pe_log = []\<rparr>)"

definition open_redis :: "('p, 'y, 'r) host \<Rightarrow> string \<Rightarrow> string + 'r" where
  "open_redis h url =
     (case redis_connect (hs_connect h) (se_redis (hs_store h)) url of Inl e \<Rightarrow> Inl (show_store_error e) | Inr r \<Rightarrow> Inr r)"

datatype startup_error =
    LoadConfig load_error
  | BadInterface iface_error
  | BindFailed string
  | HydrateFailed store_error

record ('p, 'r) daemon =
  dm_state :: "'p daemon_state"
  dm_store :: "'r store_backend"
  dm_flows :: flow_table
  dm_ws :: "(ws_key, unit) hmap"
  dm_pending :: "(client_id \<times> counter_call) list"
  dm_dir :: config_dir
  dm_last_snapshot :: instant
  dm_server :: ipc_server

text \<open>The state and the store, hydrated when Redis answers.\<close>

definition open_store ::
  "('p, 'y, 'r) host \<Rightarrow> string \<Rightarrow> instant \<Rightarrow> system_time \<Rightarrow> 'p daemon_state \<Rightarrow>
   (startup_error + 'p daemon_state \<times> 'r store_backend) option" where
  "open_store h url now now_sys st =
     (case open_redis h url of
        Inl _ \<Rightarrow> Some (Inr (st, StMemory memory_store_default))
      | Inr r \<Rightarrow>
          (case hydrate now now_sys (redis_load_policies (se_redis (hs_store h)) (se_json (hs_store h)) r) st of
             None \<Rightarrow> None
           | Some (Inl e) \<Rightarrow> Some (Inl (HydrateFailed e))
           | Some (Inr st') \<Rightarrow> Some (Inr (st', StRedis r))))"

definition daemon_run :: "('p, 'y, 'r) host \<Rightarrow> cli \<Rightarrow> instant \<Rightarrow> system_time \<Rightarrow> (startup_error + ('p, 'r) daemon) option" where
  "daemon_run h c now now_sys =
     (let args = effective_args c;
          dir = hs_dirs h (resolve_config_dir (hs_env h) (da_config_dir args))
      in case live_load (hs_io h) (hs_yaml h) (hs_cel h) dir of
           (Inl e, dir) \<Rightarrow> Some (Inl (LoadConfig e))
         | (Inr live, dir) \<Rightarrow>
             let mode = (case da_mode args of Some m \<Rightarrow> m | None \<Rightarrow> dc_mode (lc_daemon live));
                 iface = (case or_else (da_interface args) (dc_interface (lc_daemon live)) of
                            Some i \<Rightarrow> i | None \<Rightarrow> ''any'')
             in case ensure_exists (hs_index_of h) iface of
                  Inl e \<Rightarrow> Some (Inl (BadInterface e))
                | Inr _ \<Rightarrow>
                    let url = (case da_redis_url args of Some u \<Rightarrow> u | None \<Rightarrow> ''redis://127.0.0.1:6379/0'');
                        socket = resolve_socket (hs_env h) (hs_default_socket h) (cli_socket c)
                    in case bind_listener (hs_bind h) socket of
                         Some e \<Rightarrow> Some (Inl (BindFailed e))
                       | None \<Rightarrow>
                           (case open_store h url now now_sys (daemon_state_new mode iface live) of
                              None \<Rightarrow> None
                            | Some (Inl e) \<Rightarrow> Some (Inl e)
                            | Some (Inr (st, store)) \<Rightarrow>
                                Some (Inr \<lparr>dm_state = set_enforcer (choose_enforcer h mode iface) st, dm_store = store,
                                  dm_flows = flow_table_new, dm_ws = [], dm_pending = [], dm_dir = dir, dm_last_snapshot = now,
                                  dm_server = serve_listener (hs_max_frame h) socket (allow_users st)\<rparr>)))"

section \<open>The threads\<close>

text \<open>One round of \<open>decision::run\<close>: a tick, and a snapshot of the stats when it is due.\<close>

definition decision_round ::
  "'r store_env \<Rightarrow> instant \<Rightarrow> client_id list \<Rightarrow> instant \<Rightarrow> system_time \<Rightarrow> ('p, 'r) daemon \<Rightarrow> ('p, 'r) daemon option" where
  "decision_round env now order later now_sys dm =
     map_option (\<lambda>st.
         let dm = dm\<lparr>dm_state := st\<rparr>;
             secs = max (dc_stats_snapshot_secs (daemon_cfg st)) 1
         in if duration_since later (dm_last_snapshot dm) \<ge> dur_from_secs secs
            then dm\<lparr>dm_store := snd (snapshot_stats env now_sys st (dm_store dm)), dm_last_snapshot := later\<rparr>
            else dm)
       (tick now order (dm_state dm))"

text \<open>
  The steps of the threads. The sniffer receives a frame when it has made all its calls for the one before,
  and then makes the calls one at a time, so that ticks, requests and reloads can come between
  them. A tick and a request each run under the lock of the policies. A panic of any thread ends the
  process, as the release profile says; no step leads out of it.
\<close>

datatype daemon_event =
    EvRecv
  | EvCount
  | EvRound instant
  | EvEdit
  | EvReload
  | EvRequest json

inductive daemon_does :: "('p, 'y, 'r) host \<Rightarrow> daemon_event \<Rightarrow> ('p, 'r) daemon \<Rightarrow> ('p, 'r) daemon \<Rightarrow> bool"
  for h :: "('p, 'y, 'r) host" where
  Recv: "dm_pending dm = [] \<Longrightarrow>
    frame_calls (frame_env (hs_cel h) (dm_state dm) utc now) frame (dm_flows dm) (dm_ws dm) = (calls, fl, ws) \<Longrightarrow>
    daemon_does h EvRecv dm (dm\<lparr>dm_flows := fl, dm_ws := ws, dm_pending := map (Pair (frame_client frame)) calls\<rparr>)"
| Count: "dm_pending dm = (c, call) # rest \<Longrightarrow>
    daemon_does h EvCount dm (dm\<lparr>dm_state := (dm_state dm)\<lparr>ds_counters := do_call c call (ds_counters (dm_state dm))\<rparr>,
      dm_pending := rest\<rparr>)"
| Round: "distinct order \<Longrightarrow> set order = tick_clients (dm_state dm) \<Longrightarrow>
    decision_round (hs_store h) now order later now_sys dm = Some dm' \<Longrightarrow> daemon_does h (EvRound now) dm dm'"
| Edit: "daemon_does h EvEdit dm (dm\<lparr>dm_dir := dir\<rparr>)"
| Reload: "try_reload io (hs_yaml h) (hs_cel h) (dm_dir dm) (dm_state dm) = (st, dir) \<Longrightarrow>
    daemon_does h EvReload dm (dm\<lparr>dm_state := st, dm_dir := dir\<rparr>)"
| Request: "execute v (hs_store h) now now_sys body (dm_state dm) (dm_store dm) = Some (Inr (resp, st, store)) \<Longrightarrow>
    daemon_does h (EvRequest body) dm (dm\<lparr>dm_state := st, dm_store := store\<rparr>)"

inductive_cases daemon_roundE: "daemon_does h (EvRound now) dm dm'"

definition daemon_step :: "('p, 'y, 'r) host \<Rightarrow> ('p, 'r) daemon \<Rightarrow> ('p, 'r) daemon \<Rightarrow> bool" where
  "daemon_step h dm dm' \<longleftrightarrow> (\<exists>ev. daemon_does h ev dm dm')"

inductive daemon_reach :: "('p, 'y, 'r) host \<Rightarrow> ('p, 'r) daemon \<Rightarrow> bool" for h :: "('p, 'y, 'r) host" where
  Start: "daemon_run h c now now_sys = Some (Inr dm) \<Longrightarrow> daemon_reach h dm"
| Step: "daemon_reach h dm \<Longrightarrow> daemon_step h dm dm' \<Longrightarrow> daemon_reach h dm'"

lemma does_step: "daemon_does h ev dm dm' \<Longrightarrow> daemon_step h dm dm'"
  by (auto simp: daemon_step_def)

text \<open>A run of the daemon from a state: the events in order, each with the state after it.\<close>

fun daemon_history :: "('p, 'y, 'r) host \<Rightarrow> ('p, 'r) daemon \<Rightarrow> (daemon_event \<times> ('p, 'r) daemon) list \<Rightarrow> bool" where
  "daemon_history h dm [] \<longleftrightarrow> True"
| "daemon_history h dm ((ev, dm') # path) \<longleftrightarrow> daemon_does h ev dm dm' \<and> daemon_history h dm' path"

text \<open>A frame handled without a step of another thread in between.\<close>

lemma count_steps:
  "dm_pending dm = map (Pair c) calls \<Longrightarrow>
     (daemon_step h)\<^sup>*\<^sup>* dm (dm\<lparr>dm_state := (dm_state dm)\<lparr>ds_counters := do_calls c calls (ds_counters (dm_state dm))\<rparr>,
       dm_pending := []\<rparr>)"
proof (induction calls arbitrary: dm)
  case Nil
  then have "dm\<lparr>dm_state := (dm_state dm)\<lparr>ds_counters := do_calls c [] (ds_counters (dm_state dm))\<rparr>, dm_pending := []\<rparr> = dm" by simp
  then show ?case by simp
next
  case (Cons call calls)
  let ?dm = "dm\<lparr>dm_state := (dm_state dm)\<lparr>ds_counters := do_call c call (ds_counters (dm_state dm))\<rparr>,
    dm_pending := map (Pair c) calls\<rparr>"
  have "daemon_step h dm ?dm" using Cons.prems by (intro does_step [OF Count]) simp
  moreover have "(daemon_step h)\<^sup>*\<^sup>* ?dm (dm\<lparr>dm_state := (dm_state dm)\<lparr>ds_counters := do_calls c (call # calls) (ds_counters (dm_state dm))\<rparr>,
      dm_pending := []\<rparr>)"
    using Cons.IH [of ?dm] by simp
  ultimately show ?case by (rule converse_rtranclp_into_rtranclp)
qed

lemma frame_steps:
  assumes "dm_pending dm = []" "sniff_frame (hs_cel h) utc now frame (dm_state dm, dm_flows dm, dm_ws dm) = Some (st, fl, ws)"
  shows "(daemon_step h)\<^sup>*\<^sup>* dm (dm\<lparr>dm_state := st, dm_flows := fl, dm_ws := ws\<rparr>)"
proof -
  obtain calls where calls: "frame_calls (frame_env (hs_cel h) (dm_state dm) utc now) frame (dm_flows dm) (dm_ws dm) = (calls, fl, ws)"
    "st = (dm_state dm)\<lparr>ds_counters := do_calls (frame_client frame) calls (ds_counters (dm_state dm))\<rparr>"
    by (rule sniff_frame_calls [OF assms(2)])
  let ?dm = "dm\<lparr>dm_flows := fl, dm_ws := ws, dm_pending := map (Pair (frame_client frame)) calls\<rparr>"
  have "daemon_step h dm ?dm" by (rule does_step [OF Recv [OF assms(1) calls(1)]])
  moreover have "(daemon_step h)\<^sup>*\<^sup>* ?dm (dm\<lparr>dm_state := st, dm_flows := fl, dm_ws := ws\<rparr>)"
    using count_steps [of ?dm "frame_client frame" calls h] assms(1) by (cases dm) (simp add: calls(2))
  ultimately show ?thesis by (rule converse_rtranclp_into_rtranclp)
qed

lemma reach_steps: "(daemon_step h)\<^sup>*\<^sup>* dm dm' \<Longrightarrow> daemon_reach h dm \<Longrightarrow> daemon_reach h dm'"
  by (induction rule: rtranclp_induct) (auto intro: daemon_reach.Step)

section \<open>Each step keeps the invariants\<close>

text \<open>The kind of the enforcer fits the mode: a permissive daemon never has the BPF enforcer.\<close>

definition mode_ok :: "'p daemon_state \<Rightarrow> bool" where
  "mode_ok st \<longleftrightarrow>
     (\<exists>e. ds_enforcer st = Some (EnfPermissive e)) \<or> (\<exists>e. ds_enforcer st = Some (EnfBpf e)) \<and> ds_mode st = Enforce"

lemma mode_ok_apply [simp]:
  "mode_ok st \<Longrightarrow> mode_ok (state_apply c a st)" "mode_ok st \<Longrightarrow> mode_ok (state_clear c st)"
  by (auto simp: mode_ok_def state_apply_def state_clear_def Let_def)

definition daemon_inv :: "('p, 'r) daemon \<Rightarrow> bool" where
  "daemon_inv dm \<longleftrightarrow> ds_wf (dm_state dm) \<and> accounted (dm_state dm) \<and> mode_ok (dm_state dm) \<and>
     ft_wf (dm_flows dm) \<and> ft_max (dm_flows dm) = 8192"

lemma tick_client_inv:
  assumes "tick_client now (snap st) c st = Some st'" "ds_wf st" "mode_ok st"
  shows "ds_wf st' \<and> mode_ok st'"
proof -
  have upd: "ds_wf (st\<lparr>ds_windows := hm_insert c w (ds_windows st), ds_policies := hm_insert c p (ds_policies st)\<rparr>)"
    "mode_ok (st\<lparr>ds_windows := hm_insert c w (ds_windows st), ds_policies := hm_insert c p (ds_policies st)\<rparr>)" for w p
    using assms(2,3) by (simp_all add: ds_wf_def state_rules_def mode_ok_def)
  show ?thesis using assms(1) upd by (auto simp: tick_client_eq Let_def split: option.splits)
qed

lemma tick_loop_inv:
  "tick_loop now (snap st) cs st = Some st' \<Longrightarrow> ds_wf st \<Longrightarrow> mode_ok st \<Longrightarrow> ds_wf st' \<and> mode_ok st'"
proof (induction cs arbitrary: st)
  case (Cons c cs)
  then obtain st1 where st1: "tick_client now (snap st) c st = Some st1" "tick_loop now (snap st) cs st1 = Some st'"
    by (auto split: option.splits)
  have "snap st1 = snap st" using tick_client_Some(1) [OF st1(1)] by (simp add: agree_off_def)
  with st1 Cons.IH [of st1] Cons.prems tick_client_inv [OF st1(1)] show ?case by simp
qed simp

lemma tick_inv: "tick now order st = Some st' \<Longrightarrow> ds_wf st \<Longrightarrow> mode_ok st \<Longrightarrow> ds_wf st' \<and> mode_ok st'"
  using tick_loop_inv [of now st order]
  by (auto simp: tick_def Let_def ds_wf_def state_rules_def mode_ok_def cs_wf_def snapshot_rules_def)

lemma accounted_policies: "accounted st \<Longrightarrow> accounted (st\<lparr>ds_policies := p\<rparr>)"
  by (simp add: accounted_def)

lemma set_manual_inv:
  "ds_wf st \<Longrightarrow> ds_wf (set_manual c m st)" "mode_ok st \<Longrightarrow> mode_ok (set_manual c m st)"
  "accounted st \<Longrightarrow> accounted (set_manual c m st)"
  by (simp_all add: set_manual_def ds_wf_def state_rules_def mode_ok_def accounted_policies)

text \<open>A request leaves the state alone or sets one client's manual policy.\<close>

definition manual_only :: "'p daemon_state \<Rightarrow> 'p daemon_state \<Rightarrow> bool" where
  "manual_only st st' \<longleftrightarrow> st' = st \<or> (\<exists>c m. st' = set_manual c m st)"

lemma manual_only_intros [simp, intro]: "manual_only st st" "manual_only st (set_manual c m st)"
  by (auto simp: manual_only_def)

lemma answer_state [simp]: "fst (snd (answer k r)) = fst (snd r)"
  by (auto simp: answer_def split: prod.splits sum.splits)

lemma cmd_state:
  "throttle_cmd env now now_sys tp st s = Some r \<Longrightarrow> manual_only st (fst (snd r))"
  "block_cmd env now now_sys bp st s = Some r \<Longrightarrow> manual_only st (fst (snd r))"
  "manual_only st (fst (snd (clear_manual_throttle env now now_sys cref st s)))"
  "manual_only st (fst (snd (clear_manual_block env now now_sys cref st s)))"
  by (auto simp: throttle_cmd_def block_cmd_def clear_manual_throttle_def clear_manual_block_def finish_parts Let_def
      split: sum.splits option.splits)

lemma dispatch_state: "dispatch v env now now_sys req st s = Some r \<Longrightarrow> manual_only st (fst (snd r))"
  by (cases "rq_kind req")
    (auto simp: dispatch_def Let_def cmd_state(3,4) split: option.splits params.splits dest!: cmd_state(1,2))

lemma execute_state:
  "execute v env now now_sys body st s = Some (Inr (resp, st', s')) \<Longrightarrow> manual_only st st'"
  using dispatch_state by (fastforce simp: execute_def split: option.splits)

lemma call_inv:
  assumes "ds_wf st" "accounted st" "mode_ok st"
  shows "ds_wf (st\<lparr>ds_counters := do_call c call (ds_counters st)\<rparr>) \<and>
     accounted (st\<lparr>ds_counters := do_call c call (ds_counters st)\<rparr>) \<and>
     mode_ok (st\<lparr>ds_counters := do_call c call (ds_counters st)\<rparr>)"
proof -
  have cs: "cs_wf (do_call c call (ds_counters st))" using assms(1) by (simp add: ds_wf_def do_call_wf)
  have "counter_of (snap st) c' r m \<le> counter_of (cs_by_rule (do_call c call (ds_counters st))) c' r m" for c' r m
    using do_call_mono [of "ds_counters st" c' r c call] by (simp add: triple_le_def get_rule_def counter_of_def snapshot_rules_def)
  then have "accounted (st\<lparr>ds_counters := do_call c call (ds_counters st)\<rparr>)" by (rule accounted_counters [OF assms(2) cs])
  then show ?thesis using cs assms(1,3) by (simp add: ds_wf_def state_rules_def mode_ok_def)
qed

lemma try_reload_inv:
  assumes "try_reload io y api d st = (st', d')" "ds_wf st" "accounted st" "mode_ok st"
  shows "ds_wf st' \<and> accounted st' \<and> mode_ok st'"
proof (cases "live_load io y api d")
  case (Pair r d1)
  show ?thesis
  proof (cases r)
    case (Inl e)
    with Pair assms show ?thesis by (simp add: try_reload_def)
  next
    case (Inr live)
    with Pair have "rs_wf (lc_rules live)" using live_load_rules [of io y api d live d1] by simp
    with Pair Inr assms show ?thesis
      by (auto simp: try_reload_def swap_live_def ds_wf_def state_rules_def accounted_def mode_ok_def)
  qed
qed

lemma round_inv:
  assumes "decision_round env now order later now_sys dm = Some dm'" "distinct order"
    and "set order = tick_clients (dm_state dm)" "daemon_inv dm"
  shows "daemon_inv dm'"
proof -
  obtain st where st: "tick now order (dm_state dm) = Some st"
    and dm': "dm_state dm' = st" "dm_flows dm' = dm_flows dm"
    using assms(1) by (auto simp: decision_round_def Let_def)
  show ?thesis
    using tick_inv [OF st] accounted_tick [OF _ st assms(2,3)] assms(4) by (simp add: daemon_inv_def dm')
qed

lemma does_inv:
  assumes "daemon_does h ev dm dm'" "daemon_inv dm"
  shows "daemon_inv dm'"
  using assms
proof (induction rule: daemon_does.induct)
  case (Recv dm utc now frame calls fl ws)
  then show ?case using frame_calls_keeps [OF Recv(2)] by (simp add: daemon_inv_def)
next
  case (Count dm c call rest)
  then show ?case using call_inv [of "dm_state dm" c call] by (simp add: daemon_inv_def)
next
  case (Round order dm now later now_sys dm')
  then show ?case by (blast intro: round_inv)
next
  case (Edit dm dir)
  then show ?case by (simp add: daemon_inv_def)
next
  case (Reload io dm st dir)
  then show ?case using try_reload_inv [OF Reload(1)] by (simp add: daemon_inv_def)
next
  case (Request v now now_sys body dm resp st store)
  then show ?case using execute_state [OF Request(1)] set_manual_inv
    by (auto simp: daemon_inv_def manual_only_def)
qed

lemma step_inv: "daemon_step h dm dm' \<Longrightarrow> daemon_inv dm \<Longrightarrow> daemon_inv dm'"
  by (auto simp: daemon_step_def intro: does_inv)

lemma hydrate_state:
  assumes "hydrate now now_sys loaded st = Some (Inr st')" "ds_wf st"
  shows "ds_wf st' \<and> (\<exists>m. st' = st\<lparr>ds_policies := m\<rparr>)"
proof -
  have loop: "hydrate_loop now now_sys ps m = Some m' \<Longrightarrow> hm_wf m \<Longrightarrow> hm_wf m'" for ps m m'
    by (induction now now_sys ps m rule: hydrate_loop.induct) (auto split: option.splits)
  show ?thesis
    using assms loop by (auto simp: hydrate_def ds_wf_def state_rules_def split: sum.splits)
qed

lemma open_store_state:
  assumes "open_store h url now now_sys st = Some (Inr (st', store))" "ds_wf st"
  shows "ds_wf st' \<and> (\<exists>m. st' = st\<lparr>ds_policies := m\<rparr>)"
proof (cases "open_redis h url")
  case (Inl e)
  then have "st' = st" using assms(1) by (simp add: open_store_def)
  then have "st' = st\<lparr>ds_policies := ds_policies st\<rparr>" by simp
  with assms(2) \<open>st' = st\<close> show ?thesis by blast
next
  case (Inr r)
  with assms(1) have "hydrate now now_sys (redis_load_policies (se_redis (hs_store h)) (se_json (hs_store h)) r) st
      = Some (Inr st')"
    by (auto simp: open_store_def split: option.splits sum.splits)
  with hydrate_state assms(2) show ?thesis by blast
qed

text \<open>A started daemon, read off \<open>daemon_run\<close>.\<close>

lemma daemon_run_started:
  assumes "daemon_run h c now now_sys = Some (Inr dm)"
  obtains live d st mode iface url where
    "live_load (hs_io h) (hs_yaml h) (hs_cel h)
       (hs_dirs h (resolve_config_dir (hs_env h) (da_config_dir (effective_args c)))) = (Inr live, d)"
    "mode = (case da_mode (effective_args c) of Some m \<Rightarrow> m | None \<Rightarrow> dc_mode (lc_daemon live))"
    "iface = (case or_else (da_interface (effective_args c)) (dc_interface (lc_daemon live)) of
       Some i \<Rightarrow> i | None \<Rightarrow> ''any'')"
    "ensure_exists (hs_index_of h) iface = Inr ()"
    "url = (case da_redis_url (effective_args c) of Some u \<Rightarrow> u | None \<Rightarrow> ''redis://127.0.0.1:6379/0'')"
    "open_store h url now now_sys (daemon_state_new mode iface live) = Some (Inr (st, dm_store dm))"
    "dm_state dm = set_enforcer (choose_enforcer h mode iface) st" "dm_flows dm = flow_table_new"
    "sr_accept (dm_server dm) = sr_accept (serve_listener (hs_max_frame h) [] (allow_users (dm_state dm)))"
proof -
  let ?dir = "hs_dirs h (resolve_config_dir (hs_env h) (da_config_dir (effective_args c)))"
  obtain r d where load: "live_load (hs_io h) (hs_yaml h) (hs_cel h) ?dir = (r, d)" by fastforce
  then obtain live where r: "r = Inr live" using assms by (cases r) (simp_all add: daemon_run_def Let_def)
  define mode where "mode = (case da_mode (effective_args c) of Some m \<Rightarrow> m | None \<Rightarrow> dc_mode (lc_daemon live))"
  define iface where "iface = (case or_else (da_interface (effective_args c)) (dc_interface (lc_daemon live)) of
    Some i \<Rightarrow> i | None \<Rightarrow> ''any'')"
  define url where "url = (case da_redis_url (effective_args c) of Some u \<Rightarrow> u | None \<Rightarrow> ''redis://127.0.0.1:6379/0'')"
  note run = assms [unfolded daemon_run_def Let_def load r prod.case sum.case,
    folded mode_def iface_def url_def]
  have ens: "ensure_exists (hs_index_of h) iface = Inr ()"
    using run by (cases "ensure_exists (hs_index_of h) iface") simp_all
  moreover obtain st store where "open_store h url now now_sys (daemon_state_new mode iface live) = Some (Inr (st, store))"
    "dm = \<lparr>dm_state = set_enforcer (choose_enforcer h mode iface) st, dm_store = store,
      dm_flows = flow_table_new, dm_ws = [], dm_pending = [], dm_dir = d, dm_last_snapshot = now,
      dm_server = serve_listener (hs_max_frame h) (resolve_socket (hs_env h) (hs_default_socket h) (cli_socket c))
        (allow_users st)\<rparr>"
    using run by (auto simp: ens split: sum.splits option.splits)
  ultimately show thesis by (intro that [OF load [unfolded r] mode_def iface_def _ url_def])
    (simp_all add: serve_listener_def set_enforcer_def allow_users_def daemon_cfg_def)
qed

lemma start_inv:
  assumes "daemon_run h c now now_sys = Some (Inr dm)"
  shows "daemon_inv dm"
  using assms
proof (rule daemon_run_started)
  fix live d st mode iface url
  assume load: "live_load (hs_io h) (hs_yaml h) (hs_cel h)
       (hs_dirs h (resolve_config_dir (hs_env h) (da_config_dir (effective_args c)))) = (Inr live, d)"
    and store: "open_store h url now now_sys (daemon_state_new mode iface live) = Some (Inr (st, dm_store dm))"
    and dm: "dm_state dm = set_enforcer (choose_enforcer h mode iface) st" "dm_flows dm = flow_table_new"
  have new: "ds_wf (daemon_state_new mode iface live)" by (rule ds_wf_new [OF live_load_rules [OF load]])
  obtain m where st: "ds_wf st" "st = (daemon_state_new mode iface live)\<lparr>ds_policies := m\<rparr>"
    using open_store_state [OF store new] by blast
  have "accounted st" unfolding st(2) by (rule accounted_policies [OF accounted_new])
  moreover have "mode_ok (set_enforcer (choose_enforcer h mode iface) st)"
    by (cases mode) (auto simp: mode_ok_def set_enforcer_def choose_enforcer_def st(2) daemon_state_new_def split: sum.splits)
  ultimately show ?thesis
    using st(1) ft_wf_new
    by (simp add: daemon_inv_def dm set_enforcer_def ds_wf_def accounted_def state_rules_def flow_table_new_def)
qed

lemma reach_inv: "daemon_reach h dm \<Longrightarrow> daemon_inv dm"
  by (induction rule: daemon_reach.induct) (simp_all add: start_inv step_inv)

section \<open>Automatic policies are in range\<close>

definition auto_typed :: "auto_policy \<Rightarrow> bool" where
  "auto_typed a \<longleftrightarrow> ap_drop_rate a \<le> 100 \<and> (ap_blocked a \<longrightarrow> ap_drop_rate a = 100)"

definition autos_typed :: "policy_map \<Rightarrow> bool" where
  "autos_typed m \<longleftrightarrow> (\<forall>c. pred_option auto_typed (cp_auto (hm_get_or m c client_policy_default)))"

lemma policy_of_typed: "(\<And>d. v_action v = ActThrottle d \<Longrightarrow> d \<le> 100) \<Longrightarrow> auto_typed (policy_of v u)"
  by (cases "v_action v") (simp_all add: auto_typed_def policy_of_def)

lemma decision_typed:
  assumes "client_decision now st c = Some p" "rs_wf (state_rules st)" "autos_typed (ds_policies st)"
  shows "pred_option auto_typed (cp_auto p)"
proof (cases "client_violations now st c = []")
  case True
  have "pred_option auto_typed (cp_auto (hm_get_or (ds_policies st) c client_policy_default))"
    using assms(3) by (simp add: autos_typed_def)
  then show ?thesis
    using client_decision_policies(2) [OF assms(1) True] by (auto simp: filter_opt_def split: option.splits)
next
  case False
  then obtain v where v: "v \<in> set (client_violations now st c)" "cp_auto p = Some (policy_of v (now + tick_cooldown st))"
    using client_decision_strongest [OF assms(1)] by blast
  have "auto_typed (policy_of v (now + tick_cooldown st))"
    using evaluate_valid_action [OF assms(2)] v(1) by (intro policy_of_typed) (simp add: client_violations_def)
  then show ?thesis by (simp add: v(2))
qed

lemma tick_typed:
  assumes "tick now order st = Some st'" "distinct order" "set order = tick_clients st" "rs_wf (state_rules st)"
    and "autos_typed (ds_policies st)"
  shows "autos_typed (ds_policies st')"
  unfolding autos_typed_def
proof
  note T = tick_correct_lemma [OF assms(1-3)]
  fix c
  show "pred_option auto_typed (cp_auto (hm_get_or (ds_policies st') c client_policy_default))"
  proof (cases "c \<in> tick_clients st")
    case True
    then show ?thesis using T(3) [OF True] decision_typed [OF _ assms(4,5)] by (auto simp: decided_def hm_get_or_def)
  next
    case False
    then have "hm_get (ds_policies st') c = hm_get (ds_policies st) c" using T(2) by (simp add: agree_off_def)
    then show ?thesis using assms(5) by (simp add: autos_typed_def hm_get_or_def)
  qed
qed

lemma set_manual_typed: "autos_typed (ds_policies st) \<Longrightarrow> autos_typed (ds_policies (set_manual c m st))"
  by (auto simp: autos_typed_def set_manual_def hm_get_or_def hm_simps split: option.splits)

lemma hydrate_typed:
  "hydrate_loop now now_sys xs m = Some m' \<Longrightarrow> autos_typed m \<Longrightarrow> autos_typed m'"
proof (induction now now_sys xs m rule: hydrate_loop.induct)
  case (2 now now_sys c stored rest m)
  then obtain p where p: "to_runtime stored now now_sys = Some p"
    "hydrate_loop now now_sys rest (hm_insert c \<lparr>cp_manual = Some p, cp_auto = None\<rparr> m) = Some m'"
    by (auto split: option.splits)
  have "autos_typed (hm_insert c \<lparr>cp_manual = Some p, cp_auto = None\<rparr> m)"
    using "2.prems"(2) by (auto simp: autos_typed_def hm_get_or_def hm_simps)
  then show ?case using "2.IH" p by blast
qed simp

lemma does_typed:
  assumes "daemon_does h ev dm dm'" "daemon_inv dm" "autos_typed (ds_policies (dm_state dm))"
  shows "autos_typed (ds_policies (dm_state dm'))"
  using assms
proof (induction rule: daemon_does.induct)
  case (Recv dm utc now frame calls fl ws)
  then show ?case by simp
next
  case (Count dm c call rest)
  then show ?case by simp
next
  case (Round order dm now later now_sys dm')
  obtain st where "tick now order (dm_state dm) = Some st" "dm_state dm' = st"
    using Round(3) by (auto simp: decision_round_def Let_def)
  then show ?case using tick_typed [OF _ Round(1,2)] Round(4,5) by (simp add: daemon_inv_def ds_wf_def)
next
  case (Edit dm dir)
  then show ?case by simp
next
  case (Reload io dm st dir)
  then show ?case by (auto simp: try_reload_def swap_live_def split: prod.splits sum.splits)
next
  case (Request v now now_sys body dm resp st store)
  then show ?case using execute_state [OF Request(1)] set_manual_typed by (auto simp: manual_only_def)
qed

lemma start_typed:
  assumes "daemon_run h c now now_sys = Some (Inr dm)"
  shows "autos_typed (ds_policies (dm_state dm))"
  using assms
proof (rule daemon_run_started)
  fix live d st mode iface url
  assume store: "open_store h url now now_sys (daemon_state_new mode iface live) = Some (Inr (st, dm_store dm))"
    and dm: "dm_state dm = set_enforcer (choose_enforcer h mode iface) st"
  have "autos_typed []" by (simp add: autos_typed_def hm_get_or_def hm_simps client_policy_default_def)
  then have "autos_typed (ds_policies st)"
    using store hydrate_typed
    by (fastforce simp: open_store_def hydrate_def daemon_state_new_def split: sum.splits option.splits)
  then show ?thesis by (simp add: dm set_enforcer_def)
qed

lemma reach_typed: "daemon_reach h dm \<Longrightarrow> autos_typed (ds_policies (dm_state dm))"
  by (induction rule: daemon_reach.induct) (auto simp: daemon_step_def intro: start_typed does_typed reach_inv)

text \<open>The policy under which peers are accepted is that of the start: no step changes it.\<close>

lemma step_server: "daemon_step h dm dm' \<Longrightarrow> dm_server dm' = dm_server dm"
  unfolding daemon_step_def
proof (elim exE)
  fix ev
  assume "daemon_does h ev dm dm'"
  then show "dm_server dm' = dm_server dm" by (induction rule: daemon_does.induct) (auto simp: decision_round_def Let_def)
qed

lemma start_server:
  assumes "daemon_run h c now now_sys = Some (Inr dm)"
  shows "sr_accept (dm_server dm) =
     \<lparr>ac_auth = PeerUser (allow_users (dm_state dm)) True False, ac_session = Persistent, ac_max_clients = None,
      ac_max_frame = hs_max_frame h\<rparr>"
  using assms by (rule daemon_run_started) (simp add: serve_listener_def)

section \<open>A window holds no more than was counted\<close>

abbreviation logged :: "metric \<Rightarrow> log_entry list \<Rightarrow> u64" where
  "logged m l \<equiv> sat_sum (map (\<lambda>(a, t, m', d). d) (filter (\<lambda>(a, t, m', d). m' = m) l))"

fun added :: "metric \<Rightarrow> win_op \<Rightarrow> u64" where
  "added m (WAdd m' d t) = (if m' = m then d else 0)"
| "added m (WAdvance t) = 0"

lemma log_step_total: "logged m (snd (log_step s op)) = sat_add (added m op) (logged m (snd s))"
proof -
  have age: "map (\<lambda>(a, t, m', d). d) (filter (\<lambda>(a, t, m', d). m' = m) (log_age k l)) =
      map (\<lambda>(a, t, m', d). d) (filter (\<lambda>(a, t, m', d). m' = m) l)" for k and l :: "log_entry list"
    by (induction l) (auto simp: log_age_def)
  show ?thesis by (cases op) (auto simp: log_advance_def Let_def age)
qed

lemma log_run_total: "logged m (snd (log_run s ops)) = sat_add (logged m (snd s)) (sat_sum (map (added m) ops))"
  unfolding log_run_def by (induction ops arbitrary: s) (simp_all add: log_step_total sat_add_ac)

lemma rule_ops_total: "sat_sum (map (added m) (rule_ops r ops)) = rule_total r m ops"
proof (induction ops rule: rev_induct)
  case (snoc op ops)
  have step: "rule_ops r (ops @ [op]) = rule_op_step r (rule_ops r ops) op" by (simp add: rule_ops_def)
  have total: "rule_total r m (ops @ [op]) = sat_add (rule_total r m ops) (op_value r m op)"
    by (simp add: rule_total_append) (simp add: rule_total_def)
  show ?case unfolding step total snoc.IH [symmetric]
    by (cases op) (auto simp: rule_op_step_def sat_sum_append)
qed (simp add: rule_ops_def rule_total_def)

lemma rule_log_total: "logged m (rule_log r ops) = rule_total r m ops"
  by (cases "rule_ops r ops")
    (simp_all add: rule_log_def log_run_total rule_ops_total [symmetric])

lemma rw_sum_le_total: "rw_sum (rw_run ops) r m secs \<le> rule_total r m ops"
  unfolding rw_run_sum rule_log_total [symmetric] log_sum_def by (rule sat_sum_filter_mono) auto

lemma violation_counted:
  assumes "accounted st" "v \<in> set (client_violations now st c)"
  shows "\<exists>rule \<in> set (rs_rules (state_rules st)). v_rule_id v = r_id rule \<and> v_action v = r_action rule \<and>
     r_limit rule < v_value v \<and> v_value v \<le> counter_of (snap st) c (r_id rule) (r_metric rule)"
proof -
  obtain ops where ops: "client_windows now st c = rw_run ops"
    "\<And>r m. rule_total r m ops = counter_of (snap st) c r m"
    using client_windows_total [OF assms(1)] by blast
  have le: "rw_sum (client_windows now st c) r m secs \<le> counter_of (snap st) c r m" for r m secs
    using rw_sum_le_total [of ops r m secs] by (simp add: ops)
  show ?thesis
    using assms(2) le by (auto simp: client_violations_def evaluate_def Let_def map_filter_if)
qed

end
