(* ===== verification/Cli_Client.thy ===== *)
theory Cli_Client
  imports Top_View Daemon_Run
begin

text \<open>
  The command line as a client: \<open>crates/microwaf/src/cli/mod.rs\<close> (the commands), \<open>cli/client.rs\<close> (what
  each one asks of the daemon and prints) and \<open>main.rs\<close> (daemon or client, and the exit code).
  Reading the arguments is the work of a library; a command line is its parsed form here.
\<close>

section \<open>Commands\<close>

datatype command =
    CmdDaemon daemon_args
  | CmdInfo (cmd_json: bool) (cmd_timeout: duration)
  | CmdTop top_params duration bool (cmd_json: bool) (cmd_timeout: duration)
  | CmdClients (cmd_json: bool) (cmd_timeout: duration)
  | CmdThrottle string "duration option" u8 (cmd_json: bool) (cmd_timeout: duration)
  | CmdUnthrottle string (cmd_json: bool) (cmd_timeout: duration)
  | CmdBlock string "duration option" (cmd_json: bool) (cmd_timeout: duration)
  | CmdUnblock string (cmd_json: bool) (cmd_timeout: duration)
  | CmdRules (cmd_json: bool) (cmd_timeout: duration)

record cli_line =
  ln_command :: "command option"
  ln_socket :: "string option"
  ln_args :: daemon_args

text \<open>The command line as the daemon reads it.\<close>

definition line_cli :: "cli_line \<Rightarrow> cli" where
  "line_cli l = \<lparr>cli_args = ln_args l,
     cli_daemon = (case ln_command l of Some (CmdDaemon d) \<Rightarrow> Some d | _ \<Rightarrow> None), cli_socket = ln_socket l\<rparr>"

section \<open>Client references and debug texts\<close>

definition cli_parse_client :: "string \<Rightarrow> cli_error + client_ref" where
  "cli_parse_client s =
     (case parse_client s of
        Inl e \<Rightarrow> Inl (CliParse (show_parse_error e))
      | Inr c \<Rightarrow> Inr \<lparr>cf_mac = mac_string c, cf_ip = Some (show_ip (cl_ip c))\<rparr>)"

fun debug_action :: "action_wire \<Rightarrow> string" where
  "debug_action (WThrottle r) = ''Throttle { drop_rate: '' @ fmt_dec (unat r) @ '' }''"
| "debug_action WBlock = ''Block''"
| "debug_action WNone = ''None''"

definition debug_option :: "action_wire option \<Rightarrow> string" where
  "debug_option a = (case a of None \<Rightarrow> ''None'' | Some x \<Rightarrow> ''Some('' @ debug_action x @ '')'')"

text \<open>\<open>Duration::as_secs\<close> of an optional duration.\<close>

definition whole_secs :: "duration option \<Rightarrow> u64 option" where
  "whole_secs d = map_option (\<lambda>d. of_nat (dur_as_secs d)) d"

section \<open>The client runner\<close>

text \<open>What a run of a client command leaves: its result, the terminal, and the other end.\<close>

type_synonym 'w cli_outcome = "((cli_error + unit) \<times> (tty \<times> string) \<times> 'w) option"

definition print_out :: "tty \<times> string \<Rightarrow> string \<Rightarrow> tty \<times> string" where
  "print_out scr s = (fst scr, snd scr @ s @ nl)"

definition show_result :: "tty \<times> string \<Rightarrow> ('a \<Rightarrow> tty \<times> string) \<Rightarrow> (client_error + 'a) \<times> 'w \<Rightarrow> 'w cli_outcome" where
  "show_result scr show r =
     (case r of
        (Inl e, w) \<Rightarrow> Some (Inl (CliClient e), scr, w)
      | (Inr x, w) \<Rightarrow> Some (Inr (), show x, w))"

definition ok_text :: "bool \<Rightarrow> string \<Rightarrow> string \<Rightarrow> string" where
  "ok_text json verb cref = (if json then ''{\"ok\":true}'' else verb @ '' '' @ cref)"

definition info_text :: "info_result \<Rightarrow> string" where
  "info_text r = ''microwaf '' @ in_version r @ '' commit='' @ in_commit r @ '' mode='' @ in_mode r @
     '' interface='' @ in_interface r"

definition cli_format_client :: "client_ref \<Rightarrow> string" where
  "cli_format_client c = (case cf_ip c of Some ip \<Rightarrow> cf_mac c @ ''@'' @ ip | None \<Rightarrow> cf_mac c)"

definition client_text :: "client_entry \<Rightarrow> string" where
  "client_text c = cli_format_client (ce_client c) @ '' action='' @ debug_option (ce_action c) @ '' wouldBe='' @
     debug_option (ce_would_be_action c)"

definition rule_text :: "rule_wire \<Rightarrow> string" where
  "rule_text r = ru_id r @ '' proto='' @ ru_protocol r @ '' metric='' @ ru_metric r @ '' window='' @ ru_window r @
     '' limit='' @ fmt_dec (unat (ru_limit r)) @ '' action='' @ debug_action (ru_action r)"

text \<open>
  \<open>client::run\<close>: \<open>dial\<close> gives the channel to a socket with a timeout, \<open>sock\<close> is the resolved path. As in
  the source, a reference that does not parse stops a command before anything is sent.
\<close>

definition client_run ::
  "cli_lib \<Rightarrow> live_env \<Rightarrow> bool \<Rightarrow> (string \<Rightarrow> duration \<Rightarrow> 'w channel) \<Rightarrow> string \<Rightarrow> command option \<Rightarrow> tty \<times> string \<Rightarrow> 'w \<Rightarrow>
   'w cli_outcome" where
  "client_run lib env is_tty dial sock cmd scr w =
     (let with_ref = (\<lambda>cref go. case cli_parse_client cref of Inl e \<Rightarrow> Some (Inl e, scr, w) | Inr r \<Rightarrow> go r);
          client = with_socket sock;
          open_client = (\<lambda>timeout. connect dial (client\<lparr>mc_timeout := timeout\<rparr>))
      in case cmd of
        Some (CmdInfo json timeout) \<Rightarrow>
          show_result scr (\<lambda>r. print_out scr (if json then lb_pretty lib (enc_info r) else info_text r))
            (client_info (open_client timeout) w)
      | Some (CmdTop params interval once json timeout) \<Rightarrow>
          top_run lib env is_tty (open_client timeout) params interval once json scr w
      | Some (CmdClients json timeout) \<Rightarrow>
          show_result scr (\<lambda>r. if json then print_out scr (lb_pretty lib (enc_clients r))
              else fold (\<lambda>c t. print_out t (client_text c)) (cl_clients r) scr)
            (client_list_clients (open_client timeout) w)
      | Some (CmdThrottle cref duration rate json timeout) \<Rightarrow>
          with_ref cref (\<lambda>r. show_result scr (\<lambda>_. print_out scr (ok_text json ''throttled'' cref))
            (client_throttle (open_client timeout)
               \<lparr>th_client = r, th_rate = Some rate, th_duration_secs = whole_secs duration\<rparr> w))
      | Some (CmdUnthrottle cref json timeout) \<Rightarrow>
          with_ref cref (\<lambda>r. show_result scr (\<lambda>_. print_out scr (ok_text json ''unthrottled'' cref))
            (client_unthrottle (open_client timeout) r w))
      | Some (CmdBlock cref duration json timeout) \<Rightarrow>
          with_ref cref (\<lambda>r. show_result scr (\<lambda>_. print_out scr (ok_text json ''blocked'' cref))
            (client_block (open_client timeout) \<lparr>bp_client = r, bp_duration_secs = whole_secs duration\<rparr> w))
      | Some (CmdUnblock cref json timeout) \<Rightarrow>
          with_ref cref (\<lambda>r. show_result scr (\<lambda>_. print_out scr (ok_text json ''unblocked'' cref))
            (client_unblock (open_client timeout) r w))
      | Some (CmdRules json timeout) \<Rightarrow>
          show_result scr (\<lambda>r. if json then print_out scr (lb_pretty lib (enc_rules r))
              else fold (\<lambda>x t. print_out t (rule_text x)) r scr)
            (client_list_rules (open_client timeout) w)
      | Some (CmdDaemon _) \<Rightarrow> Some (Inl (CliInternal ''internal: daemon command in client runner''), scr, w)
      | None \<Rightarrow> Some (Inl (CliInternal ''internal: daemon command in client runner''), scr, w))"

section \<open>The entry point\<close>

definition runs_daemon :: "cli_line \<Rightarrow> bool" where
  "runs_daemon l = (case ln_command l of None \<Rightarrow> True | Some (CmdDaemon _) \<Rightarrow> True | Some _ \<Rightarrow> False)"

datatype exit_code = ExitSuccess | ExitFailure

definition exit_of :: "'e + 'a \<Rightarrow> exit_code" where
  "exit_of r = (case r of Inr _ \<Rightarrow> ExitSuccess | Inl _ \<Rightarrow> ExitFailure)"

text \<open>\<open>Client::new\<close>, and the filter of \<open>init_tracing\<close>: that of the environment when it reads well.\<close>

definition mw_client_new :: "(string \<Rightarrow> string option) \<Rightarrow> string \<Rightarrow> mw_client" where
  "mw_client_new environ default_socket =
     \<lparr>mc_socket = resolve_socket environ default_socket None, mc_timeout = DEFAULT_TIMEOUT\<rparr>"

definition init_tracing :: "string option \<Rightarrow> bool \<Rightarrow> string" where
  "init_tracing from_env verbose =
     (case from_env of Some f \<Rightarrow> f | None \<Rightarrow> if verbose then ''debug'' else ''info'')"

text \<open>\<open>main\<close> for a client command; \<open>None\<close> is a live view that is still running.\<close>

definition main_client ::
  "cli_lib \<Rightarrow> live_env \<Rightarrow> bool \<Rightarrow> (string \<Rightarrow> duration \<Rightarrow> 'w channel) \<Rightarrow> (string \<Rightarrow> string option) \<Rightarrow> string \<Rightarrow> cli_line \<Rightarrow>
   tty \<times> string \<Rightarrow> 'w \<Rightarrow> (exit_code \<times> (tty \<times> string) \<times> 'w) option" where
  "main_client lib env is_tty dial environ default_socket l scr w =
     map_option (\<lambda>(r, rest). (exit_of r, rest))
       (client_run lib env is_tty dial (resolve_socket environ default_socket (ln_socket l)) (ln_command l) scr w)"

section \<open>Commands against a running daemon\<close>

lemma cli_parse_client_ref: "parse_client s = Inr c \<Longrightarrow> cli_parse_client s = Inr (client_to_ref c)"
  by (simp add: cli_parse_client_def client_to_ref_def)

lemma exit_of_simps [simp]: "exit_of (Inl e) = ExitFailure" "exit_of (Inr x) = ExitSuccess"
  by (simp_all add: exit_of_def)

lemma print_out_simps [simp]: "fst (print_out t s) = fst t" "snd (print_out t s) = snd t @ s @ nl"
  by (simp_all add: print_out_def)

text \<open>The manual policy that a throttle command asks for.\<close>

definition asked_throttle :: "u8 \<Rightarrow> instant option \<Rightarrow> 'p daemon_state \<Rightarrow> client_id \<Rightarrow> manual_policy" where
  "asked_throttle rate until st c = \<lparr>mp_throttle = Some rate, mp_blocked = mp_blocked (old_manual st c), mp_until = until\<rparr>"

lemma throttle_asked:
  assumes "until_of now d = Some until"
  shows "throttle_cmd env now now_sys \<lparr>th_client = client_to_ref c, th_rate = Some rate, th_duration_secs = d\<rparr> st s =
     Some (finish env now_sys c (Some (from_runtime (asked_throttle rate until st c) now now_sys))
       (set_manual c (Some (asked_throttle rate until st c)) st) s)"
proof -
  have "(old_manual st c)\<lparr>mp_throttle := Some rate, mp_until := until\<rparr> = asked_throttle rate until st c"
    by (cases "old_manual st c") (simp add: asked_throttle_def)
  then show ?thesis using assms by (simp add: throttle_cmd_def parse_client_to_ref Let_def)
qed

text \<open>
  C23: \<open>microwaf throttle\<close> with a client reference that parses, against a running daemon: the
  daemon gives exactly that client the rate asked for, until as many whole seconds as the
  duration has have passed, keeps a block, and stores the same policy. The command succeeds and
  says so exactly when the store took it; otherwise it fails, though the throttle is in force.
\<close>

theorem cli_throttle_end_to_end:
  assumes "routes_by_type rlib" "frames_agree rlib" "\<And>sock timeout. dial sock timeout = daemon_channel rlib v env now now_sys"
    and "parse_client cref = Inr c" "until_of now (whole_secs d) = Some until"
    and "request_fits rlib (request_with_params KThrottle
      (PThrottle \<lparr>th_client = client_to_ref c, th_rate = Some rate, th_duration_secs = whole_secs d\<rparr>))"
    and "reply_fits rlib (response_ok KThrottle REmpty)"
    and "ln_command l = Some (CmdThrottle cref d rate False timeout)"
    and "m = asked_throttle rate until st c" "store = persist_manual env now_sys c (Some (from_runtime m now now_sys)) s"
  shows "main_client lib lenv is_tty dial environ sock l (t, out) (st, s) =
     Some (case fst store of
             Inr _ \<Rightarrow> (ExitSuccess, (t, out @ ''throttled '' @ cref @ nl), (set_manual c (Some m) st, snd store))
           | Inl e \<Rightarrow> (ExitFailure, (t, out), (set_manual c (Some m) st, snd store)))"
proof -
  let ?p = "\<lparr>th_client = client_to_ref c, th_rate = Some rate, th_duration_secs = whole_secs d\<rparr>"
  let ?req = "request_with_params KThrottle (PThrottle ?p)" and ?w = "(set_manual c (Some m) st, snd store)"
  have call: "client_throttle (daemon_channel rlib v env now now_sys) ?p (st, s) =
     (case fst store of
        Inr _ \<Rightarrow> over_wire rlib ?req (response_ok KThrottle REmpty) (Inr ()) (st, s) ?w
      | Inl e \<Rightarrow> over_wire rlib ?req (response_err KThrottle (error_invalid (show_store_error e)))
          (Inl (CeServer ''invalid'' (show_store_error e))) (st, s) ?w)"
    unfolding assms(9,10)
    by (auto simp: client_calls round_trip_daemon [OF assms(1,2)] expect_over_wire replies throttle_asked [OF assms(5)] finish_def
        split: prod.splits sum.splits)
  have "\<exists>e'. over_wire rlib ?req resp (Inl e) (st, s) ?w = (Inl e', ?w)" for resp e
    using assms(6) by (auto simp: over_wire_def request_fits_def split: sum.splits)
  then have "\<exists>e'. client_throttle (daemon_channel rlib v env now now_sys) ?p (st, s) =
      (case fst store of Inr _ \<Rightarrow> Inr () | Inl _ \<Rightarrow> Inl e', ?w)"
    unfolding call by (cases "fst store") (simp_all add: over_wire_fits [OF assms(6,7)])
  then show ?thesis
    by (auto simp: main_client_def client_run_def assms(3,8) cli_parse_client_ref [OF assms(4)] show_result_def
        ok_text_def print_out_def split: sum.splits)
qed

text \<open>
  C24: \<open>microwaf block\<close>, \<open>unblock\<close> and \<open>unthrottle\<close> against a running daemon always exit with a failure,
  print nothing on standard output, and leave the daemon as it was, whatever client and duration they name.
\<close>

theorem cli_block_refused:
  assumes "routes_by_type rlib" "frames_agree rlib" "\<And>sock timeout. dial sock timeout = daemon_channel rlib v env now now_sys"
    and "cmd = CmdBlock cref d json timeout \<or> cmd = CmdUnblock cref json timeout \<or> cmd = CmdUnthrottle cref json timeout"
    and "ln_command l = Some cmd"
  shows "main_client lib lenv is_tty dial environ sock l scr w = Some (ExitFailure, scr, w)"
proof -
  have failed: "map_option (\<lambda>(r, rest). (exit_of r, rest)) (show_result scr g (over_wire rlib req resp (Inl e) w w)) =
      Some (ExitFailure, scr, w)" for g :: "unit \<Rightarrow> _" and req resp e
  proof -
    have "\<exists>e'. over_wire rlib req resp (Inl e :: client_error + unit) w w = (Inl e', w)" by (rule over_wire_fails)
    then show ?thesis by (cases scr; cases w) (auto simp: show_result_def)
  qed
  show ?thesis
    using assms(4)
    by (cases "cli_parse_client cref"; elim disjE)
      (simp_all add: main_client_def client_run_def assms(3,5) client_block_refused [OF assms(1,2) refl] failed
        del: map_option_eq_Some)
qed

definition quiet_term :: "tty \<times> string" where
  "quiet_term = (\<lparr>ty_echo = True, ty_icanon = True, ty_isig = True, ty_ixon = True, ty_icrnl = True, ty_inlcr = False\<rparr>, [])"

definition sample_lib :: cli_lib where
  "sample_lib = \<lparr>lb_duration = (\<lambda>_. ''1s''), lb_pretty = (\<lambda>_. []), lb_error = (\<lambda>_. [])\<rparr>"

definition sample_live :: live_env where
  "sample_live = \<lparr>le_getattr = True, le_setattr = True, le_screen = True, le_turns = []\<rparr>"

definition sample_line :: "command \<Rightarrow> cli_line" where
  "sample_line cmd = \<lparr>ln_command = Some cmd, ln_socket = Some ''/run/mw.sock'',
     ln_args = \<lparr>da_interface = None, da_redis_url = None, da_config_dir = None, da_mode = None\<rparr>\<rparr>"

abbreviation sample_main :: "command \<Rightarrow> (exit_code \<times> (tty \<times> string) \<times> (unit, sample_server) world) option" where
  "sample_main cmd \<equiv> main_client sample_lib sample_live False
     (\<lambda>_ _. sample_channel 1048576) (\<lambda>_. None) [] (sample_line cmd)
     quiet_term (quiet_state, StMemory memory_store_default)"

theorem cli_block_refused_witness:
  "sample_main (CmdBlock ''01:02:03:04:05:06'' None False 10) =
     Some (ExitFailure, quiet_term, (quiet_state, StMemory memory_store_default))"
  by (rule cli_block_refused [OF sample_ipc_ok refl, of "CmdBlock ''01:02:03:04:05:06'' None False 10"
      "''01:02:03:04:05:06''" None False 10]) (simp_all add: sample_line_def)

theorem cli_throttle_end_to_end_witness:
  "\<exists>m s'. sample_main (CmdThrottle (storage_key sample_client) (Some 1500000000) 50 False 10) =
     Some (ExitSuccess, (fst quiet_term, ''throttled '' @ storage_key sample_client @ nl),
       (set_manual sample_client (Some m) quiet_state, s')) \<and> mp_until m = Some 1000000007"
proof -
  have u: "until_of 7 (whole_secs (Some 1500000000)) = Some (Some 1000000007)"
    by (simp add: until_of_def whole_secs_def dur_as_secs_def dur_from_secs_def nanos_per_sec_def instant_add_def instant_limit_def)
  let ?m = "asked_throttle 50 (Some 1000000007) quiet_state sample_client"
  let ?st = "persist_manual sample_env 0 sample_client (Some (from_runtime ?m 7 0)) (StMemory memory_store_default)"
  have ln: "ln_command (sample_line cmd) = Some cmd" for cmd by (simp add: sample_line_def)
  have len: "length (mac_string sample_client) = 17" "length (show_ip (cl_ip sample_client)) = 8" by code_simp+
  have fits: "request_fits (sample_ipc 1048576) (request_with_params KThrottle
      (PThrottle \<lparr>th_client = client_to_ref sample_client, th_rate = Some 50, th_duration_secs = whole_secs (Some 1500000000)\<rparr>))"
    "reply_fits (sample_ipc 1048576) (response_ok KThrottle REmpty)"
    by (simp_all add: request_fits_def reply_fits_def sample_ipc_def request_with_params_def enc_request_def enc_throttle_params_def
        client_to_ref_def enc_client_ref_def skip_none_def enc_kind_def response_ok_def enc_response_def enc_uint_def len whole_secs_def)
  have ok: "fst ?st = Inr ()" by (simp add: persist_manual_def backend_result_def memory_put_def)
  have "sample_main (CmdThrottle (storage_key sample_client) (Some 1500000000) 50 False 10) =
     Some (case fst ?st of
        Inr _ \<Rightarrow> (ExitSuccess, (fst quiet_term, snd quiet_term @ ''throttled '' @ storage_key sample_client @ nl),
          (set_manual sample_client (Some ?m) quiet_state, snd ?st))
      | Inl e \<Rightarrow> (ExitFailure, (fst quiet_term, snd quiet_term), (set_manual sample_client (Some ?m) quiet_state, snd ?st)))"
    using cli_throttle_end_to_end [where l = "sample_line (CmdThrottle (storage_key sample_client) (Some 1500000000) 50 False 10)"
        and rate = 50 and timeout = 10 and lib = sample_lib and lenv = sample_live and is_tty = False and environ = "\<lambda>_. None"
        and sock = "[]" and t = "fst quiet_term" and out = "snd quiet_term" and st = quiet_state
        and s = "StMemory memory_store_default",
        OF sample_ipc_ok refl parse_client_key u fits ln refl refl]
    by (simp only: prod.collapse)
  moreover have "snd quiet_term = []" "mp_until ?m = Some 1000000007"
    by (simp_all add: quiet_term_def asked_throttle_def)
  ultimately show ?thesis unfolding ok by (intro exI [of _ ?m] exI [of _ "snd ?st"]) simp
qed

text \<open>
  A duration below one second is cut to zero: the daemon reports success, yet at no later
  instant is the client throttled by the policy it has just been given.
\<close>

lemma sub_second_throttle_expired:
  assumes "d < nanos_per_sec" "until_of now (whole_secs (Some d)) = Some until" "now \<le> t"
  shows "manual_expired (asked_throttle rate until st c) t"
proof -
  have "until = Some now"
    using assms(1,2) by (auto simp: until_of_def whole_secs_def dur_as_secs_def dur_from_secs_def instant_add_def split: if_splits)
  then show ?thesis using assms(3) by (simp add: asked_throttle_def manual_expired_def)
qed

text \<open>A reference without an address names the client with the unspecified address, no other.\<close>

lemma bare_mac_reference:
  "cli_parse_client (mac_string c) = Inr (client_to_ref (c\<lparr>cl_ip := V4 (Ipv4 0 0 0 0)\<rparr>))"
  by (rule cli_parse_client_ref) (simp add: parse_client_mac client_new_def)

end
