(* ===== verification/Daemon_Threads.thy ===== *)
theory Daemon_Threads
  imports Daemon_Run
begin

text \<open>
  The loops around the daemon's steps that wait for the outside: the configuration watcher with
  its SIGHUP bridge (\<open>watch_loop\<close> and \<open>setup_sighup\<close> of \<open>crates/microwaf/src/config.rs\<close>), and the
  sniffer's socket and receive loop (\<open>run\<close>, \<open>open_af_packet\<close> and \<open>sniff_loop\<close> of
  \<open>crates/microwaf/src/sniffer.rs\<close>). What the outside answers is a list of events.
\<close>

section \<open>The configuration watcher\<close>

datatype recv_result = RecvEvent | RecvTimeout | RecvDisconnected

text \<open>
  The watcher, once \<open>setup_sighup\<close> has installed the signal handler and started the bridge thread (when either
  fails, the code goes on and no signal reaches a flag): whether its loop still runs, the flag that the signal handler sets, \<open>SIGHUP_FLAG\<close>,
  the directory, the state, and how often it has tried to reload.
\<close>

record 'p watcher =
  wt_alive :: bool
  wt_signal :: bool
  wt_flag :: bool
  wt_dir :: config_dir
  wt_state :: "'p daemon_state"
  wt_reloads :: nat

datatype watch_event = Hup | BridgePoll | WatchTurn recv_result io_oracle | DirEdit config_dir

text \<open>One look of the bridge thread at the signal handler's flag.\<close>

definition bridge_poll :: "'p watcher \<Rightarrow> 'p watcher" where
  "bridge_poll w = (if wt_signal w then w\<lparr>wt_signal := False, wt_flag := True\<rparr> else w)"

text \<open>One turn of \<open>watch_loop\<close>; a disconnected channel ends the loop before the flag is looked at.\<close>

definition watch_turn :: "'y yaml_api \<Rightarrow> 'p cel_api \<Rightarrow> recv_result \<Rightarrow> io_oracle \<Rightarrow> 'p watcher \<Rightarrow> 'p watcher" where
  "watch_turn y api r io w =
     (if \<not> wt_alive w then w
      else if r = RecvDisconnected then w\<lparr>wt_alive := False\<rparr>
      else let got = (r = RecvEvent \<or> wt_flag w); w = w\<lparr>wt_flag := False\<rparr>
           in if got then
                (case try_reload io y api (wt_dir w) (wt_state w) of
                   (st, dir) \<Rightarrow> w\<lparr>wt_state := st, wt_dir := dir, wt_reloads := wt_reloads w + 1\<rparr>)
              else w)"

fun watch_step :: "'y yaml_api \<Rightarrow> 'p cel_api \<Rightarrow> watch_event \<Rightarrow> 'p watcher \<Rightarrow> 'p watcher" where
  "watch_step y api Hup w = w\<lparr>wt_signal := True\<rparr>"
| "watch_step y api BridgePoll w = bridge_poll w"
| "watch_step y api (WatchTurn r io) w = watch_turn y api r io w"
| "watch_step y api (DirEdit d) w = w\<lparr>wt_dir := d\<rparr>"

abbreviation watch_run :: "'y yaml_api \<Rightarrow> 'p cel_api \<Rightarrow> watch_event list \<Rightarrow> 'p watcher \<Rightarrow> 'p watcher" where
  "watch_run y api \<equiv> fold (watch_step y api)"

definition connected :: "watch_event \<Rightarrow> bool" where
  "connected e \<longleftrightarrow> (\<forall>io. e \<noteq> WatchTurn RecvDisconnected io)"

lemma watch_step_mono: "wt_reloads w \<le> wt_reloads (watch_step y api e w)"
  by (cases e) (auto simp: bridge_poll_def watch_turn_def Let_def split: prod.splits)

lemma watch_run_mono: "wt_reloads w \<le> wt_reloads (watch_run y api evs w)"
  by (induction evs arbitrary: w) (auto intro: le_trans [OF watch_step_mono])

lemma watch_step_alive: "connected e \<Longrightarrow> wt_alive (watch_step y api e w) = wt_alive w"
  by (cases e) (auto simp: connected_def bridge_poll_def watch_turn_def Let_def split: prod.splits)

lemma watch_run_alive: "list_all connected evs \<Longrightarrow> wt_alive (watch_run y api evs w) = wt_alive w"
  by (induction evs arbitrary: w) (simp_all add: watch_step_alive)

text \<open>A signal waits in one of the two flags until a reload has happened.\<close>

lemma watch_step_pending:
  assumes "connected e" "wt_alive w" "wt_flag w"
  shows "wt_flag (watch_step y api e w) \<or> wt_reloads w < wt_reloads (watch_step y api e w)"
  using assms by (cases e) (auto simp: connected_def bridge_poll_def watch_turn_def Let_def split: prod.splits)

lemma watch_run_pending:
  "list_all connected evs \<Longrightarrow> wt_alive w \<Longrightarrow> wt_flag w \<Longrightarrow>
     wt_flag (watch_run y api evs w) \<or> wt_reloads w < wt_reloads (watch_run y api evs w)"
proof (induction evs arbitrary: w)
  case (Cons e evs)
  let ?w = "watch_step y api e w"
  have e: "connected e" "list_all connected evs" "wt_alive ?w" using Cons.prems by (simp_all add: watch_step_alive)
  show ?case
  proof (cases "wt_flag ?w")
    case True
    then show ?thesis using Cons.IH [OF e(2,3)] watch_step_mono [of w y api e] by auto
  next
    case False
    then have "wt_reloads w < wt_reloads ?w" using watch_step_pending [OF e(1) Cons.prems(2,3)] by blast
    then show ?thesis using watch_run_mono [of ?w y api evs] by simp
  qed
qed simp

lemma watch_run_signal:
  "BridgePoll \<notin> set evs \<Longrightarrow> wt_signal w \<Longrightarrow> wt_signal (watch_run y api evs w)"
proof (induction evs arbitrary: w)
  case (Cons e evs)
  have "wt_signal (watch_step y api e w)"
    using Cons.prems by (cases e) (auto simp: watch_turn_def Let_def split: prod.splits)
  then show ?case using Cons by simp
qed simp

text \<open>
  C19: while the watcher's channel is connected, a SIGHUP is never lost: once the bridge thread
  has looked at its flag and the watcher has then finished a turn, the watcher has tried to
  reload at least once since the signal, whatever other signals, changes and turns came between.
\<close>

theorem sighup_reloads:
  assumes "wt_alive w" "list_all connected (before @ between @ [WatchTurn r io])" "BridgePoll \<notin> set before"
  shows "wt_reloads w < wt_reloads (watch_run y api (Hup # before @ BridgePoll # between @ [WatchTurn r io]) w)"
proof -
  let ?w1 = "watch_run y api (Hup # before) w"
  let ?w2 = "watch_step y api BridgePoll ?w1"
  let ?w3 = "watch_run y api between ?w2"
  have alive: "wt_alive ?w1" using assms(1,2) by (simp add: watch_run_alive)
  have "wt_signal ?w1" using assms(3) by (simp add: watch_run_signal)
  then have w2: "wt_alive ?w2" "wt_flag ?w2" "wt_reloads ?w2 = wt_reloads ?w1" using alive by (simp_all add: bridge_poll_def)
  have w3: "wt_alive ?w3" "wt_flag ?w3 \<or> wt_reloads ?w2 < wt_reloads ?w3"
    using assms(2) w2 watch_run_pending [of between ?w2] by (simp_all add: watch_run_alive)
  have "connected (WatchTurn r io)" using assms(2) by simp
  then have "wt_reloads ?w2 < wt_reloads (watch_step y api (WatchTurn r io) ?w3)"
    using w3 watch_step_mono [of ?w3 y api "WatchTurn r io"] watch_run_mono [of ?w2 y api between]
    by (cases "wt_flag ?w3") (auto simp: connected_def watch_turn_def Let_def split: prod.splits)
  moreover have "wt_reloads w \<le> wt_reloads ?w1" by (rule watch_run_mono)
  ultimately show ?thesis using w2(3) by simp
qed

definition idle_watcher :: "unit watcher" where
  "idle_watcher = \<lparr>wt_alive = True, wt_signal = False, wt_flag = False,
     wt_dir = \<lparr>cd_root = None, cd_rules = None\<rparr>,
     wt_state = daemon_state_new Permissive ''any''
       \<lparr>lc_daemon = daemon_config_default, lc_sets = sets_config_default, lc_rules = rule_set_default\<rparr>,
     wt_reloads = 0\<rparr>"

definition no_yaml :: "unit yaml_api" where
  "no_yaml =
     \<lparr>y_from_str = (\<lambda>_. Inl ''bad''), y_is_sequence = (\<lambda>_. False), y_is_mapping = (\<lambda>_. False),
      y_rule_list = (\<lambda>_. Inr []), y_rule = (\<lambda>_. Inl ''bad''),
      y_daemon = (\<lambda>_. Inr daemon_config_default), y_sets = (\<lambda>_. Inr sets_config_default)\<rparr>"

definition no_cel :: "unit cel_api" where
  "no_cel = \<lparr>cel_compile = (\<lambda>_. Inr ()), cel_execute = (\<lambda>_ _. Inl ''no CEL'')\<rparr>"

theorem sighup_reloads_witness:
  "0 < wt_reloads (watch_run no_yaml no_cel
     [Hup, WatchTurn RecvTimeout (\<lambda>_. None), BridgePoll, WatchTurn RecvTimeout (\<lambda>op. Some ''EACCES'')] idle_watcher)"
  using sighup_reloads [of idle_watcher "[WatchTurn RecvTimeout (\<lambda>_. None)]" "[]" RecvTimeout "\<lambda>op. Some ''EACCES''"
      no_yaml no_cel]
  by (simp add: connected_def) (simp add: idle_watcher_def)

text \<open>Once the channel is gone the loop has ended, and no later signal reloads anything.\<close>

lemma dead_watcher_ignores_sighup:
  "\<not> wt_alive w \<Longrightarrow> wt_reloads (watch_run y api evs w) = wt_reloads w \<and> wt_state (watch_run y api evs w) = wt_state w"
proof (induction evs arbitrary: w)
  case (Cons e evs)
  have "\<not> wt_alive (watch_step y api e w) \<and> wt_reloads (watch_step y api e w) = wt_reloads w \<and>
      wt_state (watch_step y api e w) = wt_state w"
    using Cons.prems by (cases e) (simp_all add: bridge_poll_def watch_turn_def)
  then show ?case using Cons.IH [of "watch_step y api e w"] by simp
qed simp

section \<open>The sniffer's socket\<close>

text \<open>What the system answers, and the descriptors that are open.\<close>

record af_packet =
  af_socket :: "string + nat"
  af_index_of :: "string \<Rightarrow> u32"
  af_bind :: "nat \<Rightarrow> u32 \<Rightarrow> string option"

datatype sniffer_error = SocketFailed string | SniffIface iface_error | BindAfPacket string | RecvFailed string

definition open_af_packet :: "af_packet \<Rightarrow> string \<Rightarrow> nat list \<Rightarrow> (sniffer_error + nat) \<times> nat list" where
  "open_af_packet sys interface fds =
     (case af_socket sys of
        Inl e \<Rightarrow> (Inl (SocketFailed e), fds)
      | Inr fd \<Rightarrow>
          let fds' = fd # fds in
          (case ifindex (af_index_of sys) interface of
             Inl e \<Rightarrow> (Inl (SniffIface e), remove1 fd fds')
           | Inr i \<Rightarrow>
               (case af_bind sys fd i of
                  Some e \<Rightarrow> (Inl (BindAfPacket e), remove1 fd fds')
                | None \<Rightarrow> (Inr fd, fds'))))"

lemma open_af_packet_no_leak:
  "open_af_packet sys interface fds = (r, fds') \<Longrightarrow>
     (case r of
        Inl _ \<Rightarrow> fds' = fds
      | Inr fd \<Rightarrow> fds' = fd # fds \<and> af_socket sys = Inr fd \<and>
          (\<exists>i. ifindex (af_index_of sys) interface = Inr i \<and> af_bind sys fd i = None))"
  by (auto simp: open_af_packet_def Let_def split: sum.splits option.splits)

text \<open>
  \<open>sniff_loop\<close> over what \<open>recv\<close> answers: a frame with the clocks at its arrival, an interrupted call, or
  an error. \<open>None\<close> is a panic; \<open>Inr\<close> is the loop that still waits, and \<open>Inl\<close> the error that ended it.
\<close>

datatype recv_frame = RecvFrame utc instant "u8 list" | RecvInterrupted | RecvError string

type_synonym 'p sniff_state = "'p daemon_state \<times> flow_table \<times> (ws_key, unit) hmap"

fun sniff_loop :: "'p cel_api \<Rightarrow> recv_frame list \<Rightarrow> 'p sniff_state \<Rightarrow> ((sniffer_error + unit) \<times> 'p sniff_state) option" where
  "sniff_loop api [] s = Some (Inr (), s)"
| "sniff_loop api (RecvFrame utc now frame # rs) s = Option.bind (sniff_frame api utc now frame s) (sniff_loop api rs)"
| "sniff_loop api (RecvInterrupted # rs) s = sniff_loop api rs s"
| "sniff_loop api (RecvError e # rs) s = Some (Inl (RecvFailed e), s)"

text \<open>\<open>run\<close>: without a socket the thread only sleeps.\<close>

definition sniffer_run ::
  "'p cel_api \<Rightarrow> af_packet \<Rightarrow> string \<Rightarrow> recv_frame list \<Rightarrow> nat list \<Rightarrow> 'p daemon_state \<Rightarrow>
   ((sniffer_error + unit) \<times> 'p daemon_state \<times> nat list) option" where
  "sniffer_run api sys interface rs fds st =
     (case open_af_packet sys interface fds of
        (Inl _, fds') \<Rightarrow> Some (Inr (), st, fds')
      | (Inr _, fds') \<Rightarrow> map_option (\<lambda>(r, (st', _)). (r, st', fds')) (sniff_loop api rs (st, flow_table_new, [])))"

lemma sniff_frame_total: "\<exists>s'. sniff_frame api utc now frame s = Some s'"
proof -
  obtain st flows ws where s: "s = (st, flows, ws)" by (metis prod_cases3)
  show ?thesis unfolding s sniff_frame_def using handle_frame_sniffed by fastforce
qed

text \<open>
  The loop handles the frames in the order they arrive, never panics, and ends only when \<open>recv\<close>
  fails for a reason other than an interruption.
\<close>

fun frames_until_error :: "recv_frame list \<Rightarrow> (utc \<times> instant \<times> u8 list) list" where
  "frames_until_error [] = []"
| "frames_until_error (RecvFrame utc now frame # rs) = (utc, now, frame) # frames_until_error rs"
| "frames_until_error (RecvInterrupted # rs) = frames_until_error rs"
| "frames_until_error (RecvError e # rs) = []"

lemma sniff_loop_total:
  "\<exists>r s'. sniff_loop api rs s = Some (r, s') \<and> (r = Inr () \<longleftrightarrow> (\<forall>e. RecvError e \<notin> set rs)) \<and>
     s' = fold (\<lambda>(utc, now, frame) s. the (sniff_frame api utc now frame s)) (frames_until_error rs) s"
proof (induction api rs s rule: sniff_loop.induct)
  case (2 api utc now frame rs s)
  obtain s1 where s1: "sniff_frame api utc now frame s = Some s1" using sniff_frame_total by blast
  then show ?case using 2 [OF s1] by auto
qed auto

end
