(* ===== verification/Traffic_Accounting.thy ===== *)
theory Traffic_Accounting
  imports Packet_Sniffer
begin

text \<open>
  What the sniffer counts for a frame, exactly. A frame carries events: the segment itself, and the
  request, WebSocket frame, WiThrottle lines or Z21 records a detector finds in it. A rule adds up the
  events of its protocol that its expression accepts, and a connection rule the flows the table does
  not know. Every counter moves by that amount and by nothing else.
\<close>

section \<open>The events of a frame\<close>

type_synonym event = "protocol \<times> u64 \<times> match_context"

definition tcp_l7_events :: "'p sniff_env \<Rightarrow> client_id \<Rightarrow> bool \<Rightarrow> u16 \<Rightarrow> u8 list \<Rightarrow> event list" where
  "tcp_l7_events env c marked port payload =
     (if marked then
        (case detect_ws_frame payload of
           Some (Some h) \<Rightarrow> [(WebSocket, of_nat (length payload), ws_ctx env c port h)]
         | _ \<Rightarrow> [])
      else
        (case detect_http_request payload of
           Some (Some h) \<Rightarrow>
             if ht_upgrade_ws h then [] else [(Http, of_nat (length payload), http_ctx env c port h)]
         | _ \<Rightarrow>
             map (\<lambda>l. (Withrottle, of_nat (length (wl_command l)), withrottle_ctx env c port l))
               (case detect_withrottle_lines payload of Some ls \<Rightarrow> ls | None \<Rightarrow> [])))"

definition udp_l7_events :: "'p sniff_env \<Rightarrow> client_id \<Rightarrow> u16 \<Rightarrow> u8 list \<Rightarrow> event list" where
  "udp_l7_events env c port payload =
     map (\<lambda>r. (Z21, ucast (zr_data_len r), z21_ctx env c port r))
       (case detect_z21_records payload of Some recs \<Rightarrow> recs | None \<Rightarrow> [])"

text \<open>What an event adds to the counter of a rule in the rule's metric.\<close>

definition event_amount :: "'p sniff_env \<Rightarrow> 'p rule \<Rightarrow> event \<Rightarrow> u64" where
  "event_amount env rule e =
     (case e of (p, n, ctx) \<Rightarrow>
        if p = r_protocol rule \<and> match_ok env rule ctx
        then (case r_metric rule of Requests \<Rightarrow> 1 | Bytes \<Rightarrow> n | Connections \<Rightarrow> 0)
        else 0)"

text \<open>The one rule of a port and transport protocol that gets to see new flows, if its expression accepts them.\<close>

definition flow_rule :: "'p sniff_env \<Rightarrow> protocol \<Rightarrow> u16 \<Rightarrow> 'p rule option" where
  "flow_rule env p port = List.find (\<lambda>r. r_metric r = Connections) (matching (sv_rules env) p port)"

definition flow_amount :: "'p sniff_env \<Rightarrow> flow_table \<Rightarrow> client_id \<Rightarrow> flow_key \<Rightarrow> protocol \<Rightarrow> bool \<Rightarrow> 'p rule \<Rightarrow> u64" where
  "flow_amount env flows c key p opens rule =
     (if opens \<and> \<not> ft_live flows (sv_now env) key \<and> flow_rule env p (fk_dport key) = Some rule \<and>
         match_ok env rule (common_ctx env c (fk_dport key))
      then 1 else 0)"

text \<open>What a segment on a flow with a payload of \<open>len\<close> bytes and the events \<open>es\<close> in it adds under a rule.\<close>

definition rule_amount ::
  "'p sniff_env \<Rightarrow> flow_table \<Rightarrow> client_id \<Rightarrow> flow_key \<Rightarrow> protocol \<Rightarrow> bool \<Rightarrow> u64 \<Rightarrow> event list \<Rightarrow> 'p rule \<Rightarrow> u64" where
  "rule_amount env flows c key p opens len es rule =
     (if \<not> matches_port rule (fk_dport key) then 0
      else if r_metric rule = Connections then flow_amount env flows c key p opens rule
      else sat_sum (map (event_amount env rule) ((p, len, common_ctx env c (fk_dport key)) # es)))"

definition frame_amount :: "'p sniff_env \<Rightarrow> sniff \<Rightarrow> u8 list \<Rightarrow> 'p rule \<Rightarrow> u64" where
  "frame_amount env sf f rule =
     (let c = frame_client f in
      case frame_flow f of
        None \<Rightarrow> 0
      | Some k \<Rightarrow>
          if fk_proto k = 6 then
            rule_amount env (sf_flows sf) c k Tcp (frame_syn f) (of_nat (length (frame_payload f)))
              (tcp_l7_events env c (hm_contains (sf_ws sf) (flow_ws k)) (fk_dport k) (frame_payload f)) rule
          else
            rule_amount env (sf_flows sf) c k Udp True (of_nat (length (frame_datagram f)))
              (udp_l7_events env c (fk_dport k) (frame_datagram f)) rule)"

section \<open>The loops over the rules\<close>

abbreviation rule_count :: "metric \<Rightarrow> client_id \<Rightarrow> 'p rule \<Rightarrow> sniff \<Rightarrow> u64" where
  "rule_count m c rule sf \<equiv> triple_get m (get_rule (sf_counters sf) c (r_id rule))"

lemma distinct_matching: "rs_wf rs \<Longrightarrow> distinct (map r_id (matching rs p port))"
  by (simp add: rs_wf_def matching_def distinct_map_filter)

lemma event_rule_count:
  assumes "p = r_protocol rule"
  shows "rule_count m c q (event_rule env client n ctx rule sf) =
     sat_add (rule_count m c q sf)
       (if c = client \<and> r_id q = r_id rule \<and> m = r_metric rule then event_amount env rule (p, n, ctx) else 0)"
  using assms
  by (cases m; cases "r_metric rule")
    (auto simp: event_rule_def event_amount_def Let_def add_requests_def add_bytes_def get_rule_add triple_get_add)

lemma events_of_rule:
  assumes "list_all (\<lambda>e. pr e = r_protocol rule) es"
  shows "rule_count m c q (fold (\<lambda>e. event_rule env client (sz e) (ctx e) rule) es sf) =
     sat_add (rule_count m c q sf)
       (if c = client \<and> r_id q = r_id rule \<and> m = r_metric rule
        then sat_sum (map (\<lambda>e. event_amount env rule (pr e, sz e, ctx e)) es) else 0)"
  using assms by (induction es arbitrary: sf) (auto simp: event_rule_count sat_add_assoc)

text \<open>A loop over rules in which each step moves only its own rule's counter by a fixed amount.\<close>

lemma rules_fold_count:
  assumes "\<And>q s. q \<in> set rules \<Longrightarrow> rule_count m c rule (step q s) =
      sat_add (rule_count m c rule s) (if r_id rule = r_id q then amount q else 0)"
    and "distinct (map r_id rules)"
  shows "rule_count m c rule (fold step rules sf) =
     sat_add (rule_count m c rule sf)
       (case List.find (\<lambda>q. r_id q = r_id rule) rules of Some q \<Rightarrow> amount q | None \<Rightarrow> 0)"
  using assms
proof (induction rules arbitrary: sf)
  case (Cons q rules)
  have "List.find (\<lambda>q. r_id q = r_id rule) rules = None" if "r_id rule = r_id q"
    unfolding find_None_iff using Cons.prems(2) by (auto simp: that) (metis imageI)
  then show ?case using Cons by (auto simp: sat_add_assoc)
qed simp

lemma find_matching:
  assumes "rs_wf rs" "rule \<in> set (rs_rules rs)"
  shows "List.find (\<lambda>q. r_id q = r_id rule) (matching rs p port) =
     (if r_protocol rule = p \<and> matches_port rule port then Some rule else None)"
proof (cases "rule \<in> set (matching rs p port)")
  case True
  then show ?thesis using find_distinct [OF distinct_matching [OF assms(1)] True] by (simp add: matching_iff)
next
  case False
  then have "\<forall>q \<in> set (matching rs p port). r_id q \<noteq> r_id rule"
    using rs_wf_inj [OF assms(1) _ assms(2)] by (metis matching_iff)
  then show ?thesis using False assms(2) by (auto simp: find_None_iff matching_iff)
qed

lemma events_fold_count:
  assumes "rs_wf (sv_rules env)" "rule \<in> set (rs_rules (sv_rules env))"
  shows "rule_count m c rule
       (fold (\<lambda>rule sf. fold (\<lambda>x. event_rule env client (sz x) (ctx x) rule) xs sf) (matching (sv_rules env) p port) sf) =
     sat_add (rule_count m c rule sf)
       (if c = client \<and> m = r_metric rule \<and> matches_port rule port
        then sat_sum (map (event_amount env rule) (map (\<lambda>x. (p, sz x, ctx x)) xs)) else 0)"
proof -
  let ?amount = "\<lambda>q. if c = client \<and> m = r_metric q then sat_sum (map (\<lambda>x. event_amount env q (p, sz x, ctx x)) xs) else 0"
  have step: "rule_count m c rule (fold (\<lambda>x. event_rule env client (sz x) (ctx x) q) xs s) =
      sat_add (rule_count m c rule s) (if r_id rule = r_id q then ?amount q else 0)"
    if "q \<in> set (matching (sv_rules env) p port)" for q s
    using that by (subst events_of_rule [where pr = "\<lambda>_. p"]) (auto simp: matching_iff list_all_iff)
  have "sat_sum (map (\<lambda>x. event_amount env rule (p, sz x, ctx x)) xs) = 0" if "r_protocol rule \<noteq> p"
    using that by (intro sat_sum_zero) (auto simp: event_amount_def)
  then show ?thesis
    using rules_fold_count [where amount = ?amount, OF step distinct_matching [OF assms(1)]] find_matching [OF assms]
    by (auto simp: comp_def)
qed

lemma event_fold_count:
  assumes "rs_wf (sv_rules env)" "rule \<in> set (rs_rules (sv_rules env))"
  shows "rule_count m c rule (fold (\<lambda>rule. event_rule env client n ctx rule) (matching (sv_rules env) p port) sf) =
     sat_add (rule_count m c rule sf)
       (if c = client \<and> m = r_metric rule \<and> matches_port rule port then sat_sum (map (event_amount env rule) [(p, n, ctx)]) else 0)"
  using events_fold_count [OF assms, where xs = "[()]" and sz = "\<lambda>_. n" and ctx = "\<lambda>_. ctx"] by simp

lemma l4_rule_bytes:
  assumes "m \<noteq> Connections"
  shows "rule_count m c rule (l4_rule env client key opens len q sf) =
     sat_add (rule_count m c rule sf)
       (if r_id rule = r_id q
        then if c = client \<and> m = Bytes \<and> r_metric q = Bytes \<and> match_ok env q (common_ctx env client (fk_dport key)) then len else 0
        else 0)"
  using assms
  by (cases m; cases "0 < len")
    (auto simp: l4_rule_def Let_def case_prod_beta add_bytes_def add_connections_def get_rule_add triple_get_add word_gt_0)

lemma l4_rule_other:
  assumes "r_metric q \<noteq> Connections \<or> \<not> opens"
  shows "conns (l4_rule env client key opens len q sf) c r = conns sf c r"
    "sf_flows (l4_rule env client key opens len q sf) = sf_flows sf"
  using assms by (auto simp: l4_rule_def Let_def)

lemma l4_rule_flow:
  assumes "r_metric q = Connections" "opens" "ft_wf (sf_flows sf)"
  shows "conns (l4_rule env client key opens len q sf) c r =
     sat_add (conns sf c r)
       (if c = client \<and> r = r_id q \<and> \<not> ft_live (sf_flows sf) (sv_now env) key \<and>
           match_ok env q (common_ctx env client (fk_dport key)) then 1 else 0)"
    "ft_live (sf_flows (l4_rule env client key opens len q sf)) (sv_now env) key"
  using assms observe_fresh [OF assms(3), of key "sv_now env"] observe_live [OF assms(3)]
  by (auto simp: l4_rule_def Let_def case_prod_beta add_connections_def get_rule_add triple_get_add)

text \<open>Of the connection rules in a loop only the first can count a flow: for the others it is live.\<close>

lemma l4_fold_flow:
  assumes "ft_wf (sf_flows sf)"
  shows "conns (fold (l4_rule env client key opens len) rules sf) c r =
     sat_add (conns sf c r)
       (case List.find (\<lambda>q. r_metric q = Connections) rules of
          None \<Rightarrow> 0
        | Some q \<Rightarrow> if opens \<and> c = client \<and> r = r_id q \<and> \<not> ft_live (sf_flows sf) (sv_now env) key \<and>
            match_ok env q (common_ctx env client (fk_dport key)) then 1 else 0)"
  using assms
proof (induction rules arbitrary: sf)
  case (Cons q rules)
  let ?sf = "l4_rule env client key opens len q sf"
  have wf: "ft_wf (sf_flows ?sf)" by (rule l4_rule_wf [OF Cons.prems])
  show ?case
  proof (cases "r_metric q = Connections \<and> opens")
    case True
    then have "ft_live (sf_flows ?sf) (sv_now env) key" by (intro l4_rule_flow(2) [OF _ _ Cons.prems]) simp_all
    then have "conns (fold (l4_rule env client key opens len) rules ?sf) c r = conns ?sf c r" by (rule l4_fold_live [OF wf])
    then show ?thesis using True l4_rule_flow(1) [of q opens sf env client key len c r] Cons.prems by simp
  next
    case False
    then show ?thesis using Cons.IH [OF wf] by (auto simp: l4_rule_other split: option.splits)
  qed
qed simp

section \<open>Segments and frames\<close>

lemma flow_rule_id:
  assumes "rs_wf (sv_rules env)" "rule \<in> set (rs_rules (sv_rules env))" "flow_rule env p port = Some q"
  shows "r_id rule = r_id q \<longleftrightarrow> rule = q"
proof -
  have "q \<in> set (matching (sv_rules env) p port)" using assms(3) by (auto simp: flow_rule_def find_Some_iff)
  then show ?thesis using rs_wf_inj [OF assms(1,2)] by (auto simp: matching_iff)
qed

lemma l4_fold_count:
  assumes "rs_wf (sv_rules env)" "rule \<in> set (rs_rules (sv_rules env))" "ft_wf (sf_flows sf)" "p = Tcp \<or> p = Udp"
  shows "rule_count m client rule (fold (l4_rule env client key opens len) (matching (sv_rules env) p (fk_dport key)) sf) =
     sat_add (rule_count m client rule sf)
       (if m = r_metric rule then rule_amount env (sf_flows sf) client key p opens len [] rule else 0)"
proof (cases "m = Connections")
  case True
  have "flow_rule env p (fk_dport key) = Some rule \<Longrightarrow> r_metric rule = Connections \<and> matches_port rule (fk_dport key)"
    unfolding flow_rule_def find_Some_iff by (metis matching_iff nth_mem)
  then show ?thesis
    using l4_fold_flow [OF assms(3), of env client key opens len "matching (sv_rules env) p (fk_dport key)" client "r_id rule"]
      flow_rule_id [OF assms(1,2), of p "fk_dport key"]
    unfolding True flow_rule_def [symmetric]
    by (auto simp: rule_amount_def flow_amount_def split: option.splits)
next
  case False
  have valid: "valid_for (r_metric rule) (r_protocol rule)" using assms(1,2) by (simp add: rs_wf_def valid_rule_def)
  let ?amount = "\<lambda>q. if m = Bytes \<and> r_metric q = Bytes \<and> match_ok env q (common_ctx env client (fk_dport key)) then len else 0"
  have "rule_count m client rule (fold (l4_rule env client key opens len) (matching (sv_rules env) p (fk_dport key)) sf) =
      sat_add (rule_count m client rule sf) (if r_protocol rule = p \<and> matches_port rule (fk_dport key) then ?amount rule else 0)"
    by (subst rules_fold_count [where amount = ?amount, OF _ distinct_matching [OF assms(1)]])
      (simp_all add: l4_rule_bytes [OF False] find_matching [OF assms(1,2)])
  then show ?thesis
    using valid assms(4) False by (cases m) (auto simp: rule_amount_def event_amount_def valid_for_def)
qed

lemma no_flow_events: "r_metric rule = Connections \<Longrightarrow> sat_sum (map (event_amount env rule) es) = 0"
  by (rule sat_sum_zero) (auto simp: event_amount_def)

text \<open>The loop over the transport rules, followed by one that counts the events \<open>es\<close>.\<close>

lemma count_after_l4:
  assumes "rs_wf (sv_rules env)" "rule \<in> set (rs_rules (sv_rules env))" "ft_wf (sf_flows sf)" "p = Tcp \<or> p = Udp"
    and "rule_count m client rule sf' =
      sat_add (rule_count m client rule (fold (l4_rule env client key opens len) (matching (sv_rules env) p (fk_dport key)) sf))
        (if m = r_metric rule \<and> matches_port rule (fk_dport key) then sat_sum (map (event_amount env rule) es) else 0)"
  shows "rule_count m client rule sf' =
     sat_add (rule_count m client rule sf)
       (if m = r_metric rule then rule_amount env (sf_flows sf) client key p opens len es rule else 0)"
proof -
  have "sat_add (rule_amount env (sf_flows sf) client key p opens len [] rule)
      (if matches_port rule (fk_dport key) then sat_sum (map (event_amount env rule) es) else 0) =
    rule_amount env (sf_flows sf) client key p opens len es rule"
    by (auto simp: rule_amount_def no_flow_events)
  then show ?thesis using assms(5) unfolding l4_fold_count [OF assms(1-4)] by (auto simp: sat_add_assoc)
qed

lemma dispatch_tcp_count:
  assumes "dispatch_tcp env client (fk_src k) (fk_sport k) (fk_dst k) (fk_dport k) syn payload sf = Some sf'" "fk_proto k = 6"
    and "rs_wf (sv_rules env)" "rule \<in> set (rs_rules (sv_rules env))" "ft_wf (sf_flows sf)"
  shows "rule_count m client rule sf' =
     sat_add (rule_count m client rule sf)
       (if m = r_metric rule
        then rule_amount env (sf_flows sf) client k Tcp syn (of_nat (length payload))
          (tcp_l7_events env client (hm_contains (sf_ws sf) (flow_ws k)) (fk_dport k) payload) rule
        else 0)"
proof (rule count_after_l4 [OF assms(3-5)])
  have key: "\<lparr>fk_src = fk_src k, fk_sport = fk_sport k, fk_dst = fk_dst k, fk_dport = fk_dport k, fk_proto = 6\<rparr> = k"
    using assms(2) by simp
  have ws: "get_rule (add_ws_connection client cs) c r = get_rule cs c r" for cs c r
    by (simp add: get_rule_def add_ws_connection_def Let_def)
  show "rule_count m client rule sf' =
      sat_add (rule_count m client rule (fold (l4_rule env client k syn (of_nat (length payload)))
          (matching (sv_rules env) Tcp (fk_dport k)) sf))
        (if m = r_metric rule \<and> matches_port rule (fk_dport k) then sat_sum (map (event_amount env rule)
          (tcp_l7_events env client (hm_contains (sf_ws sf) (flow_ws k)) (fk_dport k) payload)) else 0)"
    using assms(1)
    by (auto simp: dispatch_tcp_def tcp_l7_events_def Let_def key flow_ws_def event_fold_count [OF assms(3,4)]
        events_fold_count [OF assms(3,4)] ws split: if_splits option.splits)
qed simp

lemma dispatch_udp_count:
  assumes "dispatch_udp env client (fk_src k) (fk_sport k) (fk_dst k) (fk_dport k) payload sf = Some sf'" "fk_proto k = 17"
    and "rs_wf (sv_rules env)" "rule \<in> set (rs_rules (sv_rules env))" "ft_wf (sf_flows sf)"
  shows "rule_count m client rule sf' =
     sat_add (rule_count m client rule sf)
       (if m = r_metric rule
        then rule_amount env (sf_flows sf) client k Udp True (of_nat (length payload))
          (udp_l7_events env client (fk_dport k) payload) rule
        else 0)"
proof (rule count_after_l4 [OF assms(3-5)])
  have key: "\<lparr>fk_src = fk_src k, fk_sport = fk_sport k, fk_dst = fk_dst k, fk_dport = fk_dport k, fk_proto = 17\<rparr> = k"
    using assms(2) by simp
  show "rule_count m client rule sf' =
      sat_add (rule_count m client rule (fold (l4_rule env client k True (of_nat (length payload)))
          (matching (sv_rules env) Udp (fk_dport k)) sf))
        (if m = r_metric rule \<and> matches_port rule (fk_dport k) then sat_sum (map (event_amount env rule)
          (udp_l7_events env client (fk_dport k) payload)) else 0)"
    using assms(1)
    by (auto simp: dispatch_udp_def udp_l7_events_def Let_def key events_fold_count [OF assms(3,4)] split: option.splits)
qed simp

text \<open>Every counter of a live rule moves by the amount of the frame, for its sender and in the rule's metric.\<close>

lemma frame_counted:
  assumes "handle_frame env f sf = Some sf'" "rs_wf (sv_rules env)" "rule \<in> set (rs_rules (sv_rules env))" "ft_wf (sf_flows sf)"
  shows "rule_count m c rule sf' =
     sat_add (rule_count m c rule sf) (if c = frame_client f \<and> m = r_metric rule then frame_amount env sf f rule else 0)"
proof (cases "c = frame_client f")
  case True
  show ?thesis
  proof (cases rule: handle_frame_cases [of f env sf])
    case pass
    then show ?thesis using assms(1) by (simp add: frame_amount_def Let_def)
  next
    case (tcp k)
    then show ?thesis using dispatch_tcp_count [OF _ tcp(2) assms(2-4)] assms(1) by (simp add: frame_amount_def Let_def True)
  next
    case (udp k)
    then show ?thesis using dispatch_udp_count [OF _ udp(2) assms(2-4)] assms(1) by (simp add: frame_amount_def Let_def True)
  qed
next
  case False
  obtain Q where "sniffed (frame_client f) (Q :: 'a rule \<Rightarrow> bool) sf sf'"
    using handle_frame_sniffed [of env f sf] assms(1) by (cases "frame_flow f") auto
  then have "counted (frame_client f) Q (sf_counters sf) (sf_counters sf')" by (simp add: sniffed_def)
  then show ?thesis using False by (simp add: counted_untouched)
qed

lemma frame_unknown_rule:
  assumes "handle_frame env f sf = Some sf'" "\<forall>rule \<in> set (rs_rules (sv_rules env)). r_id rule \<noteq> r"
  shows "get_rule (sf_counters sf') c r = get_rule (sf_counters sf) c r"
proof (cases "frame_flow f")
  case None
  then show ?thesis using handle_frame_sniffed [of env f sf] assms(1) by simp
next
  case (Some k)
  then have "counted (frame_client f) (counts_for env (flow_protocols sf k) (fk_dport k)) (sf_counters sf) (sf_counters sf')"
    using handle_frame_sniffed [of env f sf] assms(1) by (simp add: sniffed_def)
  then show ?thesis using assms(2) by (intro counted_untouched) (auto simp: counts_for_def)
qed

text \<open>
  C11: no frame makes the sniffer panic, and what it counts for a frame is exactly this: for the
  sender of the frame, under each live rule and in that rule's metric, the amount of the frame. That is
  the number or the size of the events of the rule's protocol on a port of the rule which the rule's
  expression accepts, or one for a flow that is not live and whose first connection rule it is. No other
  counter moves. Counters saturate.
\<close>

theorem frame_counted_exactly:
  assumes "rs_wf (sv_rules env)" "ft_wf (sf_flows sf)"
  shows "\<exists>sf'. handle_frame env f sf = Some sf' \<and>
     (\<forall>c r m. triple_get m (get_rule (sf_counters sf') c r) =
        sat_add (triple_get m (get_rule (sf_counters sf) c r))
          (case List.find (\<lambda>rule. r_id rule = r) (rs_rules (sv_rules env)) of
             None \<Rightarrow> 0
           | Some rule \<Rightarrow> if c = frame_client f \<and> m = r_metric rule then frame_amount env sf f rule else 0))"
proof -
  obtain sf' where sf': "handle_frame env f sf = Some sf'" using handle_frame_sniffed by blast
  have "triple_get m (get_rule (sf_counters sf') c r) =
        sat_add (triple_get m (get_rule (sf_counters sf) c r))
          (case List.find (\<lambda>rule. r_id rule = r) (rs_rules (sv_rules env)) of
             None \<Rightarrow> 0
           | Some rule \<Rightarrow> if c = frame_client f \<and> m = r_metric rule then frame_amount env sf f rule else 0)" for c r m
  proof (cases "List.find (\<lambda>rule. r_id rule = r) (rs_rules (sv_rules env))")
    case None
    then have "\<forall>rule \<in> set (rs_rules (sv_rules env)). r_id rule \<noteq> r" unfolding find_None_iff by blast
    then show ?thesis using frame_unknown_rule [OF sf', of r c] None by simp
  next
    case (Some rule)
    then have "rule \<in> set (rs_rules (sv_rules env))" "r_id rule = r" by (auto simp: find_Some_iff)
    then show ?thesis using frame_counted [OF sf' assms(1) _ assms(2), of rule m c] Some by simp
  qed
  with sf' show ?thesis by blast
qed

lemma port80_wf:
  "distinct (map r_id rules) \<Longrightarrow> length rules \<le> 256 \<Longrightarrow> list_all valid_rule rules \<Longrightarrow> rs_wf (sv_rules (port80_env rules))"
  by (simp add: rs_wf_def port80_env_def MAX_RULES_def list_all_iff)

lemma port80_valid: "valid_for m p \<Longrightarrow> valid_rule (port80_rule i p m)"
  by (simp add: valid_rule_def port80_rule_def)

definition get_payload :: "u8 list" where
  "get_payload = [71, 69, 84, 32, 47, 32, 72, 84, 84, 80, 47, 49, 46, 49, 13, 10, 13, 10]"

lemma get_payload_http:
  "detect_http_request get_payload =
     Some (Some \<lparr>ht_method = ''GET'', ht_path = ''/'', ht_query = [], ht_upgrade_ws = False, ht_headers = []\<rparr>)"
  by code_simp

text \<open>\<open>GET / HTTP/1.1\<close> from 10.0.0.1 port 256 to port 80.\<close>

definition get_frame :: "u8 list" where
  "get_frame = [0,0,0,0,0,0, 2,0,0,0,0,1, 8,0,
     0x45,0,0,58, 0,0,0,0, 64,6,0,0, 10,0,0,1, 10,0,0,2,
     1,0, 0,80, 0,0,0,0, 0,0,0,0, 0x50,0x18,0,0, 0,0,0,0] @ get_payload"

lemma get_frame_flow:
  "frame_flow get_frame = Some \<lparr>fk_src = Ipv4 10 0 0 1, fk_sport = 256, fk_dst = Ipv4 10 0 0 2, fk_dport = 80, fk_proto = 6\<rparr>"
  by (simp add: frame_flow_def frame_key_def get_frame_def get_payload_def frame_l4_def be16_def u16_be_def)

lemma get_frame_payload: "frame_payload get_frame = get_payload"
  by (simp add: frame_payload_def frame_l4_def get_frame_def get_payload_def drop_bit_eq_div)

lemma get_frame_amount:
  assumes "\<not> hm_contains (sf_ws sf) (Ipv4 10 0 0 1, 256, Ipv4 10 0 0 2, 80)" "r_protocol rule = Http" "matches_port rule 80" "r_match rule = None"
  shows "frame_amount env sf get_frame rule =
     (case r_metric rule of Requests \<Rightarrow> 1 | Bytes \<Rightarrow> 18 | Connections \<Rightarrow> frame_amount env sf get_frame rule)"
  using assms
  by (cases "r_metric rule")
    (simp_all add: frame_amount_def Let_def get_frame_flow get_frame_payload flow_ws_def rule_amount_def tcp_l7_events_def
      get_payload_http event_amount_def match_ok_def, simp add: get_payload_def)

theorem frame_counted_exactly_witness:
  "\<exists>sf. handle_frame (port80_env [port80_rule ''h'' Http Bytes]) get_frame
      \<lparr>sf_counters = counter_store_default, sf_flows = flow_table_new, sf_ws = []\<rparr> = Some sf \<and>
     get_rule (sf_counters sf) (frame_client get_frame) ''h'' = (0, 18, 0)"
proof -
  let ?r = "port80_rule ''h'' Http Bytes" and ?sf = "\<lparr>sf_counters = counter_store_default, sf_flows = flow_table_new, sf_ws = []\<rparr>"
  have wf: "rs_wf (sv_rules (port80_env [?r]))" by (rule port80_wf) (simp_all add: port80_valid valid_for_def)
  have "frame_amount (port80_env [?r]) ?sf get_frame ?r = 18"
    by (subst get_frame_amount) (simp_all add: hm_simps port80_rule_def matches_port_def)
  moreover have "List.find (\<lambda>rule. r_id rule = ''h'') (rs_rules (sv_rules (port80_env [?r]))) = Some ?r" "r_metric ?r = Bytes"
    by (simp_all add: port80_env_def port80_rule_def)
  ultimately obtain sf where sf: "handle_frame (port80_env [?r]) get_frame ?sf = Some sf"
    "triple_get m (get_rule (sf_counters sf) (frame_client get_frame) ''h'') = (if m = Bytes then 18 else 0)" for m
    using frame_counted_exactly [OF wf, of ?sf get_frame] by (auto simp: ft_wf_new counters.get_init)
  have "get_rule (sf_counters sf) (frame_client get_frame) ''h'' = (0, 18, 0)"
  proof (rule triple_eqI)
    show "triple_get m (get_rule (sf_counters sf) (frame_client get_frame) ''h'') = triple_get m (0, 18, 0)" for m
      by (cases m) (simp_all add: sf(2))
  qed
  with sf(1) show ?thesis by blast
qed

section \<open>The sniffer and the XDP program name the same client\<close>

lemma moved_client:
  assumes "handle_frame env f sf = Some sf'" "get_rule (sf_counters sf') c r \<noteq> get_rule (sf_counters sf) c r"
  shows "\<exists>k. frame_flow f = Some k \<and> c = frame_client f"
proof (cases "frame_flow f")
  case None
  then show ?thesis using handle_frame_attribution [of env f sf] assms by simp
next
  case (Some k)
  then have "counted (frame_client f) (counts_for env (flow_protocols sf k) (fk_dport k)) (sf_counters sf) (sf_counters sf')"
    using handle_frame_sniffed [of env f sf] assms(1) by (simp add: sniffed_def)
  then have "c = frame_client f" using counted_untouched assms(2) by metis
  with Some show ?thesis by blast
qed

text \<open>
  C29: a client for whom the sniffer has counted a frame can be enforced on that frame. The enforcer has a key for
  the client, and when the frame's IPv4 header is at least the 20 bytes that the standard asks for, the XDP
  program decides the frame by the entry under exactly that key: it drops the frame when the entry blocks or the
  draw falls below its drop rate, and otherwise not, whatever other entries there are.
\<close>

theorem sniffed_client_enforceable:
  assumes "handle_frame env f sf = Some sf'" "get_rule (sf_counters sf') c r \<noteq> get_rule (sf_counters sf) c r"
    and "5 \<le> unat (f ! 14) mod 16"
  shows "\<exists>key. bpf_key c = Some key \<and>
     (\<forall>ne m rnd. microwaf ne m f rnd = XDP_DROP \<longleftrightarrow>
        (\<exists>p. hm_get m key = Some p \<and> (pe_blocked p \<noteq> 0 \<or> unat rnd mod 100 < unat (pe_drop_rate p))))"
proof -
  obtain k where k: "frame_flow f = Some k" "c = frame_client f" using moved_client [OF assms(1,2)] by blast
  obtain key where key: "bpf_key c = Some key" "xdp_key f = Some key" using sniffed_key [OF k(1) assms(3)] k(2) by blast
  show ?thesis by (intro exI [of _ key]) (simp add: key microwaf_drop_iff)
qed

theorem sniffed_client_enforceable_witness:
  "\<exists>sf key. handle_frame (port80_env [port80_rule ''h'' Http Bytes]) get_frame
      \<lparr>sf_counters = counter_store_default, sf_flows = flow_table_new, sf_ws = []\<rparr> = Some sf \<and>
     bpf_key (frame_client get_frame) = Some key \<and>
     microwaf LittleEndian [(key, \<lparr>pe_blocked = 1, pe_drop_rate = 100, pe_until_unix = 0\<rparr>)] get_frame 7 = XDP_DROP"
proof -
  let ?r = "port80_rule ''h'' Http Bytes" and ?sf = "\<lparr>sf_counters = counter_store_default, sf_flows = flow_table_new, sf_ws = []\<rparr>"
  have wf: "rs_wf (sv_rules (port80_env [?r]))" by (rule port80_wf) (simp_all add: port80_valid valid_for_def)
  have rule: "?r \<in> set (rs_rules (sv_rules (port80_env [?r])))" "r_metric ?r = Bytes" "r_id ?r = ''h''"
    by (simp_all add: port80_env_def port80_rule_def)
  obtain sf where sf: "handle_frame (port80_env [?r]) get_frame ?sf = Some sf" using handle_frame_sniffed by blast
  have "frame_amount (port80_env [?r]) ?sf get_frame ?r = 18"
    by (subst get_frame_amount) (simp_all add: hm_simps port80_rule_def matches_port_def)
  then have "triple_get Bytes (get_rule (sf_counters sf) (frame_client get_frame) ''h'') = 18"
    using frame_counted [OF sf wf rule(1), of Bytes "frame_client get_frame"] rule by (simp add: ft_wf_new counters.get_init)
  then have "get_rule (sf_counters sf) (frame_client get_frame) ''h'' \<noteq> get_rule (sf_counters ?sf) (frame_client get_frame) ''h''"
    by (auto simp: counters.get_init)
  moreover have "5 \<le> unat (get_frame ! 14) mod 16" by (simp add: get_frame_def)
  ultimately show ?thesis using sniffed_client_enforceable [OF sf] sf by (fastforce simp: hm_simps)
qed

end
