(* ===== verification/End_To_End.thy ===== *)
theory End_To_End
  imports Daemon_Threads Traffic_Accounting
begin

text \<open>
  What the components do together. From a frame on the wire to the enforcer: the sniffer counts
  it, the next tick moves the increase into the window of its rule, the rule engine compares the
  window with the limit, the merge turns the violation into an action and the enforcer holds it.
  Traffic above a limit between two ticks is therefore enforced at the second one.
\<close>

section \<open>Increments of the current tick\<close>

definition now_op :: "instant \<Rightarrow> win_op \<Rightarrow> bool" where
  "now_op now op \<longleftrightarrow> (\<exists>m d. op = WAdd m d now)"

definition settled :: "instant \<Rightarrow> instant \<times> log_entry list \<Rightarrow> bool" where
  "settled now s \<longleftrightarrow> dur_as_secs (duration_since now (fst s)) = 0"

lemma settled_advance: "settled now (log_advance now s)"
  by (simp add: settled_def log_advance_def Let_def duration_since_def dur_as_secs_def)

lemma settled_start: "settled now (now, log)"
  by (simp add: settled_def duration_since_def dur_as_secs_def)

lemma log_sum_fresh:
  "0 < n \<Longrightarrow> log_sum ((0, t, m', d) # log) m n = sat_add (if m' = m then d else 0) (log_sum log m n)"
  by (simp add: log_sum_def)

text \<open>Increments at the time of the last advance do not age what is there.\<close>

lemma log_run_fresh:
  "settled now s \<Longrightarrow> list_all (now_op now) ops \<Longrightarrow> 0 < n \<Longrightarrow>
     log_sum (snd (log_run s ops)) m n = sat_add (ops_total m (\<lambda>_. True) ops) (log_sum (snd s) m n)"
proof (induction ops arbitrary: s)
  case (Cons op ops)
  obtain m' d where op: "op = WAdd m' d now" using Cons.prems by (auto simp: now_op_def)
  have step: "log_step s op = (fst s, (0, now, m', d) # snd s)"
    using Cons.prems(1) by (simp add: op settled_def log_advance_def Let_def)
  let ?s = "(fst s, (0, now, m', d) # snd s)"
  have run: "log_run s (op # ops) = log_run ?s ops" by (simp add: log_run_def step del: log_step.simps)
  have "settled now ?s" using Cons.prems(1) by (simp add: settled_def)
  then have "log_sum (snd (log_run ?s ops)) m n = sat_add (ops_total m (\<lambda>_. True) ops) (log_sum (snd ?s) m n)"
    using Cons by simp
  then show ?case
    using Cons.prems(3) unfolding run by (simp add: ops_total_def op log_sum_fresh sat_add_ac)
qed (simp add: log_run_def ops_total_def)

definition now_add :: "instant \<Rightarrow> rw_op \<Rightarrow> bool" where
  "now_add now op \<longleftrightarrow> (\<exists>r m d. op = RAdd r m d now)"

lemma rule_ops_adds:
  assumes "list_all (now_add now) new"
  shows "\<exists>ws. rule_ops r (ops @ new) = rule_ops r ops @ ws \<and> list_all (now_op now) ws \<and>
     ops_total m (\<lambda>_. True) ws = rule_total r m new"
  using assms
proof (induction new rule: rev_induct)
  case (snoc op new)
  then obtain ws where ws: "rule_ops r (ops @ new) = rule_ops r ops @ ws" "list_all (now_op now) ws"
    "ops_total m (\<lambda>_. True) ws = rule_total r m new" by auto
  obtain r' m' d where op: "op = RAdd r' m' d now" using snoc.prems by (auto simp: now_add_def)
  let ?w = "if r' = r then [WAdd m' d now] else []"
  have "rule_ops r (ops @ new @ [op]) = rule_ops r ops @ ws @ ?w"
    using ws(1) by (simp add: rule_ops_def rule_op_step_def op)
  moreover have "list_all (now_op now) (ws @ ?w)" using ws(2) by (simp add: now_op_def)
  moreover have "ops_total m (\<lambda>_. True) (ws @ ?w) = rule_total r m (new @ [op])"
    using ws(3) by (simp add: ops_total_def rule_total_def sat_sum_append op)
  ultimately show ?case by blast
qed (simp add: ops_total_def rule_total_def)

text \<open>Whatever its length, a window counts everything a tick has just added to it.\<close>

lemma rw_sum_fresh:
  assumes "list_all (now_add now) new"
  shows "rule_total r m new \<le> rw_sum (rw_run (ops @ RAdvance now # new)) r m secs"
proof -
  let ?n = "clamp_secs secs"
  have n: "0 < ?n" by (simp add: clamp_secs_def)
  have split: "ops @ RAdvance now # new = (ops @ [RAdvance now]) @ new" by simp
  obtain ws where ws: "rule_ops r ((ops @ [RAdvance now]) @ new) = rule_ops r (ops @ [RAdvance now]) @ ws"
    "list_all (now_op now) ws" "ops_total m (\<lambda>_. True) ws = rule_total r m new"
    using rule_ops_adds [OF assms] by blast
  have adv: "rule_ops r (ops @ [RAdvance now]) = (if rule_ops r ops = [] then [] else rule_ops r ops @ [WAdvance now])"
    by (simp add: rule_ops_def rule_op_step_def)
  have "rule_total r m new \<le> log_sum (rule_log r ((ops @ [RAdvance now]) @ new)) m ?n"
  proof (cases "rule_ops r ops")
    case Nil
    show ?thesis
    proof (cases ws)
      case Nil
      then show ?thesis using ws(3) by (simp add: ops_total_def)
    next
      case (Cons op rest)
      have "op_time op = now" using ws(2) Cons by (auto simp: now_op_def)
      then have "rule_log r ((ops @ [RAdvance now]) @ new) = snd (log_run (now, []) ws)"
        using ws(1) adv Nil Cons by (simp add: rule_log_def)
      then show ?thesis
        using log_run_fresh [OF settled_start ws(2) n] ws(3) sat_add_mono by metis
    qed
  next
    case (Cons op rest)
    let ?s = "log_advance now (log_run (op_time op, []) (op # rest))"
    have "rule_log r ((ops @ [RAdvance now]) @ new) = snd (log_run ?s ws)"
      using ws(1) adv Cons by (simp add: rule_log_def log_run_def)
    then show ?thesis
      using log_run_fresh [OF settled_advance ws(2) n] ws(3) sat_add_mono by metis
  qed
  then show ?thesis unfolding split rw_run_sum .
qed

lemma delta_ops_now: "list_all (now_add now) (delta_ops now c prevs snp)"
  by (induction now c prevs snp rule: delta_ops.induct)
    (auto simp: delta_ops1_def now_add_def list_all_iff split: if_splits)

lemma fresh_traffic_in_window:
  assumes "accounted st"
  shows "sat_sub (counter_of (snap st) c r m) (counter_of (ds_last_counters st) c r m)
     \<le> rw_sum (client_windows now st c) r m secs"
proof -
  obtain ops where ops: "hm_get_or (ds_windows st) c rw_default = rw_run ops"
    using assms unfolding accounted_def by blast
  let ?new = "delta_ops now c (ds_last_counters st) (snap st)"
  have wf: "hm_wf (snap st)" using assms by (simp add: accounted_def cs_wf_def snapshot_rules_def)
  have "client_windows now st c = rw_run (ops @ RAdvance now # ?new)"
    by (simp add: client_windows_def ops(1) delta_loop_ops rw_run_def)
  moreover have "rule_total r m ?new = sat_sub (counter_of (snap st) c r m) (counter_of (ds_last_counters st) c r m)"
    using delta_ops_total [OF wf, of r m now c "ds_last_counters st"]
    by (auto simp: counter_of_def hm_get_or_def sat_sub_def split: option.splits)
  ultimately show ?thesis using rw_sum_fresh [OF delta_ops_now, of r m] by metis
qed

lemma excess_violates:
  assumes "accounted st" "rule \<in> set (rs_rules (state_rules st))"
    and "r_limit rule < sat_sub (counter_of (snap st) c (r_id rule) (r_metric rule))
           (counter_of (ds_last_counters st) c (r_id rule) (r_metric rule))"
  shows "c \<in> tick_clients st" "\<exists>v \<in> set (client_violations now st c). v_rule_id v = r_id rule \<and> v_action v = r_action rule"
proof -
  show "c \<in> tick_clients st"
  proof (rule ccontr)
    assume "c \<notin> tick_clients st"
    then show False using assms(3) by (simp add: counter_of_untouched sat_sub_zero_iff [THEN iffD2])
  qed
  let ?v = "rw_sum (client_windows now st c) (r_id rule) (r_metric rule) (window_secs (r_window rule))"
  have "r_limit rule < ?v"
    using assms(3) fresh_traffic_in_window [OF assms(1)] by (rule order_less_le_trans)
  then have "\<lparr>v_rule_id = r_id rule, v_value = ?v, v_limit = r_limit rule, v_action = r_action rule\<rparr>
      \<in> set (client_violations now st c)"
    unfolding client_violations_def evaluate_member using assms(2) by (auto simp: Let_def)
  then show "\<exists>v \<in> set (client_violations now st c). v_rule_id v = r_id rule \<and> v_action v = r_action rule"
    by (rule rev_bexI) simp
qed

lemma excess_enforced_lemma:
  assumes "tick now order st = Some st'" "distinct order" "set order = tick_clients st"
    and "accounted st" "rs_wf (state_rules st)" "rule \<in> set (rs_rules (state_rules st))"
    and "r_limit rule < sat_sub (counter_of (snap st) c (r_id rule) (r_metric rule))
           (counter_of (ds_last_counters st) c (r_id rule) (r_metric rule))"
    and "now \<le> t" "t < now + tick_cooldown st"
  shows "\<exists>p. hm_get (ds_policies st') c = Some p \<and> at_least (r_action rule) (merge_policy p t) \<and>
     (state_enforces st c \<longrightarrow> at_least (r_action rule) (state_in_force st' c))"
  using tick_enforces_lemma [OF assms(1-3) excess_violates(1) [OF assms(4,6,7)] assms(5) _ assms(8,9)]
    excess_violates(2) [OF assms(4,6,7), of now] by metis

section \<open>From the wire to the enforcer\<close>

definition sniff_of :: "'p sniff_state \<Rightarrow> sniff" where
  "sniff_of s = (case s of (st, flows, ws) \<Rightarrow> \<lparr>sf_counters = ds_counters st, sf_flows = flows, sf_ws = ws\<rparr>)"

text \<open>What the frames of a client amount to under a rule, each at the state in which it is received.\<close>

fun traffic :: "'p cel_api \<Rightarrow> client_id \<Rightarrow> 'p rule \<Rightarrow> recv_frame list \<Rightarrow> 'p sniff_state \<Rightarrow> u64 list" where
  "traffic api c rule [] s = []"
| "traffic api c rule (RecvFrame utc now f # rs) s =
     (if c = frame_client f then frame_amount (frame_env api (fst s) utc now) (sniff_of s) f rule else 0) #
     (case sniff_frame api utc now f s of Some s' \<Rightarrow> traffic api c rule rs s' | None \<Rightarrow> [])"
| "traffic api c rule (RecvInterrupted # rs) s = traffic api c rule rs s"
| "traffic api c rule (RecvError e # rs) s = []"

abbreviation count_of :: "'p daemon_state \<Rightarrow> client_id \<Rightarrow> 'p rule \<Rightarrow> u64" where
  "count_of st c rule \<equiv> counter_of (snap st) c (r_id rule) (r_metric rule)"

lemma counter_of_get: "counter_of (snapshot_rules cs) c r m = triple_get m (get_rule cs c r)"
  by (simp add: counter_of_def get_rule_def snapshot_rules_def)

lemma sniff_frame_Some:
  assumes "sniff_frame api utc now f (st, flows, ws) = Some (st1, flows1, ws1)"
  obtains sf where "handle_frame (frame_env api st utc now) f (sniff_of (st, flows, ws)) = Some sf"
    "st1 = st\<lparr>ds_counters := sf_counters sf\<rparr>" "flows1 = sf_flows sf" "ws1 = sf_ws sf"
  using assms by (auto simp: sniff_frame_def frame_env_def sniff_of_def)

lemma sniff_frame_keeps:
  assumes "sniff_frame api utc now f (st, flows, ws) = Some (st1, flows1, ws1)"
  shows "\<exists>cs. st1 = st\<lparr>ds_counters := cs\<rparr>" "cs_wf (ds_counters st) \<Longrightarrow> cs_wf (ds_counters st1)"
    "ft_wf flows \<Longrightarrow> ft_wf flows1" "counter_of (snap st) c r m \<le> counter_of (snap st1) c r m"
proof -
  obtain sf where sf: "handle_frame (frame_env api st utc now) f (sniff_of (st, flows, ws)) = Some sf"
    and st1: "st1 = st\<lparr>ds_counters := sf_counters sf\<rparr>" "flows1 = sf_flows sf" by (rule sniff_frame_Some [OF assms])
  show "\<exists>cs. st1 = st\<lparr>ds_counters := cs\<rparr>" using st1 by blast
  show "cs_wf (ds_counters st) \<Longrightarrow> cs_wf (ds_counters st1)" "ft_wf flows \<Longrightarrow> ft_wf flows1"
    using handle_frame_keeps(1,3) [OF sf] by (simp_all add: st1 sniff_of_def)
  show "counter_of (snap st) c r m \<le> counter_of (snap st1) c r m"
    using handle_frame_keeps(5) [OF sf, of c r] by (simp add: counter_of_get st1 triple_le_def sniff_of_def)
qed

lemma sniff_frame_counts:
  assumes "sniff_frame api utc now f (st, flows, ws) = Some (st1, flows1, ws1)"
    and "rs_wf (state_rules st)" "rule \<in> set (rs_rules (state_rules st))" "ft_wf flows"
  shows "count_of st1 c rule = sat_add (count_of st c rule)
     (if c = frame_client f then frame_amount (frame_env api st utc now) (sniff_of (st, flows, ws)) f rule else 0)"
proof -
  obtain sf where sf: "handle_frame (frame_env api st utc now) f (sniff_of (st, flows, ws)) = Some sf"
    and st1: "st1 = st\<lparr>ds_counters := sf_counters sf\<rparr>" by (rule sniff_frame_Some [OF assms(1)])
  show ?thesis
    using frame_counted [OF sf, of rule "r_metric rule" c] assms(2-4)
    by (simp add: counter_of_get st1 frame_env_def sniff_of_def)
qed

lemma sniff_loop_keeps:
  "sniff_loop api rs (st, flows, ws) = Some (r, st1, flows1, ws1) \<Longrightarrow>
     \<exists>cs. st1 = st\<lparr>ds_counters := cs\<rparr> \<and> (cs_wf (ds_counters st) \<longrightarrow> cs_wf cs) \<and>
       (\<forall>c r m. counter_of (snap st) c r m \<le> counter_of (snap st1) c r m)"
proof (induction rs arbitrary: st flows ws)
  case Nil
  then show ?case by (intro exI [of _ "ds_counters st"]) auto
next
  case (Cons e rs)
  show ?case
  proof (cases e)
    case (RecvFrame utc now f)
    obtain st2 flows2 ws2 where 2: "sniff_frame api utc now f (st, flows, ws) = Some (st2, flows2, ws2)"
      "sniff_loop api rs (st2, flows2, ws2) = Some (r, st1, flows1, ws1)"
      using Cons.prems by (auto simp: RecvFrame bind_eq_Some_conv)
    obtain cs where cs: "st1 = st2\<lparr>ds_counters := cs\<rparr>" "cs_wf (ds_counters st2) \<longrightarrow> cs_wf cs"
      "\<And>c r m. counter_of (snap st2) c r m \<le> counter_of (snap st1) c r m"
      using Cons.IH [OF 2(2)] by blast
    have "st1 = st\<lparr>ds_counters := cs\<rparr>" using sniff_frame_keeps(1) [OF 2(1)] cs(1) by auto
    moreover have "counter_of (snap st) c r m \<le> counter_of (snap st1) c r m" for c r m
      using sniff_frame_keeps(4) [OF 2(1)] cs(3) by (rule order_trans)
    ultimately show ?thesis using cs(2) sniff_frame_keeps(2) [OF 2(1)] by blast
  next
    case RecvInterrupted
    then show ?thesis using Cons by simp
  next
    case (RecvError e')
    then show ?thesis using Cons.prems by (intro exI [of _ "ds_counters st"]) auto
  qed
qed

text \<open>The loop counts exactly the traffic of a client under a rule.\<close>

lemma sniff_loop_counts:
  "sniff_loop api rs (st, flows, ws) = Some (r, st1, flows1, ws1) \<Longrightarrow>
   rs_wf (state_rules st) \<Longrightarrow> rule \<in> set (rs_rules (state_rules st)) \<Longrightarrow> ft_wf flows \<Longrightarrow>
     count_of st1 c rule = sat_add (count_of st c rule) (sat_sum (traffic api c rule rs (st, flows, ws)))"
proof (induction rs arbitrary: st flows ws)
  case (Cons e rs)
  show ?case
  proof (cases e)
    case (RecvFrame utc now f)
    obtain st2 flows2 ws2 where 2: "sniff_frame api utc now f (st, flows, ws) = Some (st2, flows2, ws2)"
      "sniff_loop api rs (st2, flows2, ws2) = Some (r, st1, flows1, ws1)"
      using Cons.prems(1) by (auto simp: RecvFrame bind_eq_Some_conv)
    have "state_rules st2 = state_rules st" using sniff_frame_keeps(1) [OF 2(1)] by (auto simp: state_rules_def)
    then show ?thesis
      using Cons.IH [OF 2(2)] Cons.prems(2-4) sniff_frame_keeps(3) [OF 2(1)] sniff_frame_counts [OF 2(1) Cons.prems(2-4), of c]
      by (simp add: RecvFrame 2(1) sat_add_assoc)
  qed (use Cons in simp_all)
qed simp

lemma sniff_loop_accounted:
  assumes "sniff_loop api rs (st, flows, ws) = Some (r, st1, flows1, ws1)" "accounted st"
  shows "accounted st1" "ds_last_counters st1 = ds_last_counters st" "state_rules st1 = state_rules st"
proof -
  obtain cs where cs: "st1 = st\<lparr>ds_counters := cs\<rparr>" "cs_wf (ds_counters st) \<longrightarrow> cs_wf cs"
    "\<And>c r m. counter_of (snap st) c r m \<le> counter_of (snap st1) c r m"
    using sniff_loop_keeps [OF assms(1)] by blast
  show "accounted st1" unfolding cs(1)
    using cs(2,3) assms(2) by (intro accounted_counters) (auto simp: cs(1) snapshot_rules_def accounted_def)
qed (use sniff_loop_keeps [OF assms(1)] in \<open>auto simp: state_rules_def\<close>)

text \<open>
  C4: for a client whose frames between two ticks amount to more than a rule allows, among
  whatever other traffic, the second tick stores a policy that asks, up to the end of the cooldown, for at least
  the rule's action, and leaves the enforcer holding the client at least at that action. A later tick that
  finds a violation replaces the policy. This holds for requests, bytes and connections and for each
  protocol, from the sniffer's socket to the enforcer:
  the frame is parsed, matched against the rule's ports and expression and counted, and the tick takes
  the increase into the rule's window, whatever the window's length.
\<close>

theorem flood_enforced:
  assumes "sniff_loop api rs (st, flows, ws) = Some (r, st1, flows1, ws1)" "ft_wf flows"
    and "accounted st" "rs_wf (state_rules st)" "rule \<in> set (rs_rules (state_rules st))"
    and "n = sum_list (map unat (traffic api c rule rs (st, flows, ws)))"
    and "unat (r_limit rule) < n" "unat (count_of st c rule) + n < 2 ^ 64"
    and "tick now order st1 = Some st2" "distinct order" "set order = tick_clients st1"
    and "now \<le> t" "t < now + tick_cooldown st1"
  shows "\<exists>p. hm_get (ds_policies st2) c = Some p \<and> at_least (r_action rule) (merge_policy p t) \<and>
     (state_enforces st1 c \<longrightarrow> at_least (r_action rule) (state_in_force st2 c))"
proof -
  note acc = sniff_loop_accounted [OF assms(1,3)]
  have "unat (count_of st1 c rule) = unat (count_of st c rule) + n"
    using sniff_loop_counts [OF assms(1,4,5,2), of c] assms(6,8) by (simp add: unat_sat_add unat_sat_sum)
  moreover have "unat (counter_of (ds_last_counters st) c (r_id rule) (r_metric rule)) \<le> unat (count_of st c rule)"
    using assms(3) by (simp add: accounted_def word_le_nat_alt)
  ultimately have "r_limit rule < sat_sub (count_of st1 c rule) (counter_of (ds_last_counters st1) c (r_id rule) (r_metric rule))"
    using assms(7) by (simp add: word_less_nat_alt unat_sat_sub acc(2))
  then show ?thesis
    using acc assms(4,5) by (intro excess_enforced_lemma [OF assms(9-11) _ _ _ _ assms(12,13)]) simp_all
qed

text \<open>Two GET requests under a rule that blocks above one.\<close>

definition flood_rule :: "unit rule" where
  "flood_rule = (port80_rule ''h'' Http Requests)\<lparr>r_limit := 1\<rparr>"

definition flood_state :: "unit daemon_state" where
  "flood_state = set_enforcer (EnfFake \<lparr>fe_applied = []\<rparr>) (daemon_state_new Enforce ''any''
     \<lparr>lc_daemon = daemon_config_default, lc_sets = sets_config_default, lc_rules = \<lparr>rs_rules = [flood_rule]\<rparr>\<rparr>)"

lemma flood_state_ok:
  "accounted flood_state" "rs_wf (state_rules flood_state)" "flood_rule \<in> set (rs_rules (state_rules flood_state))"
  "count_of flood_state c flood_rule = 0" "tick_cooldown (flood_state\<lparr>ds_counters := cs\<rparr>) = 30 * nanos_per_sec"
proof -
  show "accounted flood_state"
    using accounted_new [of Enforce "''any''"
        "\<lparr>lc_daemon = daemon_config_default, lc_sets = sets_config_default, lc_rules = \<lparr>rs_rules = [flood_rule]\<rparr>\<rparr>"]
    by (simp add: accounted_def flood_state_def set_enforcer_def)
  show "rs_wf (state_rules flood_state)"
    by (simp add: rs_wf_def flood_state_def set_enforcer_def daemon_state_new_def state_rules_def MAX_RULES_def
        valid_rule_def flood_rule_def port80_rule_def valid_for_def)
qed (simp_all add: flood_state_def set_enforcer_def daemon_state_new_def state_rules_def counter_of_get
    counters.get_init tick_cooldown_def daemon_cfg_def daemon_config_default_def dur_from_secs_def max_def word_le_nat_alt)

lemma event_fold_ws: "sf_ws (fold (\<lambda>rule. event_rule env client bytes ctx rule) rules sf) = sf_ws sf"
  by (induction rules arbitrary: sf) (simp_all add: event_rule_def Let_def)

lemma flood_frame_marks:
  assumes "sniff_frame api utc now get_frame (st, flows, []) = Some (st1, flows1, ws1)"
  shows "ws1 = []"
proof -
  let ?sf = "sniff_of (st, flows, [])"
  obtain sf where sf: "handle_frame (frame_env api st utc now) get_frame ?sf = Some sf" "ws1 = sf_ws sf"
    by (rule sniff_frame_Some [OF assms])
  then show ?thesis
    by (cases rule: handle_frame_cases [of get_frame "frame_env api st utc now" ?sf])
      (auto simp: get_frame_flow get_frame_payload dispatch_tcp_def Let_def get_payload_http event_fold_ws hm_simps sniff_of_def)
qed

lemma flood_traffic:
  "sum_list (map unat (traffic no_cel (frame_client get_frame) flood_rule
     [RecvFrame u 1 get_frame, RecvInterrupted, RecvFrame u 2 get_frame] (flood_state, flow_table_new, []))) = 2"
proof -
  have hit: "frame_amount env (sniff_of (st, flows, [])) get_frame flood_rule = 1" for env st flows
    by (subst get_frame_amount) (simp_all add: sniff_of_def hm_simps flood_rule_def port80_rule_def matches_port_def)
  obtain st1 flows1 ws1 where 1: "sniff_frame no_cel u 1 get_frame (flood_state, flow_table_new, []) = Some (st1, flows1, ws1)"
    using sniff_frame_total by (metis prod_cases3)
  obtain s2 where 2: "sniff_frame no_cel u 2 get_frame (st1, flows1, ws1) = Some s2" using sniff_frame_total by blast
  show ?thesis using flood_frame_marks [OF 1] by (simp add: 1 [unfolded One_nat_def] 2 hit)
qed

theorem flood_enforced_witness:
  "\<exists>r st1 flows1 ws1 order st2.
     sniff_loop no_cel [RecvFrame \<lparr>ut_epoch = 0, ut_hour = 0, ut_dow = 0\<rparr> 1 get_frame, RecvInterrupted,
        RecvFrame \<lparr>ut_epoch = 0, ut_hour = 0, ut_dow = 0\<rparr> 2 get_frame] (flood_state, flow_table_new, [])
       = Some (r, st1, flows1, ws1) \<and>
     tick 3 order st1 = Some st2 \<and> state_in_force st2 (frame_client get_frame) = EffBlock"
proof -
  let ?u = "\<lparr>ut_epoch = 0, ut_hour = 0, ut_dow = 0\<rparr>"
  let ?rs = "[RecvFrame ?u 1 get_frame, RecvInterrupted, RecvFrame ?u 2 get_frame]"
  obtain r st1 flows1 ws1 where run: "sniff_loop no_cel ?rs (flood_state, flow_table_new, []) = Some (r, st1, flows1, ws1)"
    using sniff_loop_total [of no_cel ?rs "(flood_state, flow_table_new, [])"] by (metis prod_cases3)
  obtain cs where st1: "st1 = flood_state\<lparr>ds_counters := cs\<rparr>" using sniff_loop_keeps [OF run] by blast
  have cool: "tick_cooldown st1 = 30 * nanos_per_sec" unfolding st1 by (rule flood_state_ok(5))
  obtain order where order: "set order = tick_clients st1" "distinct order"
    using finite_distinct_list [of "tick_clients st1"] by (auto simp: tick_clients_def)
  obtain st2 where st2: "tick 3 order st1 = Some st2"
    using tick_None_iff [OF order(2,1), of 3]
    by (auto simp: cool instant_add_def instant_limit_def nanos_per_sec_def)
  have "state_enforces st1 (frame_client get_frame)"
    by (simp add: st1 flood_state_def set_enforcer_def state_enforces_def)
  moreover have "r_action flood_rule = ActBlock" by (simp add: flood_rule_def port80_rule_def)
  ultimately have "is_blocked (state_in_force st2 (frame_client get_frame))"
    using flood_enforced [OF run ft_wf_new flood_state_ok(1-3) flood_traffic [of ?u, symmetric] _ _ st2 order(2,1), of 3]
    by (simp add: flood_state_ok(4) cool nanos_per_sec_def at_least_def) (auto simp: flood_rule_def port80_rule_def)
  then have "state_in_force st2 (frame_client get_frame) = EffBlock" by (simp add: is_blocked_def)
  with run st2 show ?thesis by blast
qed

section \<open>From a block command to the enforcer, across a restart\<close>

lemma block_cmd_state:
  assumes "block_cmd env now now_sys p st s = Some (r, st1, s')" "parse_ref (bp_client p) = Inr c"
    and "until_of now (bp_duration_secs p) = Some until"
  shows "st1 = set_manual c (Some ((old_manual st c)\<lparr>mp_blocked := True, mp_until := until\<rparr>)) st"
proof -
  let ?m = "(old_manual st c)\<lparr>mp_blocked := True, mp_until := until\<rparr>"
  show ?thesis
    using assms finish_parts(1) [of env now_sys c "Some (from_runtime ?m now now_sys)" "set_manual c (Some ?m) st" s]
    by (simp add: block_cmd_def Let_def)
qed

text \<open>What a daemon started on a Redis server with the current schema knows of a client the server has a policy for.\<close>

lemma restart_policies:
  assumes "redis_behaves (se_redis (hs_store h)) view" "redis_good (se_json (hs_store h)) view r"
    and "schema_of (redis_text view r KEY_SCHEMA) = SCHEMA_VERSION" "hs_connect h url = Inr r"
    and "open_store h url now now_sys st = Some (Inr (st', StRedis r'))"
    and "redis_contents (se_json (hs_store h)) view r c = Some stored"
  shows "\<exists>q. to_runtime stored now now_sys = Some q \<and> hm_get (ds_policies st') c = Some \<lparr>cp_manual = Some q, cp_auto = None\<rparr>"
proof -
  let ?api = "se_redis (hs_store h)" and ?js = "se_json (hs_store h)"
  have red: "open_redis h url = Inr r'" and hyd: "hydrate now now_sys (redis_load_policies ?api ?js r') st = Some (Inr st')"
    using assms(5) by (auto simp: open_store_def split: sum.splits option.splits)
  have ens: "ensure_schema ?api r = (Inr (), r')"
    using red assms(4) by (auto simp: open_redis_def redis_connect_def split: sum.splits prod.splits)
  have view: "redis_text view r' k = redis_text view r k" if "k \<noteq> KEY_SCHEMA" for k
    using ensure_schema_correct [OF assms(1) ens] assms(3) that by (simp add: redis_text_def)
  have pre: "k \<noteq> KEY_SCHEMA" if "take (length PREFIX_POLICY) k = PREFIX_POLICY" for k
    using that by (auto simp: PREFIX_POLICY_def KEY_SCHEMA_def)
  have good: "redis_good ?js view r'" using assms(2) view pre unfolding redis_good_def by metis
  have "redis_contents ?js view r' c = Some stored"
    using assms(6) view [OF pre [OF take_policy_key]] by (simp add: redis_contents_def)
  moreover obtain xs where xs: "redis_load_policies ?api ?js r' = Inr xs"
    using hyd by (cases "redis_load_policies ?api ?js r'") (simp_all add: hydrate_def)
  moreover from this have load: "load_correct (redis_load_policies ?api ?js r') (redis_contents ?js view r')"
    by (rule redis_load_correct [OF assms(1) good])
  ultimately have "map_of xs c = Some stored" by (simp add: load_correct_def)
  then have "(c, stored) \<in> set xs" by (rule map_of_SomeD)
  moreover obtain m where "hydrate_loop now now_sys xs (ds_policies st) = Some m"
    using hyd by (auto simp: hydrate_def xs)
  ultimately obtain q where "to_runtime stored now now_sys = Some q" using hydrate_loop_runtime by blast
  with \<open>redis_contents ?js view r' c = Some stored\<close> hydrate_correct [OF hyd load] show ?thesis by simp
qed

text \<open>
  What is left on the server of a block that was stored there: the policy, until two seconds before its end at
  the earliest, when no more than \<open>d\<close> nanoseconds have passed on the server.
\<close>

lemma block_stored:
  assumes "redis_behaves (se_redis env) view" "json_roundtrips (se_json env)"
    and "block_cmd env now now_sys p st (StRedis r) = Some (Inr (), st1, StRedis r1)" "parse_ref (bp_client p) = Inr c"
    and "until_of now (bp_duration_secs p) = Some until" "0 \<le> now_sys"
    and "view r2 (policy_key c) = aged d (view r1 (policy_key c))"
    and "case until of None \<Rightarrow> True
      | Some u \<Rightarrow> now \<le> u \<and> nat now_sys + (u - now) < instant_limit \<and>
          now_sys + int d + 2 * int nanos_per_sec \<le> now_sys + int (u - now)"
  shows "redis_contents (se_json env) view r2 c =
       Some (from_runtime ((old_manual st c)\<lparr>mp_blocked := True, mp_until := until\<rparr>) now now_sys)"
proof -
  let ?m = "(old_manual st c)\<lparr>mp_blocked := True, mp_until := until\<rparr>"
  let ?s = "from_runtime ?m now now_sys"
  let ?put = "redis_put (se_redis env) (se_json env) now_sys c ?s r"
  have "finish env now_sys c (Some ?s) (set_manual c (Some ?m) st) (StRedis r) = (Inr (), st1, StRedis r1)"
    using assms(3-5) by (simp add: block_cmd_def Let_def)
  then have "fst ?put = Inr ()" "snd ?put = r1"
    using finish_parts(2,3) [of env now_sys c "Some ?s" "set_manual c (Some ?m) st" "StRedis r"]
    by (simp_all add: persist_manual_def backend_result_def)
  then have put: "?put = (Inr (), r1)" by (metis prod.collapse)
  show ?thesis
  proof (cases until)
    case None
    then show ?thesis using aged_put [OF assms(1,2) put assms(7)] by (simp add: policy_ttl_def from_runtime_def)
  next
    case (Some u)
    then have u: "now \<le> u" "nat now_sys + (u - now) < instant_limit"
      "now_sys + int d + 2 * int nanos_per_sec \<le> now_sys + int (u - now)"
      using assms(8) by (auto simp only: option.case)
    obtain e where e: "sp_until_unix_secs ?s = Some e"
      "now_sys + int (u - now) - 2 * int nanos_per_sec < int (unat e) * int nanos_per_sec"
      using stored_secs [OF _ u(1) assms(6) u(2), of ?m] Some by auto
    obtain left where left: "policy_ttl now_sys ?s = Some left" "unat e * nanos_per_sec \<le> nat now_sys + left"
      using policy_ttl_bounds [OF assms(6) _ e(1)] u(2) by auto
    have "int (unat e * nanos_per_sec) \<le> now_sys + int left" using left(2) assms(6) by linarith
    then have "d < left" using e(2) u(3) by simp
    then show ?thesis using aged_put [OF assms(1,2) put assms(7)] left(1) by simp
  qed
qed

text \<open>A stored block is in force until two seconds before its end on the system clock.\<close>

lemma stored_block_active:
  assumes "to_runtime (from_runtime m now now_sys) now' now_sys' = Some q" "mp_blocked m"
    and "case mp_until m of None \<Rightarrow> True
      | Some u \<Rightarrow> now \<le> u \<and> u < instant_limit \<and> nat now_sys + (u - now) < instant_limit \<and>
          now_sys' + int (t - now') + 2 * int nanos_per_sec \<le> now_sys + int (u - now)"
    and "0 \<le> now_sys" "now' \<le> t"
  shows "mp_blocked q \<and> \<not> manual_expired q t"
proof (cases "mp_until m")
  case None
  then show ?thesis using assms(1,2) by (auto simp: from_runtime_def to_runtime_def manual_expired_def)
next
  case (Some u)
  then have u: "now \<le> u" "u < instant_limit" "nat now_sys + (u - now) < instant_limit"
    "now_sys' + int (t - now') + 2 * int nanos_per_sec \<le> now_sys + int (u - now)" using assms(3) by (auto simp only: Some option.case)
  obtain u' target where u': "mp_blocked q = mp_blocked m" "mp_until q = Some u'"
    "now_sys + int (u - now) - 2 * int nanos_per_sec < target"
    "if now_sys' \<le> target then now_sys' + int (u' - now') = target \<and> now' \<le> u' else u' = now'"
    using stored_expiry_lemma [OF refl Some u(1,2) assms(4) u(3) assms(1)] by blast
  have "int (t - now') < int (u' - now')" using u'(3,4) u(4) by (auto split: if_splits)
  then have "t < u'" by simp
  then show ?thesis using u'(1,2) assms(2) by (simp add: manual_expired_def)
qed

end
