(* ===== verification/Daemon_Paths.thy ===== *)
theory Daemon_Paths
  imports End_To_End
begin

text \<open>
  How long a decision lasts in a running daemon. A run is a sequence of events: frames and their counting, ticks,
  reloads and requests in any order. Only ticks write automatic policies and drive the enforcer, and only a
  request that names the client writes its manual policy. So a punishment holds until its cooldown ends or
  another tick finds something else, and a manual block until it expires or another request for the client comes.
\<close>

section \<open>What the other threads leave alone\<close>

text \<open>The client whose manual policy a request sets.\<close>

definition ref_client :: "client_ref \<Rightarrow> client_id option" where
  "ref_client r = (case parse_ref r of Inr c \<Rightarrow> Some c | Inl _ \<Rightarrow> None)"

definition manual_client :: "json \<Rightarrow> client_id option" where
  "manual_client body =
     (case dec_request body of
        None \<Rightarrow> None
      | Some req \<Rightarrow>
          (case (rq_kind req, rq_params req) of
             (KThrottle, Some (PThrottle p)) \<Rightarrow> ref_client (th_client p)
           | (KUnthrottle, Some (PClient p)) \<Rightarrow> ref_client (clp_client p)
           | (KBlock, Some (PBlock p)) \<Rightarrow> ref_client (bp_client p)
           | (KUnblock, Some (PClient p)) \<Rightarrow> ref_client (clp_client p)
           | _ \<Rightarrow> None))"

definition manual_of :: "client_id option \<Rightarrow> 'p daemon_state \<Rightarrow> 'p daemon_state \<Rightarrow> bool" where
  "manual_of c st st' \<longleftrightarrow> st' = st \<or> (\<exists>c' m. c = Some c' \<and> st' = set_manual c' m st)"

lemma manual_of_cmds:
  "throttle_cmd env now now_sys tp st s = Some r \<Longrightarrow> manual_of (ref_client (th_client tp)) st (fst (snd r))"
  "block_cmd env now now_sys bp st s = Some r \<Longrightarrow> manual_of (ref_client (bp_client bp)) st (fst (snd r))"
  "manual_of (ref_client cref) st (fst (snd (clear_manual_throttle env now now_sys cref st s)))"
  "manual_of (ref_client cref) st (fst (snd (clear_manual_block env now now_sys cref st s)))"
  by (auto simp: manual_of_def ref_client_def throttle_cmd_def block_cmd_def clear_manual_throttle_def clear_manual_block_def
      finish_parts Let_def split: sum.splits option.splits)

lemma dispatch_manual_client:
  assumes "dispatch v env now now_sys req st s = Some r" "dec_request body = Some req"
  shows "manual_of (manual_client body) st (fst (snd r))"
proof -
  have same: "manual_of c st st" for c by (simp add: manual_of_def)
  show ?thesis
    using assms
    by (cases "rq_kind req"; cases "rq_params req"; cases "the (rq_params req)")
      (auto simp: dispatch_def manual_client_def Let_def same manual_of_cmds(3,4) dest!: manual_of_cmds(1,2))
qed

lemma execute_manual_client:
  assumes "execute v env now now_sys body st s = Some (Inr (resp, st', s'))"
  shows "manual_of (manual_client body) st st'"
  using assms dispatch_manual_client [of v env now now_sys _ st s "(resp, st', s')" body]
  by (auto simp: execute_def split: option.splits)

lemma does_keeps:
  assumes "daemon_does h ev dm dm'" "\<And>t. ev \<noteq> EvRound t"
  shows "state_in_force (dm_state dm') = state_in_force (dm_state dm)"
    and "state_enforces (dm_state dm') = state_enforces (dm_state dm)"
    and "(\<And>body. ev = EvRequest body \<Longrightarrow> manual_client body \<noteq> Some c) \<Longrightarrow>
      hm_get (ds_policies (dm_state dm')) c = hm_get (ds_policies (dm_state dm)) c"
    and "hm_get (ds_policies (dm_state dm)) c = Some p \<Longrightarrow>
      \<exists>p'. hm_get (ds_policies (dm_state dm')) c = Some p' \<and> cp_auto p' = cp_auto p"
proof -
  have same: "ds_enforcer (dm_state dm') = ds_enforcer (dm_state dm) \<and>
      (ds_policies (dm_state dm') = ds_policies (dm_state dm) \<or>
       (\<exists>body c' m. ev = EvRequest body \<and> manual_client body = Some c' \<and> dm_state dm' = set_manual c' m (dm_state dm)))"
    using assms
  proof (induction rule: daemon_does.induct)
    case (Round order dm now later now_sys dm')
    then show ?case by blast
  next
    case (Reload io dm st dir)
    then show ?case by (auto simp: try_reload_def swap_live_def split: prod.splits sum.splits)
  next
    case (Request v now now_sys body dm resp st store)
    then show ?case using execute_manual_client [OF Request(1)] by (auto simp: manual_of_def set_manual_def)
  qed simp_all
  then show "state_in_force (dm_state dm') = state_in_force (dm_state dm)"
    "state_enforces (dm_state dm') = state_enforces (dm_state dm)"
    by (simp_all add: fun_eq_iff state_in_force_def state_enforces_def)
  show "(\<And>body. ev = EvRequest body \<Longrightarrow> manual_client body \<noteq> Some c) \<Longrightarrow>
      hm_get (ds_policies (dm_state dm')) c = hm_get (ds_policies (dm_state dm)) c"
    "hm_get (ds_policies (dm_state dm)) c = Some p \<Longrightarrow>
      \<exists>p'. hm_get (ds_policies (dm_state dm')) c = Some p' \<and> cp_auto p' = cp_auto p"
    using same by (auto simp: set_manual_get hm_get_or_def)
qed

text \<open>A round is a tick on the state.\<close>

lemma round_decides:
  assumes "daemon_does h (EvRound t) dm dm'" "c \<in> tick_clients (dm_state dm)"
  shows "decided t (dm_state dm) (dm_state dm') c"
  using assms(1)
proof (rule daemon_roundE)
  fix order later now_sys
  assume order: "distinct order" "set order = tick_clients (dm_state dm)"
    and "decision_round (hs_store h) t order later now_sys dm = Some dm'"
  then have "tick t order (dm_state dm) = Some (dm_state dm')" by (auto simp: decision_round_def Let_def)
  then show ?thesis by (rule tick_correct_lemma(3) [OF _ order assms(2)])
qed

lemma round_enforces:
  assumes "daemon_does h (EvRound t) dm dm'"
  shows "state_enforces (dm_state dm') = state_enforces (dm_state dm)"
  using assms
proof (rule daemon_roundE)
  fix order later now_sys
  assume order: "distinct order" "set order = tick_clients (dm_state dm)"
    and "decision_round (hs_store h) t order later now_sys dm = Some dm'"
  then have "tick t order (dm_state dm) = Some (dm_state dm')" by (auto simp: decision_round_def Let_def)
  from tick_correct_lemma(2) [OF this order] show ?thesis by (simp add: agree_off_def)
qed

lemma policy_ticked: "hm_get (ds_policies st) c = Some p \<Longrightarrow> c \<in> tick_clients st"
  by (auto simp: tick_clients_def hm_keys_dom)

lemma round_possible:
  assumes "instant_add t (tick_cooldown (dm_state dm)) \<noteq> None"
  shows "\<exists>dm'. daemon_does h (EvRound t) dm dm'"
proof -
  obtain order where order: "distinct order" "set order = tick_clients (dm_state dm)"
    using finite_distinct_list [of "tick_clients (dm_state dm)"] by (auto simp: tick_clients_def)
  obtain st where "tick t order (dm_state dm) = Some st" using tick_None_iff [OF order, of t] assms by blast
  then obtain dm' where "decision_round (hs_store h) t order t 0 dm = Some dm'" by (simp add: decision_round_def)
  then show ?thesis using daemon_does.Round [OF order] by blast
qed

section \<open>A punishment lasts\<close>

text \<open>
  No tick of the run disturbs a punishment \<open>a\<close> of the client that lasts to \<open>until\<close>: each is before that time, and
  either finds no violation of the client or one that is punished as hard and as long.
\<close>

fun undisturbed :: "client_id \<Rightarrow> action \<Rightarrow> instant \<Rightarrow> ('p, 'r) daemon \<Rightarrow> (daemon_event \<times> ('p, 'r) daemon) list \<Rightarrow> bool" where
  "undisturbed c a until dm [] \<longleftrightarrow> True"
| "undisturbed c a until dm ((ev, dm') # path) \<longleftrightarrow>
     (case ev of
        EvRound t \<Rightarrow>
          t < until \<and>
          (client_violations t (dm_state dm) c = [] \<or>
           (\<exists>w \<in> set (client_violations t (dm_state dm) c). action_rank a \<le> action_rank (v_action w)) \<and>
           until \<le> t + tick_cooldown (dm_state dm))
      | _ \<Rightarrow> True) \<and>
     undisturbed c a until dm' path"

definition punished :: "client_id \<Rightarrow> action \<Rightarrow> instant \<Rightarrow> 'p daemon_state \<Rightarrow> bool" where
  "punished c a until st \<longleftrightarrow>
     (\<exists>p w u. hm_get (ds_policies st) c = Some p \<and> cp_auto p = Some (policy_of w u) \<and> until \<le> u \<and>
        action_rank a \<le> action_rank (v_action w)) \<and>
     (state_enforces st c \<longrightarrow> at_least a (state_in_force st c))"

definition valid_action :: "action \<Rightarrow> bool" where
  "valid_action a \<longleftrightarrow> (\<forall>d. a = ActThrottle d \<longrightarrow> d \<le> 100)"

lemma auto_at_least:
  assumes "cp_auto p = Some (policy_of w u)" "t < u" "action_rank a \<le> action_rank (v_action w)" "valid_action a"
  shows "at_least a (merge_policy p t)"
  using policy_of_at_least [of p w u t "\<lparr>v_rule_id = [], v_value = 0, v_limit = 0, v_action = a\<rparr>"] assms
  by (simp add: valid_action_def)

lemma violation_punishes:
  assumes "daemon_does h (EvRound t) dm dm'" "c \<in> tick_clients (dm_state dm)"
    and "\<exists>w \<in> set (client_violations t (dm_state dm) c). action_rank a \<le> action_rank (v_action w)"
    and "until \<le> t + tick_cooldown (dm_state dm)" "valid_action a"
  shows "punished c a until (dm_state dm')"
proof -
  obtain p where p: "client_decision t (dm_state dm) c = Some p" "hm_get (ds_policies (dm_state dm')) c = Some p"
    "state_enforces (dm_state dm) c \<Longrightarrow> state_in_force (dm_state dm') c = merge_policy p t"
    using round_decides [OF assms(1,2)] by (auto simp: decided_def)
  have "client_violations t (dm_state dm) c \<noteq> []" using assms(3) by auto
  from client_decision_strongest [OF p(1) this] assms(3)
  obtain w where w: "cp_auto p = Some (policy_of w (t + tick_cooldown (dm_state dm)))" "action_rank a \<le> action_rank (v_action w)"
    by (meson order_trans)
  have "at_least a (merge_policy p t)"
    using auto_at_least [OF w(1) _ w(2) assms(5)] tick_cooldown_pos [of "dm_state dm"] by simp
  with p w assms(4) round_enforces [OF assms(1)] show ?thesis by (auto simp: punished_def)
qed

lemma punished_kept:
  assumes "punished c a until (dm_state dm)" "valid_action a" "daemon_does h ev dm dm'"
    and "undisturbed c a until dm [(ev, dm')]"
  shows "punished c a until (dm_state dm')"
proof -
  obtain p w u where p: "hm_get (ds_policies (dm_state dm)) c = Some p" "cp_auto p = Some (policy_of w u)" "until \<le> u"
    "action_rank a \<le> action_rank (v_action w)"
    using assms(1) by (auto simp: punished_def)
  show ?thesis
  proof (cases "\<exists>t. ev = EvRound t")
    case False
    then show ?thesis
      using does_keeps [OF assms(3)] does_keeps(4) [OF assms(3) _ p(1)] p assms(1) by (fastforce simp: punished_def)
  next
    case True
    then obtain t where t: "ev = EvRound t" by blast
    note round = assms(3) [unfolded t] and c = policy_ticked [OF p(1)]
    show ?thesis
    proof (cases "client_violations t (dm_state dm) c = []")
      case True
      obtain q where q: "client_decision t (dm_state dm) c = Some q" "hm_get (ds_policies (dm_state dm')) c = Some q"
        "state_enforces (dm_state dm) c \<Longrightarrow> state_in_force (dm_state dm') c = merge_policy q t"
        using round_decides [OF round c] by (auto simp: decided_def)
      have "t < u" using assms(4) p(3) by (simp add: t)
      then have auto: "cp_auto q = Some (policy_of w u)"
        using client_decision_policies(2) [OF q(1) True] p(1,2)
        by (simp add: hm_get_or_def filter_opt_def auto_expired_def policy_of_def)
      then have "at_least a (merge_policy q t)" by (rule auto_at_least [OF _ \<open>t < u\<close> p(4) assms(2)])
      with q auto p(3,4) round_enforces [OF round] show ?thesis by (auto simp: punished_def)
    next
      case False
      then show ?thesis using assms(4) by (intro violation_punishes [OF round c _ _ assms(2)]) (simp_all add: t)
    qed
  qed
qed

lemma punished_path:
  assumes "daemon_history h dm path" "punished c a until (dm_state dm)" "valid_action a" "undisturbed c a until dm path"
    and "(ev, d) \<in> set path"
  shows "punished c a until (dm_state d)"
  using assms
proof (induction path arbitrary: dm)
  case (Cons x path)
  obtain ev1 dm1 where x: "x = (ev1, dm1)" by (cases x)
  have "punished c a until (dm_state dm1)"
    using Cons.prems by (intro punished_kept [of c a until dm h ev1 dm1]) (simp_all add: x)
  then show ?case using Cons.prems Cons.IH [of dm1] by (auto simp: x)
qed simp

section \<open>A manual block lasts\<close>

definition blocked_by :: "client_id \<Rightarrow> manual_policy \<Rightarrow> 'p daemon_state \<Rightarrow> bool" where
  "blocked_by c m st \<longleftrightarrow> (\<exists>p. hm_get (ds_policies st) c = Some p \<and> cp_manual p = Some m)"

text \<open>The run has no request for the client, and no tick at which the policy has expired.\<close>

definition left_alone :: "client_id \<Rightarrow> manual_policy \<Rightarrow> (daemon_event \<times> ('p, 'r) daemon) list \<Rightarrow> bool" where
  "left_alone c m path \<longleftrightarrow>
     (\<forall>(ev, d) \<in> set path.
        case ev of
          EvRequest body \<Rightarrow> manual_client body \<noteq> Some c
        | EvRound t \<Rightarrow> \<not> manual_expired m t
        | _ \<Rightarrow> True)"

lemma block_kept:
  assumes "blocked_by c m (dm_state dm)" "mp_blocked m" "daemon_does h ev dm dm'" "left_alone c m [(ev, dm')]"
  shows "blocked_by c m (dm_state dm')"
    and "state_enforces (dm_state dm') = state_enforces (dm_state dm)"
    and "ev = EvRound t \<Longrightarrow> state_enforces (dm_state dm) c \<Longrightarrow> state_in_force (dm_state dm') c = EffBlock"
proof -
  obtain p where p: "hm_get (ds_policies (dm_state dm)) c = Some p" "cp_manual p = Some m"
    using assms(1) by (auto simp: blocked_by_def)
  show "state_enforces (dm_state dm') = state_enforces (dm_state dm)"
    using does_keeps(2) [OF assms(3)] round_enforces assms(3) by (cases "\<exists>t. ev = EvRound t") auto
  have round: "blocked_by c m (dm_state dm') \<and>
      (state_enforces (dm_state dm) c \<longrightarrow> state_in_force (dm_state dm') c = EffBlock)" if t: "ev = EvRound t" for t
  proof -
    obtain q where q: "client_decision t (dm_state dm) c = Some q" "hm_get (ds_policies (dm_state dm')) c = Some q"
      "state_enforces (dm_state dm) c \<Longrightarrow> state_in_force (dm_state dm') c = merge_policy q t"
      using round_decides [OF assms(3) [unfolded t] policy_ticked [OF p(1)]] by (auto simp: decided_def)
    have live: "\<not> manual_expired m t" using assms(4) by (simp add: left_alone_def t)
    then have m: "cp_manual q = Some m"
      using client_decision_policies(1) [OF q(1)] p by (simp add: hm_get_or_def filter_opt_def)
    then have "manual_blocks q t"
      using live assms(2) by (simp add: manual_blocks_def active_manual_def filter_opt_def)
    then have "merge_policy q t = EffBlock" using merge_policy_blocked [of q t] by (simp add: is_blocked_def)
    with q m show ?thesis by (auto simp: blocked_by_def)
  qed
  then show "ev = EvRound t \<Longrightarrow> state_enforces (dm_state dm) c \<Longrightarrow> state_in_force (dm_state dm') c = EffBlock" by blast
  show "blocked_by c m (dm_state dm')"
  proof (cases "\<exists>t. ev = EvRound t")
    case False
    then have "hm_get (ds_policies (dm_state dm')) c = hm_get (ds_policies (dm_state dm)) c"
      using assms(4) by (intro does_keeps(3) [OF assms(3)]) (auto simp: left_alone_def)
    then show ?thesis using assms(1) by (simp add: blocked_by_def)
  qed (use round in blast)
qed

lemma block_path:
  assumes "daemon_history h dm path" "blocked_by c m (dm_state dm)" "mp_blocked m" "state_enforces (dm_state dm) c"
    and "left_alone c m path" "(EvRound t, d) \<in> set path"
  shows "state_in_force (dm_state d) c = EffBlock"
  using assms
proof (induction path arbitrary: dm)
  case (Cons x path)
  obtain ev dm1 where x: "x = (ev, dm1)" by (cases x)
  have does: "daemon_does h ev dm dm1" "left_alone c m [(ev, dm1)]" "left_alone c m path"
    using Cons.prems by (simp_all add: x left_alone_def)
  note kept = block_kept [OF Cons.prems(2,3) does(1,2)]
  show ?case using Cons.prems does(3) kept Cons.IH [of dm1] by (auto simp: x)
qed simp

end
