(* ===== verification/Lock_Order.thy ===== *)
theory Lock_Order
  imports MW_Prelude
begin

text \<open>
  The mutexes of the daemon and the order in which its threads take them
  (\<open>crates/microwaf/src/state.rs\<close>, \<open>decision.rs\<close>, \<open>ipc.rs\<close>, \<open>store.rs\<close>, the counters, the enforcers and the
  stores). A thread is the list of mutex operations it still has to do. Threads that take
  mutexes by increasing rank, or under a guard, always come to their end; a \<open>top\<close> and a \<open>listClients\<close>
  request take two of them in opposite orders, and only the two together can block.
\<close>

section \<open>Mutexes and what each operation does to them\<close>

text \<open>
  The mutexes of \<open>DaemonState\<close>, those inside its counters, the map inside the active enforcer, and
  the mutex of the store.
\<close>

datatype mutex = LastCounters | Windows | Policies | WouldBe | EnforcerSlot | EnforcerMap | ByRule | ByClient | StoreMutex

datatype mutex_op = Acq mutex | Rel mutex

definition while_held :: "mutex \<Rightarrow> mutex_op list \<Rightarrow> mutex_op list" where
  "while_held l ops = Acq l # ops @ [Rel l]"

text \<open>\<open>DaemonState::apply\<close> and \<open>clear\<close>; \<open>inner\<close> says whether the enforcer takes its own mutex.\<close>

definition enforcer_ops :: "bool \<Rightarrow> mutex_op list" where
  "enforcer_ops inner = while_held EnforcerSlot (if inner then while_held EnforcerMap [] else [])"

definition apply_ops :: "bool \<Rightarrow> bool \<Rightarrow> mutex_op list" where
  "apply_ops permissive inner = (if permissive then while_held WouldBe [] else []) @ enforcer_ops inner"

definition clear_ops :: "bool \<Rightarrow> mutex_op list" where
  "clear_ops inner = while_held WouldBe [] @ enforcer_ops inner"

text \<open>\<open>tick\<close> over its clients: each is applied or cleared.\<close>

datatype tick_action = TickApply bool | TickClear bool

fun tick_action_ops :: "bool \<Rightarrow> tick_action \<Rightarrow> mutex_op list" where
  "tick_action_ops permissive (TickApply inner) = apply_ops permissive inner"
| "tick_action_ops permissive (TickClear inner) = clear_ops inner"

definition tick_ops :: "bool \<Rightarrow> tick_action list \<Rightarrow> mutex_op list" where
  "tick_ops permissive acts =
     while_held ByRule [] @
     while_held LastCounters (while_held Windows (while_held Policies (concat (map (tick_action_ops permissive) acts))))"

definition snapshot_stats_ops :: "bool \<Rightarrow> mutex_op list" where
  "snapshot_stats_ops nonempty = while_held ByClient [] @ (if nonempty then while_held StoreMutex [] else [])"

text \<open>The commands: those on manual policies reach the store with the policies still held.\<close>

definition list_clients_ops :: "mutex_op list" where
  "list_clients_ops = while_held Policies (while_held WouldBe (while_held ByClient []))"

definition top_ops :: "mutex_op list" where
  "top_ops = while_held Windows (while_held WouldBe (while_held Policies (while_held ByClient [])))"

definition manual_policy_ops :: "bool \<Rightarrow> mutex_op list" where
  "manual_policy_ops persists = while_held Policies (if persists then while_held StoreMutex [] else [])"

text \<open>The counters as the sniffer moves them.\<close>

definition counter_add_ops :: "mutex_op list" where
  "counter_add_ops = while_held ByRule [] @ while_held ByClient []"

definition add_ws_connection_ops :: "mutex_op list" where
  "add_ws_connection_ops = while_held ByClient []"

section \<open>Threads\<close>

record lock_thread =
  held :: "mutex list"
  todo :: "mutex_op list"

definition thread_new :: "mutex_op list \<Rightarrow> lock_thread" where
  "thread_new ops = \<lparr>held = [], todo = ops\<rparr>"

definition is_free :: "mutex \<Rightarrow> lock_thread list \<Rightarrow> bool" where
  "is_free l ts \<longleftrightarrow> (\<forall>t \<in> set ts. l \<notin> set (held t))"

text \<open>A mutex that any thread holds, the same one included, cannot be taken.\<close>

inductive lock_step :: "lock_thread list \<Rightarrow> lock_thread list \<Rightarrow> bool" where
  acquire: "i < length ts \<Longrightarrow> todo (ts ! i) = Acq l # ops \<Longrightarrow> is_free l ts \<Longrightarrow>
    lock_step ts (ts[i := \<lparr>held = l # held (ts ! i), todo = ops\<rparr>])"
| release: "i < length ts \<Longrightarrow> todo (ts ! i) = Rel l # ops \<Longrightarrow>
    lock_step ts (ts[i := \<lparr>held = removeAll l (held (ts ! i)), todo = ops\<rparr>])"

definition all_done :: "lock_thread list \<Rightarrow> bool" where
  "all_done ts \<longleftrightarrow> (\<forall>t \<in> set ts. todo t = [])"

definition stuck :: "lock_thread list \<Rightarrow> bool" where
  "stuck ts \<longleftrightarrow> \<not> all_done ts \<and> (\<forall>ts'. \<not> lock_step ts ts')"

section \<open>Taking mutexes by increasing rank\<close>

lemma step_shorter:
  assumes "lock_step ts ts'"
  shows "sum_list (map (length \<circ> todo) ts') < sum_list (map (length \<circ> todo) ts)"
proof -
  have "sum_list (map f (ts[i := t])) < sum_list (map f ts)" if "i < length ts" "f t < f (ts ! i)"
    for f :: "lock_thread \<Rightarrow> nat" and i t ts
    using that by (induction ts arbitrary: i) (auto simp: less_Suc_eq_0_disj)
  note shorter = this
  from assms show ?thesis by (induction rule: lock_step.induct) (rule shorter, simp_all)+
qed

text \<open>
  A mutex may have a guard: it is then taken only while the guard is held, and given back before the
  guard, so no two threads can contend for it. The others are taken by increasing rank.
\<close>

definition may_take :: "(mutex \<Rightarrow> nat) \<Rightarrow> (mutex \<Rightarrow> mutex option) \<Rightarrow> mutex list \<Rightarrow> mutex \<Rightarrow> bool" where
  "may_take rk gd h l \<longleftrightarrow> l \<notin> set h \<and>
     (case gd l of Some g \<Rightarrow> g \<in> set h | None \<Rightarrow> \<forall>k \<in> set h. gd k = None \<longrightarrow> rk k < rk l)"

fun ranked :: "(mutex \<Rightarrow> nat) \<Rightarrow> (mutex \<Rightarrow> mutex option) \<Rightarrow> mutex list \<Rightarrow> mutex_op list \<Rightarrow> bool" where
  "ranked rk gd h [] \<longleftrightarrow> h = []"
| "ranked rk gd h (Acq l # ops) \<longleftrightarrow> may_take rk gd h l \<and> ranked rk gd (l # h) ops"
| "ranked rk gd h (Rel l # ops) \<longleftrightarrow> (\<forall>k \<in> set h. gd k \<noteq> Some l) \<and> ranked rk gd (removeAll l h) ops"

text \<open>No mutex is held twice, and every guarded mutex is held together with its guard.\<close>

definition exclusive :: "lock_thread list \<Rightarrow> bool" where
  "exclusive ts \<longleftrightarrow>
     (\<forall>i < length ts. \<forall>j < length ts. \<forall>l. l \<in> set (held (ts ! i)) \<longrightarrow> l \<in> set (held (ts ! j)) \<longrightarrow> i = j)"

definition guarded :: "(mutex \<Rightarrow> mutex option) \<Rightarrow> mutex list \<Rightarrow> bool" where
  "guarded gd h \<longleftrightarrow> (\<forall>l \<in> set h. \<forall>g. gd l = Some g \<longrightarrow> g \<in> set h)"

lemma exclusive_step: "lock_step ts ts' \<Longrightarrow> exclusive ts \<Longrightarrow> exclusive ts'"
proof (induction rule: lock_step.induct)
  case (acquire i ts l ops)
  then have "l \<notin> set (held (ts ! j))" if "j < length ts" for j using that by (simp add: is_free_def)
  with acquire show ?case unfolding exclusive_def by (auto simp: nth_list_update split: if_splits)
next
  case (release i ts l ops)
  then show ?case unfolding exclusive_def by (auto simp: nth_list_update split: if_splits)
qed

locale ranked_threads =
  fixes rk :: "mutex \<Rightarrow> nat" and gd :: "mutex \<Rightarrow> mutex option" and programs :: "mutex_op list set"
  assumes ranked_programs: "ops \<in> programs \<Longrightarrow> ranked rk gd [] ops"
begin

definition sound :: "lock_thread list \<Rightarrow> bool" where
  "sound ts \<longleftrightarrow> exclusive ts \<and> (\<forall>t \<in> set ts. ranked rk gd (held t) (todo t) \<and> guarded gd (held t))"

lemma sound_new: "set opss \<subseteq> programs \<Longrightarrow> sound (map thread_new opss)"
  using ranked_programs by (auto simp: sound_def thread_new_def exclusive_def guarded_def)

lemma sound_step: "lock_step ts ts' \<Longrightarrow> sound ts \<Longrightarrow> sound ts'"
proof -
  assume step: "lock_step ts ts'" and sound: "sound ts"
  have ex: "exclusive ts'" using exclusive_step [OF step] sound by (simp add: sound_def)
  have "\<forall>t \<in> set ts'. ranked rk gd (held t) (todo t) \<and> guarded gd (held t)"
    using step sound
  proof (induction rule: lock_step.induct)
    case (acquire i ts l ops)
    then have "ranked rk gd (held (ts ! i)) (Acq l # ops) \<and> guarded gd (held (ts ! i))" by (metis nth_mem sound_def)
    then have "ranked rk gd (l # held (ts ! i)) ops \<and> guarded gd (l # held (ts ! i))"
      by (auto simp: guarded_def may_take_def)
    with acquire show ?case by (auto simp: sound_def dest!: subsetD [OF set_update_subset_insert])
  next
    case (release i ts l ops)
    then have "ranked rk gd (held (ts ! i)) (Rel l # ops) \<and> guarded gd (held (ts ! i))" by (metis nth_mem sound_def)
    then have "ranked rk gd (removeAll l (held (ts ! i))) ops \<and> guarded gd (removeAll l (held (ts ! i)))"
      by (auto simp: guarded_def)
    with release show ?case by (auto simp: sound_def dest!: subsetD [OF set_update_subset_insert])
  qed
  with ex show ?thesis by (simp add: sound_def)
qed

text \<open>A guarded mutex is free for the thread that holds its guard.\<close>

lemma guarded_free:
  assumes "sound ts" "i < length ts" "todo (ts ! i) = Acq l # ops" "gd l = Some g"
  shows "is_free l ts"
proof -
  have i: "l \<notin> set (held (ts ! i))" "g \<in> set (held (ts ! i))"
    using assms by (auto simp: sound_def may_take_def dest!: nth_mem)
  have "l \<notin> set (held (ts ! j))" if j: "j < length ts" for j
  proof
    assume l: "l \<in> set (held (ts ! j))"
    then have "g \<in> set (held (ts ! j))" using assms(1,4) j by (simp add: sound_def guarded_def)
    then have "i = j" using assms(1,2) i(2) j unfolding sound_def exclusive_def by blast
    with l i(1) show False by simp
  qed
  then show ?thesis unfolding is_free_def by (metis in_set_conv_nth)
qed

text \<open>
  If no thread can go on, each that is not done waits for an unguarded mutex that another holds. One of them
  wants a mutex of the largest rank, and the holder would have to want one of a larger rank still.
\<close>

lemma blocked_waits:
  assumes "sound ts" "\<nexists>ts'. lock_step ts ts'" "t \<in> set ts" "todo t \<noteq> []"
  obtains l ops where "todo t = Acq l # ops" "gd l = None" "\<not> is_free l ts"
proof -
  obtain i where i: "i < length ts" "t = ts ! i" using assms(3) by (metis in_set_conv_nth)
  obtain op ops where op: "todo t = op # ops" using assms(4) by (cases "todo t") simp_all
  then obtain l where l: "op = Acq l" using assms(2) lock_step.release [of i ts _ ops] i by (cases op) auto
  then have "\<not> is_free l ts" using assms(2) lock_step.acquire [of i ts l ops] i op by auto
  moreover from this have "gd l = None" using guarded_free [OF assms(1) i(1)] i(2) op l by fastforce
  ultimately show thesis using that op l by blast
qed

lemma progress:
  assumes "sound ts" "\<not> all_done ts"
  shows "\<exists>ts'. lock_step ts ts'"
proof (rule ccontr)
  assume no: "\<nexists>ts'. lock_step ts ts'"
  define want where "want t = (case hd (todo t) of Acq l \<Rightarrow> l | Rel l \<Rightarrow> l)" for t :: lock_thread
  define U where "U = {t \<in> set ts. todo t \<noteq> []}"
  have waits: "(\<exists>ops. todo t = Acq (want t) # ops) \<and> gd (want t) = None \<and> \<not> is_free (want t) ts" if "t \<in> U" for t
  proof -
    have "t \<in> set ts" "todo t \<noteq> []" using that by (simp_all add: U_def)
    then obtain l ops where "todo t = Acq l # ops" "gd l = None" "\<not> is_free l ts"
      using blocked_waits [OF assms(1) no] by metis
    then show ?thesis by (simp add: want_def)
  qed
  have fin: "finite U" by (simp add: U_def)
  have "U \<noteq> {}" using assms(2) unfolding all_done_def U_def by blast
  then have "Max ((\<lambda>t. rk (want t)) ` U) \<in> (\<lambda>t. rk (want t)) ` U" using fin by (intro Max_in) simp_all
  then obtain t where t: "t \<in> U" "rk (want t) = Max ((\<lambda>t. rk (want t)) ` U)" by (metis (no_types, lifting) image_iff)
  then obtain u where u: "u \<in> set ts" "want t \<in> set (held u)" using waits unfolding is_free_def by blast
  then have rku: "ranked rk gd (held u) (todo u)" using assms(1) by (simp add: sound_def)
  then have "todo u \<noteq> []" using u(2) by (cases "todo u") auto
  then have U: "u \<in> U" using u(1) by (simp add: U_def)
  have "rk (want t) < rk (want u)" using rku u(2) waits [OF t(1)] waits [OF U] by (auto simp: may_take_def)
  moreover have "rk (want u) \<le> Max ((\<lambda>t. rk (want t)) ` U)" using fin U by (intro Max_ge) simp_all
  ultimately show False using t(2) by simp
qed

lemma sound_reach: "lock_step\<^sup>*\<^sup>* ts ts' \<Longrightarrow> sound ts \<Longrightarrow> sound ts'"
  by (induction rule: rtranclp_induct) (auto intro: sound_step)

lemma completes: "sound ts \<Longrightarrow> \<exists>ts'. lock_step\<^sup>*\<^sup>* ts ts' \<and> all_done ts'"
proof (induction "sum_list (map (length \<circ> todo) ts)" arbitrary: ts rule: less_induct)
  case less
  show ?case
  proof (cases "all_done ts")
    case True
    then show ?thesis by blast
  next
    case False
    then obtain ts' where step: "lock_step ts ts'" using progress less.prems by blast
    then obtain ts'' where "lock_step\<^sup>*\<^sup>* ts' ts''" "all_done ts''"
      using less.hyps [OF step_shorter [OF step] sound_step [OF step less.prems]] by blast
    then show ?thesis using step by (meson converse_rtranclp_into_rtranclp)
  qed
qed

end

section \<open>The daemon's threads\<close>

fun mutex_rank :: "mutex \<Rightarrow> nat" where
  "mutex_rank LastCounters = 0"
| "mutex_rank Windows = 1"
| "mutex_rank Policies = 2"
| "mutex_rank WouldBe = 3"
| "mutex_rank EnforcerSlot = 4"
| "mutex_rank EnforcerMap = 5"
| "mutex_rank ByRule = 6"
| "mutex_rank ByClient = 7"
| "mutex_rank StoreMutex = 8"

text \<open>All operations, and the threads that do any number of operations of a set one after the other.\<close>

definition daemon_paths :: "mutex_op list set" where
  "daemon_paths = {tick_ops permissive acts | permissive acts. True} \<union> range manual_policy_ops \<union>
     range snapshot_stats_ops \<union> {list_clients_ops, top_ops, counter_add_ops, add_ws_connection_ops}"

definition programs_of :: "mutex_op list set \<Rightarrow> mutex_op list set" where
  "programs_of paths = {concat ps | ps. set ps \<subseteq> paths}"

text \<open>Operations that take and give back mutexes, with some already held.\<close>

definition nests :: "(mutex \<Rightarrow> nat) \<Rightarrow> (mutex \<Rightarrow> mutex option) \<Rightarrow> mutex list \<Rightarrow> mutex_op list \<Rightarrow> bool" where
  "nests rk gd h ops \<longleftrightarrow> (\<forall>rest. ranked rk gd h rest \<longrightarrow> ranked rk gd h (ops @ rest))"

lemma nests_simps [simp]: "nests rk gd h []"
  by (simp add: nests_def)

lemma nests_append: "nests rk gd h a \<Longrightarrow> nests rk gd h b \<Longrightarrow> nests rk gd h (a @ b)"
  by (simp add: nests_def)

lemma nests_concat: "(\<And>a. a \<in> set as \<Longrightarrow> nests rk gd h a) \<Longrightarrow> nests rk gd h (concat as)"
  by (induction as) (simp_all add: nests_append)

lemma nests_while_held:
  assumes "may_take rk gd h l" "\<And>k. k \<in> set (l # h) \<Longrightarrow> gd k \<noteq> Some l" "nests rk gd (l # h) ops"
  shows "nests rk gd h (while_held l ops)"
proof -
  have "removeAll l h = h" using assms(1) by (intro removeAll_id) (simp add: may_take_def)
  then show ?thesis using assms by (simp add: nests_def while_held_def)
qed

lemma nests_programs:
  assumes "\<And>ops. ops \<in> paths \<Longrightarrow> nests rk gd [] ops" "ops \<in> programs_of paths"
  shows "ranked rk gd [] ops"
proof -
  have "nests rk gd [] ops" using assms by (auto simp: programs_of_def intro!: nests_concat)
  then show ?thesis unfolding nests_def by (metis append_Nil2 ranked.simps(1))
qed

lemmas nests_intros = nests_append nests_while_held nests_concat

lemmas path_defs = apply_ops_def clear_ops_def enforcer_ops_def manual_policy_ops_def snapshot_stats_ops_def
  list_clients_ops_def top_ops_def counter_add_ops_def add_ws_connection_ops_def

text \<open>Without \<open>top\<close>, all mutexes are taken by rank. Without \<open>listClients\<close>, the windows guard the would-be actions.\<close>

abbreviation no_guard :: "mutex \<Rightarrow> mutex option" where
  "no_guard \<equiv> \<lambda>_. None"

abbreviation windows_guard :: "mutex \<Rightarrow> mutex option" where
  "windows_guard \<equiv> [WouldBe \<mapsto> Windows]"

lemma tick_nests:
  assumes "gd = no_guard \<or> gd = windows_guard"
  shows "nests mutex_rank gd [] (tick_ops permissive acts)"
proof -
  have "nests mutex_rank gd [Policies, Windows, LastCounters] (tick_action_ops permissive a)" for a
    using assms by (cases a) (auto simp: path_defs may_take_def intro!: nests_intros split: if_splits)
  then show ?thesis unfolding tick_ops_def using assms
    by (intro nests_intros) (auto simp: may_take_def split: if_splits)
qed

lemma paths_nest_without_top: "ops \<in> daemon_paths - {top_ops} \<Longrightarrow> nests mutex_rank no_guard [] ops"
  unfolding daemon_paths_def by (auto simp: path_defs may_take_def intro!: nests_intros tick_nests)

lemma paths_nest_without_list: "ops \<in> daemon_paths - {list_clients_ops} \<Longrightarrow> nests mutex_rank windows_guard [] ops"
  unfolding daemon_paths_def
  by (auto simp: path_defs may_take_def intro!: nests_intros tick_nests split: if_splits)

interpretation without_top: ranked_threads mutex_rank no_guard "programs_of (daemon_paths - {top_ops})"
  by unfold_locales (rule nests_programs [OF paths_nest_without_top])

interpretation without_list: ranked_threads mutex_rank windows_guard "programs_of (daemon_paths - {list_clients_ops})"
  by unfold_locales (rule nests_programs [OF paths_nest_without_list])

text \<open>
  C9: threads that do any sequences of the daemon's operations (ticks, stats snapshots, the commands, counter
  updates), in any number and interleaved in any way, never block each other for good, as long as
  no \<open>top\<close> or no \<open>listClients\<close> is among them: whatever has happened so far, some thread can go on until
  all of them have done their work.
\<close>

theorem threads_complete:
  assumes "banned \<in> {top_ops, list_clients_ops}" "set opss \<subseteq> programs_of (daemon_paths - {banned})"
    and "lock_step\<^sup>*\<^sup>* (map thread_new opss) ts"
  shows "\<not> stuck ts \<and> (\<exists>ts'. lock_step\<^sup>*\<^sup>* ts ts' \<and> all_done ts')"
  using assms(1)
proof
  assume "banned = top_ops"
  then have "without_top.sound ts"
    using assms(2) by (intro without_top.sound_reach [OF assms(3)] without_top.sound_new) simp
  then show ?thesis using without_top.progress [of ts] without_top.completes [of ts] unfolding stuck_def by blast
next
  assume "banned \<in> {list_clients_ops}"
  then have "without_list.sound ts"
    using assms(2) by (intro without_list.sound_reach [OF assms(3)] without_list.sound_new) simp
  then show ?thesis using without_list.progress [of ts] without_list.completes [of ts] unfolding stuck_def by blast
qed

theorem threads_complete_witness:
  "\<exists>ts. lock_step\<^sup>*\<^sup>* (map thread_new [tick_ops True [TickApply True, TickClear False], top_ops]) ts \<and> all_done ts"
proof -
  have one: "ops \<in> paths \<Longrightarrow> ops \<in> programs_of paths" for ops paths
    by (auto simp: programs_of_def intro!: exI [of _ "[ops]"])
  have "tick_ops p a \<noteq> list_clients_ops" "top_ops \<noteq> list_clients_ops" for p a
    by (simp_all add: tick_ops_def top_ops_def list_clients_ops_def while_held_def)
  moreover have "tick_ops p a \<in> daemon_paths" "top_ops \<in> daemon_paths" for p a unfolding daemon_paths_def by blast+
  ultimately have "set [tick_ops True [TickApply True, TickClear False], top_ops] \<subseteq> programs_of (daemon_paths - {list_clients_ops})"
    by (auto intro!: one)
  from threads_complete [OF _ this rtranclp.rtrancl_refl] show ?thesis by blast
qed

section \<open>The deadlock of top and listClients\<close>

text \<open>A schedule names the thread that makes each step.\<close>

definition step_of :: "nat \<Rightarrow> lock_thread list \<Rightarrow> lock_thread list option" where
  "step_of i ts =
     (if i < length ts then
        (case todo (ts ! i) of
           [] \<Rightarrow> None
         | Acq l # ops \<Rightarrow> if is_free l ts then Some (ts[i := \<lparr>held = l # held (ts ! i), todo = ops\<rparr>]) else None
         | Rel l # ops \<Rightarrow> Some (ts[i := \<lparr>held = removeAll l (held (ts ! i)), todo = ops\<rparr>]))
      else None)"

lemma step_of_sound: "step_of i ts = Some ts' \<Longrightarrow> lock_step ts ts'"
  by (auto simp: step_of_def lock_step.simps split: if_splits list.splits mutex_op.splits)

lemma step_of_complete: "lock_step ts ts' \<Longrightarrow> \<exists>i. step_of i ts = Some ts'"
proof (induction rule: lock_step.induct)
  case (acquire i ts l ops)
  then have "step_of i ts = Some (ts[i := \<lparr>held = l # held (ts ! i), todo = ops\<rparr>])" by (simp add: step_of_def)
  then show ?case ..
next
  case (release i ts l ops)
  then have "step_of i ts = Some (ts[i := \<lparr>held = removeAll l (held (ts ! i)), todo = ops\<rparr>])" by (simp add: step_of_def)
  then show ?case ..
qed

fun run_schedule :: "nat list \<Rightarrow> lock_thread list \<Rightarrow> lock_thread list option" where
  "run_schedule [] ts = Some ts"
| "run_schedule (i # is) ts = (case step_of i ts of None \<Rightarrow> None | Some ts' \<Rightarrow> run_schedule is ts')"

lemma run_schedule_reach: "run_schedule is ts = Some ts' \<Longrightarrow> lock_step\<^sup>*\<^sup>* ts ts'"
  by (induction "is" ts rule: run_schedule.induct)
    (auto split: option.splits dest: step_of_sound intro: converse_rtranclp_into_rtranclp)

text \<open>
  C25: a \<open>top\<close> request and a \<open>listClients\<close> request that run at the same time can block each other for
  good, since they take the policies and the would-be actions in opposite orders; a tick
  that starts then blocks as well, so the decision loop stops.
\<close>

theorem top_deadlocks_list_clients:
  "\<exists>ts. lock_step\<^sup>*\<^sup>* (map thread_new [top_ops, list_clients_ops, tick_ops permissive acts]) ts \<and>
     stuck ts \<and> [] \<notin> set (map todo ts)"
proof -
  let ?start = "map thread_new [top_ops, list_clients_ops, tick_ops permissive acts]"
  obtain ts where ts: "run_schedule [0, 0, 1, 2, 2, 2] ?start = Some ts" and
    shape: "held (ts ! 0) = [WouldBe, Windows]" "held (ts ! 1) = [Policies]" "held (ts ! 2) = [LastCounters]"
      "hd (todo (ts ! 0)) = Acq Policies" "hd (todo (ts ! 1)) = Acq WouldBe" "hd (todo (ts ! 2)) = Acq Windows"
      "todo (ts ! 0) \<noteq> []" "todo (ts ! 1) \<noteq> []" "todo (ts ! 2) \<noteq> []" "length ts = 3"
    by (simp add: step_of_def thread_new_def top_ops_def list_clients_ops_def tick_ops_def while_held_def is_free_def)
  have set: "set ts = {ts ! 0, ts ! 1, ts ! 2}"
    using shape(10) by (auto simp: set_conv_nth numeral_eq_Suc less_Suc_eq)
  have "step_of i ts = None" for i
  proof (cases "i < 3")
    case True
    then have "i = 0 \<or> i = 1 \<or> i = 2" by auto
    then show ?thesis
      using shape by (elim disjE) (auto simp: step_of_def is_free_def set split: list.split mutex_op.split)
  qed (simp add: step_of_def shape)
  then have "\<not> lock_step ts ts'" for ts' using step_of_complete [of ts ts'] by auto
  then have "stuck ts" using shape by (auto simp: stuck_def all_done_def set)
  moreover have "[] \<notin> set (map todo ts)" using shape by (auto simp: set)
  ultimately show ?thesis using run_schedule_reach [OF ts] by blast
qed

end
