(* ===== verification/Bpf_Loader.thy ===== *)
theory Bpf_Loader
  imports Daemon_Run
begin

text \<open>
  How the XDP program gets into the binary and onto the interfaces: the build script
  \<open>crates/microwaf/build.rs\<close>, and \<open>bpf_object_bytes\<close> and \<open>load_and_attach_aya_multi\<close> of
  \<open>crates/microwaf/src/ebpf.rs\<close>. The aya library acts on a kernel state; its functions, and the
  \<open>cargo\<close> process that the build script starts, are arguments. The files are an association list, with
  an oracle for the calls that fail.
\<close>

section \<open>Paths and files\<close>

text \<open>\<open>Path::parent\<close>: the path without its last component; a root has none.\<close>

definition path_components :: "string \<Rightarrow> string list" where
  "path_components p =
     (let cs = split_at_char (CHR ''/'') p
      in (if cs \<noteq> [] \<and> hd cs = ''.'' then [''.''] else []) @ filter (\<lambda>c. c \<noteq> [] \<and> c \<noteq> ''.'') cs)"

definition is_absolute :: "string \<Rightarrow> bool" where
  "is_absolute p = (take 1 p = ''/'')"

definition path_parent :: "string \<Rightarrow> string option" where
  "path_parent p =
     (let cs = path_components p
      in if cs = [] then None
         else Some ((if is_absolute p then ''/'' else []) @ join_with ''/'' (butlast cs)))"

datatype file_op = OpRead string | OpMkdir string | OpWrite string | OpCopy string string

type_synonym file_oracle = "file_op \<Rightarrow> string option"

record file_world =
  fw_files :: "(string, u8 list) hmap"
  fw_dirs :: "string list"

definition is_file :: "file_world \<Rightarrow> string \<Rightarrow> bool" where
  "is_file fs p = hm_contains (fw_files fs) p"

definition fs_read :: "file_oracle \<Rightarrow> file_world \<Rightarrow> string \<Rightarrow> string + u8 list" where
  "fs_read io fs p =
     (case io (OpRead p) of
        Some e \<Rightarrow> Inl e
      | None \<Rightarrow> (case hm_get (fw_files fs) p of Some b \<Rightarrow> Inr b | None \<Rightarrow> Inl ''No such file or directory''))"

definition fs_create_dir_all :: "file_oracle \<Rightarrow> string \<Rightarrow> file_world \<Rightarrow> string + file_world" where
  "fs_create_dir_all io p fs =
     (case io (OpMkdir p) of Some e \<Rightarrow> Inl e | None \<Rightarrow> Inr (fs\<lparr>fw_dirs := p # fw_dirs fs\<rparr>))"

definition fs_write :: "file_oracle \<Rightarrow> string \<Rightarrow> u8 list \<Rightarrow> file_world \<Rightarrow> string + file_world" where
  "fs_write io p b fs =
     (case io (OpWrite p) of Some e \<Rightarrow> Inl e | None \<Rightarrow> Inr (fs\<lparr>fw_files := hm_insert p b (fw_files fs)\<rparr>))"

definition require_iface :: "string \<Rightarrow> string + unit" where
  "require_iface iface = (if iface = [] then Inl ''empty interface'' else Inr ())"

section \<open>Loading the object\<close>

datatype loader_error =
    ReadObject string string
  | Mkdir string string
  | Extract string string
  | ParseLoad string
  | MissingProgram
  | NotXdp string
  | ProgramLoad string
  | AttachXdp string string
  | MissingMap
  | BadMap string

text \<open>\<open>embedded\<close> stands for \<open>EMBEDDED_BPF\<close>.\<close>

definition bpf_object_bytes ::
  "(string \<Rightarrow> string option) \<Rightarrow> file_oracle \<Rightarrow> u8 list \<Rightarrow> file_world \<Rightarrow> (loader_error + u8 list) \<times> file_world" where
  "bpf_object_bytes env io embedded fs =
     (case env ''MICROWAF_BPF_OBJECT'' of
        Some path \<Rightarrow> ((case fs_read io fs path of Inl e \<Rightarrow> Inl (ReadObject path e) | Inr b \<Rightarrow> Inr b), fs)
      | None \<Rightarrow>
          (case env ''MICROWAF_BPF_EXTRACT'' of
             None \<Rightarrow> (Inr embedded, fs)
           | Some extract \<Rightarrow>
               (case (case path_parent extract of
                        Some parent \<Rightarrow>
                          (case fs_create_dir_all io parent fs of Inl e \<Rightarrow> Inl (Mkdir parent e) | Inr fs \<Rightarrow> Inr fs)
                      | None \<Rightarrow> Inr fs) of
                  Inl e \<Rightarrow> (Inl e, fs)
                | Inr fs \<Rightarrow>
                    (case fs_write io extract embedded fs of
                       Inl e \<Rightarrow> (Inl (Extract extract e), fs)
                     | Inr fs \<Rightarrow> (Inr embedded, fs)))))"

text \<open>
  What the loader uses of aya, on a kernel state \<open>'k\<close> and handles \<open>'b\<close> of loaded objects: a program of
  the object as an XDP program, its loading, its attachment to an interface, the taking of a map with
  the key and value sizes of the policy map, and the drop of the handle.
\<close>

record ('b, 'k) aya_api =
  ay_load :: "u8 list \<Rightarrow> 'k \<Rightarrow> (string + 'b) \<times> 'k"
  ay_has_program :: "'b \<Rightarrow> string \<Rightarrow> bool"
  ay_not_xdp :: "'b \<Rightarrow> string \<Rightarrow> string option"
  ay_prog_load :: "'b \<Rightarrow> string \<Rightarrow> 'k \<Rightarrow> (string + unit) \<times> 'k"
  ay_attach :: "'b \<Rightarrow> string \<Rightarrow> string \<Rightarrow> 'k \<Rightarrow> (string + unit) \<times> 'k"
  ay_has_map :: "'b \<Rightarrow> string \<Rightarrow> bool"
  ay_bad_map :: "'b \<Rightarrow> string \<Rightarrow> string option"
  ay_drop :: "'b \<Rightarrow> 'k \<Rightarrow> 'k"

fun attach_loop :: "('b, 'k) aya_api \<Rightarrow> 'b \<Rightarrow> string list \<Rightarrow> 'k \<Rightarrow> (loader_error + unit) \<times> 'k" where
  "attach_loop aya b [] k = (Inr (), k)"
| "attach_loop aya b (iface # ifaces) k =
     (case ay_attach aya b ''microwaf'' iface k of
        (Inl e, k) \<Rightarrow> (Inl (AttachXdp iface e), k)
      | (Inr _, k) \<Rightarrow> attach_loop aya b ifaces k)"

text \<open>The body after the object is loaded: the first error ends it.\<close>

definition attach_object :: "('b, 'k) aya_api \<Rightarrow> 'b \<Rightarrow> string list \<Rightarrow> 'k \<Rightarrow> (loader_error + unit) \<times> 'k" where
  "attach_object aya b ifaces k =
     (if \<not> ay_has_program aya b ''microwaf'' then (Inl MissingProgram, k)
      else case ay_not_xdp aya b ''microwaf'' of
        Some e \<Rightarrow> (Inl (NotXdp e), k)
      | None \<Rightarrow>
          (case ay_prog_load aya b ''microwaf'' k of
             (Inl e, k) \<Rightarrow> (Inl (ProgramLoad e), k)
           | (Inr _, k) \<Rightarrow>
               (case attach_loop aya b ifaces k of
                  (Inl e, k) \<Rightarrow> (Inl e, k)
                | (Inr _, k) \<Rightarrow>
                    if \<not> ay_has_map aya b ''CLIENT_POLICY'' then (Inl MissingMap, k)
                    else (case ay_bad_map aya b ''CLIENT_POLICY'' of Some e \<Rightarrow> (Inl (BadMap e), k) | None \<Rightarrow> (Inr (), k)))))"

text \<open>On an error the object is dropped; on success it is forgotten, so that it stays attached.\<close>

definition load_and_attach_aya_multi ::
  "('b, 'k) aya_api \<Rightarrow> (string \<Rightarrow> string option) \<Rightarrow> file_oracle \<Rightarrow> u8 list \<Rightarrow> string list \<Rightarrow> file_world \<Rightarrow> 'k \<Rightarrow>
   (loader_error + bpf_enforcer) \<times> file_world \<times> 'k" where
  "load_and_attach_aya_multi aya env io embedded ifaces fs k =
     (case bpf_object_bytes env io embedded fs of
        (Inl e, fs) \<Rightarrow> (Inl e, fs, k)
      | (Inr bytes, fs) \<Rightarrow>
          (case ay_load aya bytes k of
             (Inl e, k) \<Rightarrow> (Inl (ParseLoad e), fs, k)
           | (Inr b, k) \<Rightarrow>
               (case attach_object aya b ifaces k of
                  (Inl e, k) \<Rightarrow> (Inl e, fs, ay_drop aya b k)
                | (Inr _, k) \<Rightarrow> (Inr bpf_load_and_attach, fs, k))))"

section \<open>All interfaces or none\<close>

text \<open>
  The documented behaviour of aya: loading an object attaches nothing, an attachment that succeeds adds
  one link to the object and one that fails adds none, and dropping the object detaches its links.
  \<open>links k b\<close> are the interfaces that the object \<open>b\<close> is attached to.
\<close>

definition aya_behaves :: "('b, 'k) aya_api \<Rightarrow> ('k \<Rightarrow> 'b \<Rightarrow> string set) \<Rightarrow> bool" where
  "aya_behaves aya links \<longleftrightarrow>
     (\<forall>bytes k. links (snd (ay_load aya bytes k)) =
        (case fst (ay_load aya bytes k) of Inl _ \<Rightarrow> links k | Inr b \<Rightarrow> (links k)(b := {}))) \<and>
     (\<forall>b p k. links (snd (ay_prog_load aya b p k)) = links k) \<and>
     (\<forall>b p iface k. links (snd (ay_attach aya b p iface k)) =
        (case fst (ay_attach aya b p iface k) of Inl _ \<Rightarrow> links k | Inr _ \<Rightarrow> (links k)(b := insert iface (links k b)))) \<and>
     (\<forall>b k. links (ay_drop aya b k) = (links k)(b := {}))"

lemma attach_loop_links:
  assumes "aya_behaves aya links"
  shows "attach_loop aya b ifaces k = (r, k') \<Longrightarrow>
     (\<forall>b'. b' \<noteq> b \<longrightarrow> links k' b' = links k b') \<and> (r = Inr () \<longrightarrow> links k' b = links k b \<union> set ifaces)"
proof (induction ifaces arbitrary: k)
  case (Cons iface ifaces)
  obtain x k1 where x: "ay_attach aya b ''microwaf'' iface k = (x, k1)" by fastforce
  have "links (snd (ay_attach aya b ''microwaf'' iface k)) =
      (case fst (ay_attach aya b ''microwaf'' iface k) of Inl _ \<Rightarrow> links k | Inr _ \<Rightarrow> (links k)(b := insert iface (links k b)))"
    using assms by (simp add: aya_behaves_def)
  then have l: "links k1 = (case x of Inl _ \<Rightarrow> links k | Inr _ \<Rightarrow> (links k)(b := insert iface (links k b)))" by (simp add: x)
  show ?case
  proof (cases x)
    case (Inl e)
    then show ?thesis using Cons.prems l by (auto simp: x)
  next
    case (Inr u)
    then show ?thesis using Cons.prems Cons.IH [of k1] l by (auto simp: x)
  qed
qed simp

lemma attach_object_links:
  assumes "aya_behaves aya links" "attach_object aya b ifaces k = (r, k')"
  shows "(\<forall>b'. b' \<noteq> b \<longrightarrow> links k' b' = links k b') \<and> (r = Inr () \<longrightarrow> links k' b = links k b \<union> set ifaces)"
proof -
  have load: "links k1 = links k" if "ay_prog_load aya b p k = (x, k1)" for p x k1
    using assms(1) that unfolding aya_behaves_def by (metis snd_conv)
  show ?thesis
    using assms(2) attach_loop_links [OF assms(1)] load
    by (fastforce simp: attach_object_def split: if_splits option.splits prod.splits sum.splits)
qed

lemma load_links:
  assumes "aya_behaves aya links" "load_and_attach_aya_multi aya env io embedded ifaces fs k = (r, fs', k')"
  shows "case r of Inl _ \<Rightarrow> \<forall>b. links k' b = links k b \<or> links k' b = {}
     | Inr e \<Rightarrow> e = bpf_load_and_attach \<and> (\<exists>b. links k' = (links k)(b := set ifaces))"
proof -
  obtain o1 fs1 where bytes: "bpf_object_bytes env io embedded fs = (o1, fs1)" by fastforce
  show ?thesis
  proof (cases o1)
    case (Inl e)
    then show ?thesis using assms(2) bytes by (auto simp: load_and_attach_aya_multi_def)
  next
    case (Inr bs)
    obtain o2 k2 where load: "ay_load aya bs k = (o2, k2)" by fastforce
    have l2: "links k2 = (case o2 of Inl _ \<Rightarrow> links k | Inr b \<Rightarrow> (links k)(b := {}))"
      using assms(1) load unfolding aya_behaves_def by (metis fst_conv snd_conv)
    show ?thesis
    proof (cases o2)
      case (Inl e)
      then show ?thesis
        using assms(2) bytes Inr load l2 by (auto simp: load_and_attach_aya_multi_def)
    next
      case b: (Inr b)
      obtain o3 k3 where att: "attach_object aya b ifaces k2 = (o3, k3)" by fastforce
      note l3 = attach_object_links [OF assms(1) att]
      have drop: "links (ay_drop aya b k3) = (links k3)(b := {})" using assms(1) by (simp add: aya_behaves_def)
      show ?thesis
      proof (cases o3)
        case (Inl e)
        then have "links k' = (links k)(b := {})" "r = Inl e"
          using assms(2) bytes Inr load b att l2 l3 drop
          by (auto simp: load_and_attach_aya_multi_def fun_eq_iff)
        then show ?thesis by simp
      next
        case u: (Inr u)
        then have "links k' = (links k)(b := set ifaces)" "r = Inr bpf_load_and_attach"
          using assms(2) bytes Inr load b att l2 l3 by (auto simp: load_and_attach_aya_multi_def fun_eq_iff)
        then show ?thesis by auto
      qed
    qed
  qed
qed

text \<open>
  C38: what an enforcing daemon can enforce with. In a build with the \<open>ebpf\<close> feature it gets the BPF enforcer only
  when the XDP program is attached to every interface it was asked for, all of them for \<open>any\<close>. When there is no
  interface, or an attachment or any step before it fails, the daemon falls
  back to the enforcer that only records, and no attachment of the failed attempt is left behind. In a build
  without the feature it always gets the BPF enforcer, whose policies no program in the kernel reads: it is the same
  whatever loading would do.
\<close>

theorem enforce_mode_attached:
  assumes "aya_behaves aya links"
    and "hs_attach h = (\<lambda>ifs. case fst (load_and_attach_aya_multi aya (hs_env h) io embedded ifs fs k) of
       Inl e \<Rightarrow> Some (show_error e) | Inr _ \<Rightarrow> None)"
  shows "if hs_ebpf h then
     (case (if is_any iface then list_attachable (hs_if_nameindex h) (hs_sysfs h) else Inr [iface]) of
        Inl _ \<Rightarrow> choose_enforcer h Enforce iface = EnfPermissive \<lparr>pe_log = []\<rparr>
      | Inr [] \<Rightarrow> choose_enforcer h Enforce iface = EnfPermissive \<lparr>pe_log = []\<rparr>
      | Inr ifs \<Rightarrow>
          (case load_and_attach_aya_multi aya (hs_env h) io embedded ifs fs k of
             (r, fs', k') \<Rightarrow>
               (case choose_enforcer h Enforce iface of
                  EnfBpf e \<Rightarrow> e = bpf_load_and_attach \<and> (\<exists>b. links k' b = set ifs)
                | other \<Rightarrow> other = EnfPermissive \<lparr>pe_log = []\<rparr> \<and> (\<forall>b. links k' b \<subseteq> links k b))))
   else \<forall>attach. choose_enforcer (h\<lparr>hs_attach := attach\<rparr>) Enforce iface = EnfBpf bpf_load_and_attach"
proof (cases "hs_ebpf h")
  case False
  then show ?thesis by (simp add: choose_enforcer_def load_and_attach_def Let_def)
next
  case ebpf: True
  let ?t = "if is_any iface then list_attachable (hs_if_nameindex h) (hs_sysfs h) else Inr [iface]"
  have choose: "choose_enforcer h Enforce iface =
      (case ?t of
         Inl _ \<Rightarrow> EnfPermissive \<lparr>pe_log = []\<rparr>
       | Inr ifs \<Rightarrow> if ifs = [] then EnfPermissive \<lparr>pe_log = []\<rparr>
           else (case hs_attach h ifs of Some _ \<Rightarrow> EnfPermissive \<lparr>pe_log = []\<rparr> | None \<Rightarrow> EnfBpf bpf_load_and_attach))"
    using ebpf by (simp add: choose_enforcer_def load_and_attach_def Let_def split: sum.splits option.splits)
  show ?thesis
  proof (cases ?t)
    case (Inl e)
    then show ?thesis using ebpf choose by simp
  next
    case (Inr ifs)
    obtain r fs' k' where load: "load_and_attach_aya_multi aya (hs_env h) io embedded ifs fs k = (r, fs', k')"
      by (metis prod_cases3)
    then show ?thesis
      using ebpf choose Inr load_links [OF assms(1) load] by (cases ifs; cases r) (auto simp: assms(2))
  qed
qed

text \<open>A kernel that numbers the objects, lists their links and refuses the interface \<open>bad\<close>.\<close>

type_synonym toy_kernel = "nat \<times> (nat \<times> string) list"

definition toy_aya :: "(nat, toy_kernel) aya_api" where
  "toy_aya =
     \<lparr>ay_load = (\<lambda>bytes (n, ls). (Inr n, (Suc n, filter (\<lambda>(b, i). b \<noteq> n) ls))),
      ay_has_program = (\<lambda>b p. p = ''microwaf''), ay_not_xdp = (\<lambda>b p. None),
      ay_prog_load = (\<lambda>b p k. (Inr (), k)),
      ay_attach = (\<lambda>b p i (n, ls). if i = ''bad'' then (Inl ''EPERM'', (n, ls)) else (Inr (), (n, (b, i) # ls))),
      ay_has_map = (\<lambda>b m. True), ay_bad_map = (\<lambda>b m. None),
      ay_drop = (\<lambda>b (n, ls). (n, filter (\<lambda>(b', i). b' \<noteq> b) ls))\<rparr>"

definition toy_links :: "toy_kernel \<Rightarrow> nat \<Rightarrow> string set" where
  "toy_links k b = {i. (b, i) \<in> set (snd k)}"

lemma toy_aya_behaves: "aya_behaves toy_aya toy_links"
  by (auto simp: aya_behaves_def toy_aya_def toy_links_def fun_eq_iff split: if_splits)

definition toy_load :: "string list \<Rightarrow> (loader_error + bpf_enforcer) \<times> file_world \<times> toy_kernel" where
  "toy_load ifs =
     load_and_attach_aya_multi toy_aya (\<lambda>_. None) (\<lambda>_. None) [127] ifs \<lparr>fw_files = [], fw_dirs = []\<rparr> (0, [])"

definition bpf_host :: "string list \<Rightarrow> (unit, unit, unit) host" where
  "bpf_host nics = undefined\<lparr>hs_ebpf := True, hs_env := (\<lambda>_. None), hs_if_nameindex := Inr (map (\<lambda>n. (1, Some n)) nics),
     hs_attach := (\<lambda>ifs. case fst (toy_load ifs) of Inl e \<Rightarrow> Some ''failed'' | Inr _ \<Rightarrow> None)\<rparr>"

lemma bpf_host_targets:
  "list_attachable (hs_if_nameindex (bpf_host [''lo'', ''eth0'', n])) (hs_sysfs (bpf_host [''lo'', ''eth0'', n])) =
     Inr (filter (\<lambda>n. n \<noteq> ''lo'' \<and> \<not> is_any n) [''eth0'', n])"
  by (simp add: list_attachable_def list_via_if_nameindex_def bpf_host_def is_any_def eq_ignore_ascii_case_def
      to_ascii_lowercase_def ascii_lower_def byte_of_def)

theorem enforce_mode_attached_witness:
  "(\<exists>k b. snd (snd (toy_load [''eth0'', ''eth1''])) = k \<and> toy_links k b = {''eth0'', ''eth1''} \<and>
      choose_enforcer (bpf_host [''lo'', ''eth0'', ''eth1'']) Enforce ''any'' = EnfBpf bpf_load_and_attach) \<and>
   (\<exists>k. snd (snd (toy_load [''eth0'', ''bad''])) = k \<and> (\<forall>b. toy_links k b = {}) \<and>
      choose_enforcer (bpf_host [''lo'', ''eth0'', ''bad'']) Enforce ''any'' = EnfPermissive \<lparr>pe_log = []\<rparr>)"
proof -
  have any: "is_any ''any''" "\<not> is_any ''eth0''" "\<not> is_any ''eth1''" "\<not> is_any ''bad''" by code_simp+
  have host: "hs_ebpf (bpf_host nics)" "hs_env (bpf_host nics) = (\<lambda>_. None)"
    "hs_attach (bpf_host nics) = (\<lambda>ifs. case fst (toy_load ifs) of Inl e \<Rightarrow> Some ''failed'' | Inr _ \<Rightarrow> None)" for nics
    by (simp_all add: bpf_host_def)
  have main: "case choose_enforcer (bpf_host [''lo'', ''eth0'', n]) Enforce ''any'' of
      EnfBpf e \<Rightarrow> e = bpf_load_and_attach \<and> (\<exists>b. toy_links (snd (snd (toy_load [''eth0'', n]))) b = {''eth0'', n})
    | other \<Rightarrow> other = EnfPermissive \<lparr>pe_log = []\<rparr> \<and> (\<forall>b. toy_links (snd (snd (toy_load [''eth0'', n]))) b \<subseteq> {})"
    if "n \<noteq> ''lo''" "\<not> is_any n" for n
  proof -
    obtain r fs' k' where load: "load_and_attach_aya_multi toy_aya (hs_env (bpf_host [''lo'', ''eth0'', n])) (\<lambda>_. None) [127]
        [''eth0'', n] \<lparr>fw_files = [], fw_dirs = []\<rparr> (0, []) = (r, fs', k')"
      by (metis prod_cases3)
    have "toy_links (0, []) b = {}" for b by (simp add: toy_links_def)
    then show ?thesis
      using enforce_mode_attached [where h = "bpf_host [''lo'', ''eth0'', n]" and iface = "''any''" and
          show_error = "\<lambda>_. ''failed''" and io = "\<lambda>_. None" and embedded = "[127]" and k = "(0, [])" and
          fs = "\<lparr>fw_files = [], fw_dirs = []\<rparr>", OF toy_aya_behaves] that any load
      by (simp add: bpf_host_targets host toy_load_def split: any_enforcer.splits)
  qed
  have "fst (toy_load [''eth0'', ''eth1'']) = Inr bpf_load_and_attach" "\<exists>e. fst (toy_load [''eth0'', ''bad'']) = Inl e"
    by (simp_all add: toy_load_def load_and_attach_aya_multi_def bpf_object_bytes_def toy_aya_def attach_object_def)
  then have "choose_enforcer (bpf_host [''lo'', ''eth0'', ''eth1'']) Enforce ''any'' = EnfBpf bpf_load_and_attach"
    "choose_enforcer (bpf_host [''lo'', ''eth0'', ''bad'']) Enforce ''any'' = EnfPermissive \<lparr>pe_log = []\<rparr>"
    using any by (auto simp: choose_enforcer_def load_and_attach_def Let_def bpf_host_targets host)
  then show ?thesis using main [of "''eth1''"] main [of "''bad''"] any by auto
qed

text \<open>
  The object is the file that \<open>MICROWAF_BPF_OBJECT\<close> names, or else the embedded one; a copy that
  \<open>MICROWAF_BPF_EXTRACT\<close> asks for and that cannot be written stops the load.
\<close>

lemma bpf_object_choice:
  "bpf_object_bytes env io embedded fs = (Inr bytes, fs') \<longleftrightarrow>
     (case env ''MICROWAF_BPF_OBJECT'' of
        Some path \<Rightarrow> io (OpRead path) = None \<and> hm_get (fw_files fs) path = Some bytes \<and> fs' = fs
      | None \<Rightarrow> bytes = embedded \<and>
          (case env ''MICROWAF_BPF_EXTRACT'' of
             None \<Rightarrow> fs' = fs
           | Some extract \<Rightarrow> io (OpWrite extract) = None \<and>
               (\<forall>parent. path_parent extract = Some parent \<longrightarrow> io (OpMkdir parent) = None) \<and>
               fs' = fs\<lparr>fw_files := hm_insert extract embedded (fw_files fs),
                 fw_dirs := (case path_parent extract of Some p \<Rightarrow> [p] | None \<Rightarrow> []) @ fw_dirs fs\<rparr>))"
  by (auto simp: bpf_object_bytes_def fs_read_def fs_write_def fs_create_dir_all_def split: option.splits sum.splits)

section \<open>The build script\<close>

text \<open>What \<open>cargo\<close> is started with, and what a run of the script ends in.\<close>

record cargo_call =
  cg_args :: "string list"
  cg_dir :: string
  cg_path :: string
  cg_target_dir :: string

type_synonym cargo = "cargo_call \<Rightarrow> file_world \<Rightarrow> (string + bool) \<times> file_world"

definition build_bpf_object ::
  "(string \<Rightarrow> string option) \<Rightarrow> cargo \<Rightarrow> string \<Rightarrow> file_world \<Rightarrow> (string + string) \<times> file_world" where
  "build_bpf_object env cargo root fs =
     (let target_dir = path_join root ''target'';
          out = path_join target_dir ''bpfel-unknown-none/release/libmw_ebpf.so'';
          path_env = (case env ''PATH'' of Some p \<Rightarrow> p | None \<Rightarrow> []);
          path_env = (case env ''HOME'' of Some home \<Rightarrow> path_join home ''.cargo/bin'' @ '':'' @ path_env | None \<Rightarrow> path_env)
      in case cargo \<lparr>cg_args = [''+nightly'', ''build'', ''--release''], cg_dir = path_join root ''crates/mw-ebpf'',
             cg_path = path_env, cg_target_dir = target_dir\<rparr> fs of
           (Inl e, fs) \<Rightarrow> (Inl (''failed to spawn cargo +nightly (is nightly installed?): '' @ e), fs)
         | (Inr success, fs) \<Rightarrow>
             if \<not> success then (Inl ''cargo +nightly build of mw-ebpf failed (need: make ebpf-setup)'', fs)
             else if \<not> is_file fs out then (Inl (''mw-ebpf build finished but '' @ out @ '' missing''), fs)
             else (Inr out, fs))"

definition bpf_candidates :: "string \<Rightarrow> string list" where
  "bpf_candidates root =
     [path_join root ''target/bpfel-unknown-none/release/libmw_ebpf.so'',
      path_join root ''target/bpfel-unknown-none/debug/libmw_ebpf.so'',
      path_join root ''dist/libmw_ebpf.so'']"

definition resolve_bpf_object ::
  "(string \<Rightarrow> string option) \<Rightarrow> cargo \<Rightarrow> string \<Rightarrow> file_world \<Rightarrow> (string + string) \<times> file_world" where
  "resolve_bpf_object env cargo root fs =
     (case env ''MICROWAF_BPF_OBJECT'' of
        Some p \<Rightarrow> (if is_file fs p then Inr p else Inl (''MICROWAF_BPF_OBJECT='' @ p @ '' is not a file''), fs)
      | None \<Rightarrow>
          (case List.find (is_file fs) (bpf_candidates root) of
             Some p \<Rightarrow> (Inr p, fs)
           | None \<Rightarrow> build_bpf_object env cargo root fs))"

datatype build_panic = NoManifestDir | NotUnderCrates | NoOutDir | ObjectUnavailable string | CopyFailed string string string

text \<open>\<open>Inr None\<close> is the early return without the feature; \<open>Inr (Some src)\<close> has embedded \<open>src\<close>.\<close>

definition build_main ::
  "(string \<Rightarrow> string option) \<Rightarrow> cargo \<Rightarrow> file_oracle \<Rightarrow> file_world \<Rightarrow> (build_panic + string option) \<times> file_world" where
  "build_main env cargo io fs =
     (if env ''CARGO_FEATURE_EBPF'' = None then (Inr None, fs)
      else case env ''CARGO_MANIFEST_DIR'' of
        None \<Rightarrow> (Inl NoManifestDir, fs)
      | Some manifest_dir \<Rightarrow>
          (case Option.bind (path_parent manifest_dir) path_parent of
             None \<Rightarrow> (Inl NotUnderCrates, fs)
           | Some root \<Rightarrow>
               (case env ''OUT_DIR'' of
                  None \<Rightarrow> (Inl NoOutDir, fs)
                | Some out_dir \<Rightarrow>
                    let dest = path_join out_dir ''libmw_ebpf.so'' in
                    (case resolve_bpf_object env cargo root fs of
                       (Inl e, fs) \<Rightarrow> (Inl (ObjectUnavailable e), fs)
                     | (Inr src, fs) \<Rightarrow>
                         (case io (OpCopy src dest) of
                            Some e \<Rightarrow> (Inl (CopyFailed src dest e), fs)
                          | None \<Rightarrow>
                              (case hm_get (fw_files fs) src of
                                 None \<Rightarrow> (Inl (CopyFailed src dest ''No such file or directory''), fs)
                               | Some b \<Rightarrow> (Inr (Some src), fs\<lparr>fw_files := hm_insert dest b (fw_files fs)\<rparr>)))))))"

text \<open>
  The embedded object is the one that \<open>MICROWAF_BPF_OBJECT\<close> names, or else the first that lies under
  \<open>target\<close> or \<open>dist\<close>, or else one that \<open>cargo\<close> has just built.
\<close>

lemma build_embeds:
  assumes "build_main env cargo io fs = (Inr (Some src), fs')" "env ''OUT_DIR'' = Some out_dir"
  shows "\<exists>root fs1 b. Option.bind (Option.bind (env ''CARGO_MANIFEST_DIR'') path_parent) path_parent = Some root \<and>
     resolve_bpf_object env cargo root fs = (Inr src, fs1) \<and> hm_get (fw_files fs1) src = Some b \<and>
     fs' = fs1\<lparr>fw_files := hm_insert (path_join out_dir ''libmw_ebpf.so'') b (fw_files fs1)\<rparr>"
  using assms by (auto simp: build_main_def Let_def split: if_splits option.splits prod.splits sum.splits)

lemma built_object:
  "build_bpf_object env cargo root fs = (Inr src, fs1) \<Longrightarrow>
     is_file fs1 src \<and> (\<exists>call. cargo call fs = (Inr True, fs1) \<and> cg_dir call = path_join root ''crates/mw-ebpf'')"
  by (auto simp: build_bpf_object_def Let_def split: if_splits prod.splits sum.splits intro: exI)

lemma resolved_object:
  assumes "resolve_bpf_object env cargo root fs = (Inr src, fs1)"
  shows "is_file fs1 src \<and>
     (case env ''MICROWAF_BPF_OBJECT'' of
        Some p \<Rightarrow> src = p \<and> fs1 = fs
      | None \<Rightarrow>
          (case List.find (is_file fs) (bpf_candidates root) of
             Some p \<Rightarrow> src = p \<and> fs1 = fs
           | None \<Rightarrow> \<exists>call. cargo call fs = (Inr True, fs1) \<and> cg_dir call = path_join root ''crates/mw-ebpf''))"
proof (cases "env ''MICROWAF_BPF_OBJECT''")
  case None
  have found: "List.find (is_file fs) cs = Some p \<Longrightarrow> is_file fs p" for cs p by (auto simp: find_Some_iff)
  show ?thesis
  proof (cases "List.find (is_file fs) (bpf_candidates root)")
    case None
    then show ?thesis using assms built_object [of env cargo root fs src fs1] \<open>env ''MICROWAF_BPF_OBJECT'' = None\<close>
      by (simp add: resolve_bpf_object_def)
  next
    case (Some p)
    then show ?thesis using assms found [OF Some] \<open>env ''MICROWAF_BPF_OBJECT'' = None\<close> by (simp add: resolve_bpf_object_def)
  qed
qed (use assms in \<open>simp add: resolve_bpf_object_def split: if_splits\<close>)

text \<open>
  An object that is already there is embedded as it is: no matter what \<open>cargo\<close> would build from the
  sources now, it is not asked.
\<close>

lemma stale_object_embedded:
  assumes "env ''MICROWAF_BPF_OBJECT'' = None" "env ''CARGO_MANIFEST_DIR'' = Some m"
    and "Option.bind (path_parent m) path_parent = Some root" "List.find (is_file fs) (bpf_candidates root) = Some p"
  shows "build_main env cargo io fs = build_main env cargo' io fs"
proof -
  have "resolve_bpf_object env c root fs = (Inr p, fs)" for c using assms by (simp add: resolve_bpf_object_def)
  then show ?thesis using assms by (simp add: build_main_def cong: option.case_cong)
qed

lemma build_example:
  "fst (build_main (\<lambda>v. map_of [(''CARGO_FEATURE_EBPF'', ''1''), (''CARGO_MANIFEST_DIR'', ''/w/crates/microwaf''),
       (''OUT_DIR'', ''/w/out'')] v) (\<lambda>_ fs. (Inr True, fs)) (\<lambda>_. None)
     \<lparr>fw_files = [(''/w/dist/libmw_ebpf.so'', [127])], fw_dirs = []\<rparr>) = Inr (Some ''/w/dist/libmw_ebpf.so'')"
  by code_simp

end
