(* ===== verification/Spec2Isabelle.thy ===== *)
theory Spec2Isabelle
  imports Cli_Client Daemon_Paths Lock_Order Bpf_Loader
begin

text \<open>
  MicroWAF: a verification of the daemon, its packet filter and its control protocol.

  \<^bold>\<open>The program.\<close> MicroWAF watches the traffic of a Linux host (\<open>crates/\<close>). A sniffer thread turns
  Ethernet frames into counters per client (MAC and IPv4 address) and rule. Once a second the
  decision thread moves what was counted into sliding windows, lets the rule engine compare
  them with the limits, keeps an automatic policy next to the operator's manual one for each
  client, merges the two and hands the result to an enforcer: one that only records, or one for an
  XDP program in the kernel. A third thread reloads the configuration, and a server answers
  requests on a Unix socket. Manual policies survive restarts in Redis.

  \<^bold>\<open>Theories\<close>, each importing those it builds on:
  \<^item> \<open>MW_Prelude\<close>: machine integers, saturating arithmetic, clocks, hash maps, checked indexing.
  \<^item> \<open>Rust_Str\<close>, \<open>Net_Addr\<close>: what the code uses of \<open>str\<close>, number formatting and parsing, and the
    text form of IPv4 and IPv6 addresses with their round trip.
  \<^item> \<open>Client_Id\<close> (\<open>mw-core/src/client.rs\<close>), \<open>Rule_Types\<close> and \<open>Rule_Engine\<close> (\<open>rule.rs\<close>, \<open>error.rs\<close>),
    \<open>Sliding_Window\<close> (\<open>window.rs\<close>), \<open>Cel_Match\<close> (\<open>cel_match.rs\<close>), \<open>Counter_Store\<close> (\<open>counters.rs\<close>, with
    the interface \<open>rule_counters\<close>), \<open>Policy_Merge\<close> (\<open>policy.rs\<close>).
  \<^item> \<open>Xdp_Program\<close>: the XDP program \<open>mw-ebpf/src/lib.rs\<close>, with its structs in the byte order of the host;
    \<open>Enforcement\<close>: \<open>enforcer.rs\<close> and \<open>microwaf/src/ebpf.rs\<close>, where the
    interface \<open>enforcer\<close> is met by each implementation and by the dynamic choice between them.
  \<^item> \<open>Rule_Config\<close>: \<open>mw-core/src/config.rs\<close> and the directory of \<open>microwaf/src/config.rs\<close>;
    \<open>Daemon_State\<close>: \<open>state.rs\<close> and \<open>try_reload\<close>; \<open>Decision_Loop\<close>: \<open>decision.rs\<close>.
  \<^item> \<open>Json_Serde\<close> and \<open>Wire_Proto\<close>: \<open>mw-proto/src/wire.rs\<close> over JSON values;
    \<open>Persistence\<close>: \<open>mw-store\<close>, \<open>mw-core/src/store.rs\<close> and \<open>microwaf/src/store.rs\<close>, with the interface
    \<open>policy_store\<close>; \<open>Ipc_Listener\<close> and \<open>Ipc_Server\<close>: \<open>ipc.rs\<close> and \<open>version.rs\<close>.
  \<^item> \<open>L7_Detectors\<close>: \<open>mw-sniffer\<close>; \<open>Packet_Sniffer\<close>: \<open>sniffer.rs\<close>; \<open>Sniffer_Calls\<close>: a frame as its
    calls on the shared counters; \<open>Traffic_Accounting\<close>: the exact amount each
    frame counts for, in every metric of every protocol.
  \<^item> \<open>Daemon_Run\<close>: \<open>cli/daemon.rs\<close> and \<open>iface.rs\<close>, and the threads as a step relation; \<open>Daemon_Threads\<close>: the
    configuration watcher with its SIGHUP bridge, and the sniffer's socket and receive loop.
  \<^item> \<open>Ipc_Client\<close>: the router and error replies around the commands of \<open>ipc.rs\<close>, and \<open>mw-client\<close>, joined
    by a channel; \<open>Top_View\<close>: \<open>cli/top.rs\<close>; \<open>Cli_Client\<close>: \<open>cli/mod.rs\<close>, \<open>cli/client.rs\<close> and \<open>main.rs\<close>.
  \<^item> \<open>Lock_Order\<close>: the mutexes of the daemon and the order in which every operation takes them,
    with the interface \<open>ranked_threads\<close> for threads that take them by increasing rank or under a guard.
  \<^item> \<open>Bpf_Loader\<close>: how \<open>ebpf.rs\<close> loads and attaches the XDP object, and \<open>build.rs\<close>, which embeds it.
  \<^item> \<open>End_To_End\<close>: the components composed, from a frame on the wire or a command to the enforcer;
    \<open>Daemon_Paths\<close>: what a decision is worth during a run of the daemon, event by event.

  \<^bold>\<open>Correspondence.\<close> Structs are records, enums datatypes, \<open>u8\<close> to \<open>u64\<close> words; a \<open>HashMap\<close> is an
  association list with distinct keys whose order stands for the unspecified iteration order.
  A function that can panic returns an option with \<open>None\<close> for the panic; a \<open>Result\<close> is a sum.
  Time, the random number, the environment and the answers of the operating system are arguments. State is
  passed explicitly. A tick, a request, a reload and a single update of a counter by the sniffer are one
  step each, and the steps of all threads interleave freely in \<open>daemon_step\<close>; an interleaving in the middle
  of such a step, where it gives back one mutex and takes the next, is not modelled: a tick reads the rules and
  the cooldown, and the sniffer the rules, the sets and the time for a frame, from one moment. A panic in any thread
  ends the daemon (\<open>panic = "abort"\<close> in \<open>Cargo.toml\<close>). That the locks are given back is the subject of
  \<open>Lock_Order\<close>, where a thread is its sequence of lock operations.

  \<^bold>\<open>What is shown.\<close> Each component has its functional behaviour on every branch, and the bounds and
  round trips it is used for. A tick is described client by client, does not depend on the order of
  the hash set, and gives a violating client the policy of its strongest violation. Over the events of a run
  this punishment holds until the cooldown ends or a tick finds another violation, and a manual block until it
  expires or another request for the client comes. The ring of
  buckets refines a log of increments, Redis and the in-memory store refine a map, and the time to live of a
  stored policy fits its end. A reload takes over exactly what the files say, or nothing. In every
  reachable state of the daemon the maps are well-formed and the data in range, the windows hold exactly
  what was counted, and a violation is backed by the client's own traffic; conversely a client whose
  frames between two ticks amount to more than a rule allows is punished at the second. A block in
  Redis is in force again after a restart. From the command line through
  the client library, the encodings, the frames and the router, a command has the effect of its handler, and
  the table of \<open>top\<close> shows the window sums. Without \<open>top\<close>, or without \<open>listClients\<close>, the daemon's
  threads cannot block each other for good; a \<open>top\<close> and a \<open>listClients\<close> together can. In a build with eBPF an enforcing
  daemon has the XDP program on all its interfaces or on none. A SIGHUP leads to a reload while the watcher
  lives, and the sniffer handles every frame it receives. A request makes the daemon panic exactly when it
  asks for a policy beyond the end of the clock. Several theorems state what the
  code does where that differs from its documents; the manifest lists these findings.

  \<^bold>\<open>Bounds and fuel.\<close> No definition uses fuel: every loop of the source is structural or has a measure
  (\<open>str_chars\<close>, \<open>split_str\<close>, \<open>fmt_radix\<close>, \<open>z21_loop\<close>). An \<open>Instant\<close> is bounded by \<open>2 ^ 63\<close> seconds, where Linux
  additions panic. Counters are 64 bits wide and saturate.

  \<^bold>\<open>Parameters.\<close> The CEL interpreter, YAML and JSON text, the Redis client, the aya library, the
  \<open>cargo\<close> process of the build script, the network interfaces of the host and the shared daemon crate are
  arguments; what is assumed of Redis (a command that fails may still have been carried out, and keys expire)
  and of JSON text is \<open>redis_behaves\<close> and \<open>json_roundtrips\<close>, of
  the router \<open>routes_by_type\<close>, of the frames \<open>frames_agree\<close> and of aya \<open>aya_behaves\<close>.

  \<^bold>\<open>Not modelled.\<close> The socket server with its peer authentication, the layout of its frames, the debouncing of file
  events and the signal handler (external crates), a failure to set up the signal handler or its thread, log
  messages and what is printed on standard error, argument parsing by clap and the Go
  client. What remains of the sources are derived
  traits, re-exports, module headers and tests.
\<close>

section \<open>A small host\<close>

text \<open>
  A host on which the daemon starts: every file operation succeeds, \<open>daemon.yaml\<close> and
  \<open>sets.yaml\<close> hold the defaults, every rule file holds one rule, Redis does not answer, and the BPF
  object does not load. The rule blocks a client for a second TCP connection to port 80 in a second.
\<close>

definition conn_rule :: config_rule where
  "conn_rule = \<lparr>cr_id = ''c'', cr_protocol = ''tcp'', cr_ports = Some [80], cr_metric = ''connections'',
     cr_window = ''per-second'', cr_limit = 0, cr_action = CfgBlock, cr_min_threshold = 0, cr_match = None\<rparr>"

definition small_yaml :: "unit yaml_api" where
  "small_yaml =
     \<lparr>y_from_str = (\<lambda>_. Inr ()), y_is_sequence = (\<lambda>_. True), y_is_mapping = (\<lambda>_. False),
      y_rule_list = (\<lambda>_. Inr [conn_rule]), y_rule = (\<lambda>_. Inl ''no mapping''),
      y_daemon = (\<lambda>t. Inr (if t = ''nobody'' then daemon_config_default\<lparr>dc_allow_users := []\<rparr> else daemon_config_default)),
      y_sets = (\<lambda>_. Inr sets_config_default)\<rparr>"

definition small_host :: "(unit, unit, sample_server) host" where
  "small_host =
     \<lparr>hs_env = (\<lambda>_. None), hs_default_socket = ''/run/microwaf.sock'', hs_io = io_fine, hs_yaml = small_yaml,
      hs_cel = \<lparr>cel_compile = (\<lambda>_. Inr ()), cel_execute = (\<lambda>_ _. Inl ''no CEL'')\<rparr>,
      hs_dirs = (\<lambda>_. \<lparr>cd_root = None, cd_rules = None\<rparr>), hs_index_of = (\<lambda>_. 0), hs_if_nameindex = Inr [],
      hs_sysfs = Inr [], hs_bind = (\<lambda>_. None), hs_max_frame = 1048576, hs_connect = (\<lambda>_. Inl ''connection refused''),
      hs_store = sample_env, hs_ebpf = True, hs_attach = (\<lambda>_. Some ''EPERM'')\<rparr>"

definition small_cli :: cli where
  "small_cli =
     \<lparr>cli_args = \<lparr>da_interface = None, da_redis_url = None, da_config_dir = None, da_mode = Some Enforce\<rparr>,
      cli_daemon = Some \<lparr>da_interface = None, da_redis_url = None, da_config_dir = None, da_mode = Some Permissive\<rparr>,
      cli_socket = None\<rparr>"

definition small_live :: "unit live_config" where
  "small_live = \<lparr>lc_daemon = daemon_config_default, lc_sets = sets_config_default,
     lc_rules = \<lparr>rs_rules = [(port80_rule ''c'' Tcp Connections)\<lparr>r_limit := 0\<rparr>]\<rparr>\<rparr>"

lemma small_compile: "compile_ruleset (hs_cel small_host) [conn_rule] = Inr (lc_rules small_live)"
  unfolding small_host_def host.select_convs by code_simp

lemma small_load_dir:
  assumes "file_get d sets_path = None" "cd_rules d = None" "rule_files (seeded d) = [''00-baseline.yaml'']"
    and "file_get (seeded d) daemon_path = Some t" "y_daemon small_yaml t = Inr cfg"
  shows "live_load io_fine small_yaml (hs_cel small_host) d = (Inr (small_live\<lparr>lc_daemon := cfg\<rparr>), seeded d)"
proof -
  have base: "file_get (seeded d) baseline_path = Some DEFAULT_RULES_YAML"
    by (rule seeded_baseline) (simp add: rules_dir_has_yaml_def io_fine_def files_of_def hm_keys_def assms(2))
  have "load_daemon io_fine small_yaml (seeded d) = Inr cfg" "load_sets io_fine small_yaml (seeded d) = Inr sets_config_default"
    using assms(1,4,5)
    by (simp_all add: load_daemon_def load_sets_def path_exists_def read_file_def io_fine_def seeded_files)
      (simp add: small_yaml_def)
  moreover obtain files where "cd_rules (seeded d) = Some files"
    using base by (cases "cd_rules (seeded d)") (auto simp: file_get.simps files_of_def hm_simps)
  then have "load_rules io_fine small_yaml (hs_cel small_host) (seeded d) = Inr (lc_rules small_live)"
    using base
    by (simp add: load_rules_def io_fine_def assms(3) read_file_def parse_rules_yaml_def small_yaml_def small_compile)
  ultimately show ?thesis by (simp add: live_load_def ensure_fine small_live_def)
qed

lemma small_load:
  "live_load io_fine small_yaml (hs_cel small_host) \<lparr>cd_root = None, cd_rules = None\<rparr> =
     (Inr small_live, seeded \<lparr>cd_root = None, cd_rules = None\<rparr>)"
proof -
  let ?d = "\<lparr>cd_root = None, cd_rules = None\<rparr>"
  have none: "file_get ?d q = None" for q by (cases q) (simp_all add: file_get.simps files_of_def hm_simps)
  have "rule_files (seeded ?d) = [''00-baseline.yaml'']" by code_simp
  moreover have "last ''nobody'' \<noteq> newline" by (simp add: newline_def)
  then have "DEFAULT_DAEMON_YAML \<noteq> ''nobody''" using default_yaml_newline(1) by metis
  then have "y_daemon small_yaml DEFAULT_DAEMON_YAML = Inr (lc_daemon small_live)"
    by (simp add: small_yaml_def small_live_def)
  ultimately show ?thesis
    using small_load_dir [of ?d DEFAULT_DAEMON_YAML "lc_daemon small_live"] by (simp add: none seeded_files)
qed

text \<open>The same directory once \<open>daemon.yaml\<close> allows nobody.\<close>

definition nobody_dir :: config_dir where
  "nobody_dir = \<lparr>cd_root = Some [(''daemon.yaml'', ''nobody'')], cd_rules = None\<rparr>"

lemma nobody_load:
  "live_load io_fine small_yaml (hs_cel small_host) nobody_dir =
     (Inr (small_live\<lparr>lc_daemon := daemon_config_default\<lparr>dc_allow_users := []\<rparr>\<rparr>), seeded nobody_dir)"
proof -
  have files: "rule_files (seeded nobody_dir) = [''00-baseline.yaml'']" "file_get nobody_dir sets_path = None"
    "file_get (seeded nobody_dir) daemon_path = Some ''nobody''" by code_simp+
  show ?thesis by (rule small_load_dir [OF files(2) _ files(1,3)]) (simp_all add: nobody_dir_def small_yaml_def)
qed

definition small_daemon :: "(unit, sample_server) daemon" where
  "small_daemon =
     \<lparr>dm_state = set_enforcer (EnfPermissive \<lparr>pe_log = []\<rparr>) (daemon_state_new Permissive ''any'' small_live),
      dm_store = StMemory memory_store_default, dm_flows = flow_table_new, dm_ws = [], dm_pending = [],
      dm_dir = seeded \<lparr>cd_root = None, cd_rules = None\<rparr>, dm_last_snapshot = 0,
      dm_server = serve_listener 1048576 ''/run/microwaf.sock'' (dc_allow_users daemon_config_default)\<rparr>"

lemma small_host_start:
  assumes "open_store (small_host\<lparr>hs_connect := f\<rparr>) ''redis://127.0.0.1:6379/0'' now now_sys
     (daemon_state_new Permissive ''any'' small_live) = Some (Inr (st, store))"
  shows "daemon_run (small_host\<lparr>hs_connect := f\<rparr>) small_cli now now_sys =
     Some (Inr \<lparr>dm_state = set_enforcer (EnfPermissive \<lparr>pe_log = []\<rparr>) st, dm_store = store, dm_flows = flow_table_new,
       dm_ws = [], dm_pending = [], dm_dir = seeded \<lparr>cd_root = None, cd_rules = None\<rparr>, dm_last_snapshot = now,
       dm_server = serve_listener 1048576 ''/run/microwaf.sock'' (allow_users st)\<rparr>)"
proof -
  have any: "ensure_exists (hs_index_of small_host) ''any'' = Inr ()"
    by (simp add: ensure_exists_def ifindex_def is_any_def eq_ignore_ascii_case_def)
  have load: "live_load (hs_io small_host) (hs_yaml small_host) (hs_cel small_host) (hs_dirs small_host p) =
      (Inr small_live, seeded \<lparr>cd_root = None, cd_rules = None\<rparr>)" for p
    using small_load by (simp add: small_host_def)
  have sock: "bind_listener (hs_bind small_host) s = None" "hs_max_frame small_host = 1048576"
    "resolve_socket (hs_env small_host) (hs_default_socket small_host) (cli_socket small_cli) = ''/run/microwaf.sock''" for s
    by (simp_all add: small_host_def bind_listener_def resolve_socket_def small_cli_def)
  have args: "effective_args small_cli =
      \<lparr>da_interface = None, da_redis_url = None, da_config_dir = None, da_mode = Some Permissive\<rparr>"
    by (simp add: effective_args_def or_else_def small_cli_def)
  have iface: "dc_interface (lc_daemon small_live) = Some ''any''" by (simp add: small_live_def daemon_config_default_def)
  show ?thesis
    by (simp add: daemon_run_def load assms sock Let_def args or_else_def iface any choose_enforcer_def)
qed

lemma small_run: "daemon_run small_host small_cli 0 0 = Some (Inr small_daemon)"
proof -
  have "open_store small_host url 0 0 st = Some (Inr (st, StMemory memory_store_default))" for url st
    by (simp add: open_store_def open_redis_def redis_connect_def small_host_def)
  then show ?thesis using small_host_start [of "hs_connect small_host" 0 0]
    by (simp add: small_daemon_def allow_users_def daemon_cfg_def daemon_state_new_def small_live_def)
qed

lemma small_reach: "daemon_reach small_host small_daemon"
  by (rule daemon_reach.Start [OF small_run])

text \<open>The state after one SYN.\<close>

lemma syn_dispatched:
  "handle_frame env syn_frame sf =
     dispatch_tcp env (frame_client syn_frame) (Ipv4 10 0 0 1) 256 (Ipv4 10 0 0 2) 80 True [] sf"
  by (simp add: handle_frame_def syn_frame_def idx_def be16_def ETH_P_IP_def sub_slice_def mac_of_def slice_from_def
      handle_ip_def handle_tcp_def ipv4_at_def u16_be_def Let_def frame_client_def client_new_def)

definition syn_counters :: counter_store where
  "syn_counters = add_connections (frame_client syn_frame) ''c'' 1 counter_store_default"

lemma small_frame:
  "\<exists>fl. sniff_frame (hs_cel small_host) \<lparr>ut_epoch = 0, ut_hour = 0, ut_dow = 0\<rparr> 0 syn_frame
      (dm_state small_daemon, dm_flows small_daemon, dm_ws small_daemon) =
    Some ((dm_state small_daemon)\<lparr>ds_counters := syn_counters\<rparr>, fl, [])"
proof -
  have fresh: "fst (observe key 0 flow_table_new)" for key
    using observe_fresh [OF ft_wf_new] by (simp add: ft_live_def flow_table_new_def hm_simps)
  have rules: "matching (state_rules (dm_state small_daemon)) Tcp 80 = [(port80_rule ''c'' Tcp Connections)\<lparr>r_limit := 0\<rparr>]"
    "matching (state_rules (dm_state small_daemon)) Withrottle 80 = []"
    by (simp_all add: matching_def matches_port_def state_rules_def small_daemon_def set_enforcer_def daemon_state_new_def
        small_live_def port80_rule_def)
  obtain ls where ls: "detect_withrottle_lines [] = Some ls" using detect_withrottle_total by blast
  have "detect_http_request [] = Some None" by (simp add: detect_http_request_def)
  then show ?thesis
    using fresh
    by (simp add: sniff_frame_def syn_dispatched dispatch_tcp_def Let_def rules ls l4_rule_def case_prod_beta match_ok_def)
      (simp add: small_daemon_def port80_rule_def set_enforcer_def daemon_state_new_def syn_counters_def hm_simps)
qed

lemma syn_reach: "\<exists>dm. daemon_reach small_host dm \<and> dm_state dm = (dm_state small_daemon)\<lparr>ds_counters := syn_counters\<rparr>"
proof -
  obtain fl where fl: "sniff_frame (hs_cel small_host) \<lparr>ut_epoch = 0, ut_hour = 0, ut_dow = 0\<rparr> 0 syn_frame
      (dm_state small_daemon, dm_flows small_daemon, dm_ws small_daemon) =
    Some ((dm_state small_daemon)\<lparr>ds_counters := syn_counters\<rparr>, fl, [])"
    using small_frame by blast
  have "dm_pending small_daemon = []" by (simp add: small_daemon_def)
  from reach_steps [OF frame_steps [OF this fl] small_reach] show ?thesis
    by (intro exI conjI) (assumption, simp)
qed

lemma syn_violates:
  assumes "dm_state dm = (dm_state small_daemon)\<lparr>ds_counters := syn_counters\<rparr>"
  shows "\<lparr>v_rule_id = ''c'', v_value = 1, v_limit = 0, v_action = ActBlock\<rparr>
    \<in> set (client_violations now (dm_state dm) (frame_client syn_frame))"
proof -
  let ?ops = "[RAdvance now, RAdd ''c'' Connections 1 now]"
  have snap: "snap (dm_state dm) = [(\<lparr>ck_client = frame_client syn_frame, ck_rule_id = ''c''\<rparr>, (0, 0, 1))]"
    by (simp add: assms snapshot_rules_def syn_counters_def add_connections_def cs_add_def counter_store_default_def
        hm_get_or_def hm_simps hm_insert_def Let_def)
  have st: "ds_last_counters (dm_state dm) = []" "ds_windows (dm_state dm) = []"
    by (simp_all add: assms small_daemon_def set_enforcer_def daemon_state_new_def)
  have win: "client_windows now (dm_state dm) (frame_client syn_frame) = rw_run ?ops"
    unfolding client_windows_def snap st
    by (simp add: rw_run_def add_deltas_def sat_sub_def hm_get_or_def hm_simps Let_def)
  have "log_sum (rule_log ''c'' ?ops) Connections (clamp_secs 1) = 1"
    by (simp add: rule_log_def rule_ops_def rule_op_step_def log_run_def log_advance_def log_sum_def
        duration_since_def dur_as_secs_def clamp_secs_def Let_def)
  then have "rw_sum (rw_run ?ops) ''c'' Connections 1 = 1" by (simp add: rw_run_sum)
  moreover have "rs_rules (state_rules (dm_state dm)) = [(port80_rule ''c'' Tcp Connections)\<lparr>r_limit := 0\<rparr>]"
    by (simp add: state_rules_def assms small_daemon_def set_enforcer_def daemon_state_new_def small_live_def)
  ultimately show ?thesis
    by (simp add: client_violations_def win evaluate_def map_filter_simps) (simp add: port80_rule_def map_filter_simps)
qed

section \<open>Properties of the whole daemon\<close>

text \<open>
  C3: in every state the daemon can reach, whatever frames, requests, edits and reloads arrive, in
  whatever order, and however the sniffer's updates of the counters interleave with them, every map has each key once, the rules in force are valid and have distinct ids,
  the flow table holds at most 8192 flows, and a permissive daemon has only the enforcer that
  records.
\<close>

theorem reachable_state_sound:
  assumes "daemon_reach h dm"
  shows "ds_wf (dm_state dm) \<and> length (ft_flows (dm_flows dm)) \<le> 8192 \<and>
     (ds_mode (dm_state dm) = Permissive \<longrightarrow> (\<exists>e. ds_enforcer (dm_state dm) = Some (EnfPermissive e)))"
  using reach_inv [OF assms] by (auto simp: daemon_inv_def ft_wf_def mode_ok_def)

theorem reachable_state_sound_witness:
  "\<exists>dm e. daemon_reach small_host dm \<and> ds_wf (dm_state dm) \<and> ds_enforcer (dm_state dm) = Some (EnfPermissive e)"
proof -
  have "ds_mode (dm_state small_daemon) = Permissive"
    by (simp add: small_daemon_def set_enforcer_def daemon_state_new_def)
  with reachable_state_sound [OF small_reach] small_reach show ?thesis by blast
qed

text \<open>
  C5: the data of a reachable state is in range. Every client's windows are rings of sixty buckets with the
  cursor inside, so that no index of the code is out of bounds; every automatic policy drops at most
  100 of 100 packets, and a blocking one all of them; and every rule in force has a metric and ports
  that fit its protocol and drops at most 100 of 100 packets.
\<close>

theorem reachable_data_in_range:
  assumes "daemon_reach h dm"
  shows "(\<forall>c. rw_wf (hm_get_or (ds_windows (dm_state dm)) c rw_default)) \<and>
     autos_typed (ds_policies (dm_state dm)) \<and> list_all valid_rule (rs_rules (state_rules (dm_state dm)))"
proof -
  have inv: "accounted (dm_state dm)" "rs_wf (state_rules (dm_state dm))"
    using reach_inv [OF assms] by (simp_all add: daemon_inv_def ds_wf_def)
  have "rw_wf (hm_get_or (ds_windows (dm_state dm)) c rw_default)" for c
    using inv(1) rw_wf_run unfolding accounted_def by metis
  then show ?thesis using inv(2) reach_typed [OF assms] by (auto simp: rs_wf_def list_all_iff)
qed

theorem reachable_data_in_range_witness:
  "\<exists>dm r. daemon_reach small_host dm \<and> r \<in> set (rs_rules (state_rules (dm_state dm))) \<and> valid_rule r \<and>
     rw_wf (hm_get_or (ds_windows (dm_state dm)) sample_client rw_default)"
proof -
  have "rs_rules (state_rules (dm_state small_daemon)) = [(port80_rule ''c'' Tcp Connections)\<lparr>r_limit := 0\<rparr>]"
    by (simp add: state_rules_def small_daemon_def set_enforcer_def daemon_state_new_def small_live_def)
  with reachable_data_in_range [OF small_reach] small_reach show ?thesis by (intro exI [of _ small_daemon]) auto
qed

text \<open>
  C39: the socket accepts peers under the allowlist that the daemon read when it started. Whatever happens then,
  the server's policy stays, even when a reload has given the daemon another \<open>allowUsers\<close>; root is always
  let in, and an empty list is not a refusal of everybody.
\<close>

theorem accept_policy_of_start:
  assumes "daemon_run h c now now_sys = Some (Inr dm0)" "(daemon_step h)\<^sup>*\<^sup>* dm0 dm"
    and "try_reload io (hs_yaml h) (hs_cel h) (dm_dir dm) (dm_state dm) = (st, dir)"
    and "live_load io (hs_yaml h) (hs_cel h) (dm_dir dm) = (Inr live, dir)"
  shows "allow_users st = dc_allow_users (lc_daemon live) \<and>
     sr_accept (dm_server (dm\<lparr>dm_state := st, dm_dir := dir\<rparr>)) =
       \<lparr>ac_auth = PeerUser (allow_users (dm_state dm0)) True False, ac_session = Persistent, ac_max_clients = None,
        ac_max_frame = hs_max_frame h\<rparr>"
proof -
  have "dm_server dm = dm_server dm0" using assms(2) by (induction rule: rtranclp_induct) (simp_all add: step_server)
  moreover have "allow_users st = dc_allow_users (lc_daemon live)"
    using assms(3,4) by (auto simp: try_reload_def swap_live_def allow_users_def daemon_cfg_def)
  ultimately show ?thesis using start_server [OF assms(1)] by simp
qed

theorem accept_policy_of_start_witness:
  "\<exists>dm st dir. daemon_reach small_host (dm\<lparr>dm_state := st, dm_dir := dir\<rparr>) \<and> allow_users st = [] \<and>
     au_allow_users (ac_auth (sr_accept (dm_server (dm\<lparr>dm_state := st, dm_dir := dir\<rparr>)))) = [''root'', ''bigfred'', ''bigfred-wizard'']"
proof -
  let ?dm = "small_daemon\<lparr>dm_dir := nobody_dir\<rparr>"
  have edit: "daemon_step small_host small_daemon ?dm" by (rule does_step [OF daemon_does.Edit])
  obtain st where st: "try_reload io_fine small_yaml (hs_cel small_host) nobody_dir (dm_state small_daemon) = (st, seeded nobody_dir)"
    by (simp add: try_reload_def nobody_load)
  have host: "hs_yaml small_host = small_yaml" by (simp add: small_host_def)
  have reload: "try_reload io_fine (hs_yaml small_host) (hs_cel small_host) (dm_dir ?dm) (dm_state ?dm) = (st, seeded nobody_dir)"
    using st by (simp add: host)
  have load: "live_load io_fine (hs_yaml small_host) (hs_cel small_host) (dm_dir ?dm) =
      (Inr (small_live\<lparr>lc_daemon := daemon_config_default\<lparr>dc_allow_users := []\<rparr>\<rparr>), seeded nobody_dir)"
    using nobody_load by (simp add: host)
  have "daemon_reach small_host (?dm\<lparr>dm_state := st, dm_dir := seeded nobody_dir\<rparr>)"
    by (rule daemon_reach.Step [OF daemon_reach.Step [OF small_reach edit] does_step [OF daemon_does.Reload [OF reload]]])
  moreover have "allow_users (dm_state small_daemon) = [''root'', ''bigfred'', ''bigfred-wizard'']"
    by (simp add: small_daemon_def allow_users_def daemon_cfg_def set_enforcer_def daemon_state_new_def small_live_def
        daemon_config_default_def)
  ultimately show ?thesis
    using accept_policy_of_start [OF small_run r_into_rtranclp [of "daemon_step small_host", OF edit] reload load]
    by (intro exI [of _ ?dm] exI [of _ st] exI [of _ "seeded nobody_dir"]) simp
qed

text \<open>
  C2: no traffic is lost or counted twice between the sniffer and the windows. In every reachable
  state a client's windows are what a sequence of additions and advances makes of empty ones, and
  for each rule and metric the additions sum up to the counter the last tick has seen, which
  is at most the counter now.
\<close>

theorem traffic_accounted_once:
  assumes "daemon_reach h dm"
  shows "\<exists>ops. hm_get_or (ds_windows (dm_state dm)) c rw_default = rw_run ops \<and>
     (\<forall>r m. rule_total r m ops = counter_of (ds_last_counters (dm_state dm)) c r m \<and>
        counter_of (ds_last_counters (dm_state dm)) c r m \<le> counter_of (cs_by_rule (ds_counters (dm_state dm))) c r m)"
  using reach_inv [OF assms] unfolding daemon_inv_def accounted_def snapshot_rules_def by blast

theorem traffic_accounted_once_witness:
  "\<exists>dm ops. daemon_reach small_host dm \<and> counter_of (cs_by_rule (ds_counters (dm_state dm))) (frame_client syn_frame) ''c'' Connections = 1 \<and>
     hm_get_or (ds_windows (dm_state dm)) (frame_client syn_frame) rw_default = rw_run ops"
proof -
  obtain dm where dm: "daemon_reach small_host dm" "dm_state dm = (dm_state small_daemon)\<lparr>ds_counters := syn_counters\<rparr>"
    using syn_reach by blast
  have "counter_of (cs_by_rule syn_counters) (frame_client syn_frame) ''c'' Connections = 1"
    by (simp add: counter_of_def syn_counters_def add_connections_def cs_add_def counter_store_default_def
        hm_get_or_def hm_simps Let_def)
  with dm traffic_accounted_once [OF dm(1), of "frame_client syn_frame"] show ?thesis
    by (intro exI [of _ dm]) auto
qed

text \<open>
  C1: in every reachable state, a violation the next tick finds for a client belongs to a rule in
  force, carries that rule's action, and its value exceeds the rule's limit and is backed by
  traffic counted for this very client under this very rule. No client is punished for another's
  traffic.
\<close>

theorem violation_justified:
  assumes "daemon_reach h dm" "v \<in> set (client_violations now (dm_state dm) c)"
  shows "\<exists>rule \<in> set (rs_rules (state_rules (dm_state dm))). v_rule_id v = r_id rule \<and> v_action v = r_action rule \<and>
     r_limit rule < v_value v \<and> v_value v \<le> counter_of (cs_by_rule (ds_counters (dm_state dm))) c (r_id rule) (r_metric rule)"
  using violation_counted [OF _ assms(2)] reach_inv [OF assms(1)] by (simp add: daemon_inv_def snapshot_rules_def)

theorem violation_justified_witness:
  "\<exists>dm rule. daemon_reach small_host dm \<and> rule \<in> set (rs_rules (state_rules (dm_state dm))) \<and>
     1 \<le> counter_of (cs_by_rule (ds_counters (dm_state dm))) (frame_client syn_frame) (r_id rule) (r_metric rule)"
proof -
  obtain dm where dm: "daemon_reach small_host dm" "dm_state dm = (dm_state small_daemon)\<lparr>ds_counters := syn_counters\<rparr>"
    using syn_reach by blast
  from violation_justified [OF dm(1) syn_violates [OF dm(2), of 0]] dm(1) show ?thesis by auto
qed

text \<open>
  C6: a client that violates a rule at a tick is punished at once at least as hard as the rule asks, blocked
  when it blocks and otherwise with at least its drop rate, and stays so, in its policy and in the enforcer,
  after every later event until the cooldown ends: frames, reloads, requests, and ticks that find no
  violation of the client or one that is punished as hard and as long. (A tick that finds only a weaker
  violation replaces the punishment.)
\<close>

theorem violation_punished:
  assumes "daemon_reach h dm" "daemon_does h (EvRound now) dm dm1" "c \<in> tick_clients (dm_state dm)"
    and "v \<in> set (client_violations now (dm_state dm) c)" "until = now + tick_cooldown (dm_state dm)"
    and "daemon_history h dm1 path" "undisturbed c (v_action v) until dm1 path"
    and "(ev, d) \<in> set ((EvRound now, dm1) # path)"
  shows "\<exists>p. hm_get (ds_policies (dm_state d)) c = Some p \<and>
     (\<forall>t < until. at_least (v_action v) (merge_policy p t)) \<and>
     (state_enforces (dm_state d) c \<longrightarrow> at_least (v_action v) (state_in_force (dm_state d) c))"
proof -
  have "rs_wf (state_rules (dm_state dm))" using reach_inv [OF assms(1)] by (simp add: daemon_inv_def ds_wf_def)
  then have valid: "valid_action (v_action v)"
    using evaluate_valid_action assms(4) by (auto simp: valid_action_def client_violations_def)
  have "punished c (v_action v) until (dm_state dm1)"
    using assms(4) by (intro violation_punishes [OF assms(2,3) _ _ valid]) (auto simp: assms(5))
  then have "punished c (v_action v) until (dm_state d)"
    using assms(8) punished_path [OF assms(6) _ valid assms(7)] by auto
  then obtain p w u where p: "hm_get (ds_policies (dm_state d)) c = Some p" "cp_auto p = Some (policy_of w u)" "until \<le> u"
    "action_rank (v_action v) \<le> action_rank (v_action w)"
    "state_enforces (dm_state d) c \<longrightarrow> at_least (v_action v) (state_in_force (dm_state d) c)"
    by (auto simp: punished_def)
  have "at_least (v_action v) (merge_policy p t)" if "t < until" for t
    using auto_at_least [OF p(2) _ p(4) valid, of t] that p(3) by simp
  with p(1,5) show ?thesis by blast
qed

lemma small_cooldown: "state_rules (dm_state dm) = state_rules (dm_state small_daemon) \<Longrightarrow>
    ds_live (dm_state dm) = ds_live (dm_state small_daemon) \<Longrightarrow> tick_cooldown (dm_state dm) = 30 * nanos_per_sec"
  by (simp add: tick_cooldown_def daemon_cfg_def small_daemon_def set_enforcer_def daemon_state_new_def small_live_def
      daemon_config_default_def dur_from_secs_def max_def word_le_nat_alt)

lemma round_live:
  assumes "daemon_does h (EvRound t) dm dm'"
  shows "ds_live (dm_state dm') = ds_live (dm_state dm)"
  using assms
proof (rule daemon_roundE)
  fix order later now_sys
  assume order: "distinct order" "set order = tick_clients (dm_state dm)"
    and "decision_round (hs_store h) t order later now_sys dm = Some dm'"
  then have "tick t order (dm_state dm) = Some (dm_state dm')" by (auto simp: decision_round_def Let_def)
  from tick_correct_lemma(2) [OF this order] show ?thesis by (simp add: agree_off_def)
qed

theorem violation_punished_witness:
  "\<exists>dm dm1 dm2. daemon_reach small_host dm \<and> daemon_does small_host (EvRound 0) dm dm1 \<and>
     daemon_does small_host (EvRound nanos_per_sec) dm1 dm2 \<and>
     state_in_force (dm_state dm1) (frame_client syn_frame) = EffBlock \<and>
     state_in_force (dm_state dm2) (frame_client syn_frame) = EffBlock"
proof -
  let ?c = "frame_client syn_frame" and ?v = "\<lparr>v_rule_id = ''c'', v_value = 1, v_limit = 0, v_action = ActBlock\<rparr>"
  obtain dm where dm: "daemon_reach small_host dm" "dm_state dm = (dm_state small_daemon)\<lparr>ds_counters := syn_counters\<rparr>"
    using syn_reach by blast
  have live: "ds_live (dm_state dm) = ds_live (dm_state small_daemon)" by (simp add: dm(2))
  then have cool: "tick_cooldown (dm_state dm) = 30 * nanos_per_sec" by (intro small_cooldown) (simp_all add: state_rules_def)
  obtain dm1 where dm1: "daemon_does small_host (EvRound 0) dm dm1"
    using round_possible [of 0 dm small_host] by (auto simp: cool instant_add_def instant_limit_def nanos_per_sec_def)
  have live1: "ds_live (dm_state dm1) = ds_live (dm_state small_daemon)" using round_live [OF dm1] live by simp
  then have cool1: "tick_cooldown (dm_state dm1) = 30 * nanos_per_sec" by (intro small_cooldown) (simp_all add: state_rules_def)
  obtain dm2 where dm2: "daemon_does small_host (EvRound nanos_per_sec) dm1 dm2"
    using round_possible [of nanos_per_sec dm1 small_host] by (auto simp: cool1 instant_add_def instant_limit_def nanos_per_sec_def)
  have rules: "rs_rules (state_rules (dm_state dm1)) = [(port80_rule ''c'' Tcp Connections)\<lparr>r_limit := 0\<rparr>]"
    using live1 by (simp add: state_rules_def small_daemon_def set_enforcer_def daemon_state_new_def small_live_def)
  have "\<forall>w \<in> set (client_violations nanos_per_sec (dm_state dm1) ?c). v_action w = ActBlock"
    by (auto simp: client_violations_def evaluate_member Let_def rules) (auto simp: port80_rule_def)
  then have calm: "undisturbed ?c (v_action ?v) (0 + tick_cooldown (dm_state dm)) dm1 [(EvRound nanos_per_sec, dm2)]"
    by (cases "client_violations nanos_per_sec (dm_state dm1) ?c") (auto simp: cool cool1 nanos_per_sec_def)
  have c: "?c \<in> tick_clients (dm_state dm)"
    by (simp add: dm(2) tick_clients_def snapshot_rules_def syn_counters_def add_connections_def cs_add_def counter_store_default_def
        hm_get_or_def hm_simps hm_insert_def hm_keys_def Let_def)
  have held: "state_enforces (dm_state d) ?c \<Longrightarrow> state_in_force (dm_state d) ?c = EffBlock"
    if "(ev, d) \<in> set ((EvRound 0, dm1) # [(EvRound nanos_per_sec, dm2)])" for ev d
    using violation_punished [OF dm(1) dm1 c syn_violates [OF dm(2)] refl _ calm that] dm2
    by (auto simp: at_least_def is_blocked_def)
  have "state_enforces (dm_state dm) ?c"
    by (simp add: dm(2) small_daemon_def set_enforcer_def state_enforces_def)
  then have "state_in_force (dm_state dm1) ?c = EffBlock" "state_in_force (dm_state dm2) ?c = EffBlock"
    using held [of "EvRound 0" dm1] held [of "EvRound nanos_per_sec" dm2] round_enforces [OF dm1] round_enforces [OF dm2] by simp_all
  with dm(1) dm1 dm2 show ?thesis by blast
qed




text \<open>The small host with a Redis server that answers.\<close>

definition redis_host :: "sample_server \<Rightarrow> (unit, unit, sample_server) host" where
  "redis_host r = small_host\<lparr>hs_connect := \<lambda>_. Inr r\<rparr>"

definition minute_block :: block_params where
  "minute_block = \<lparr>bp_client = client_to_ref sample_client, bp_duration_secs = Some 60\<rparr>"

definition stored_minute :: stored_manual_policy where
  "stored_minute = \<lparr>sp_throttle = None, sp_blocked = True, sp_until_unix_secs = Some 60\<rparr>"

definition minute_server :: "nat \<Rightarrow> sample_server" where
  "minute_server waited = [(KEY_SCHEMA, ''1'', None),
     (policy_key sample_client, js_print sample_json (enc_stored_policy stored_minute), Some (60 * nanos_per_sec - waited))]"

lemma minute_stored:
  "\<exists>st1. block_cmd sample_env 7 0 minute_block quiet_state (StRedis [(KEY_SCHEMA, ''1'', None)]) =
     Some (Inr (), st1, StRedis (minute_server 0))"
proof -
  have "from_runtime ((old_manual quiet_state sample_client)\<lparr>mp_blocked := True, mp_until := Some (7 + 60 * nanos_per_sec)\<rparr>) 7 0 =
      stored_minute"
    by (simp add: stored_minute_def from_runtime_def old_manual_def quiet_state_def daemon_state_new_def hm_simps duration_since_def
        client_policy_default_def no_manual_def dur_as_secs_def nanos_per_sec_def)
  moreover have "policy_key sample_client \<noteq> KEY_SCHEMA" by (auto simp: policy_key_def PREFIX_POLICY_def KEY_SCHEMA_def)
  moreover have "max (sat_sub 60 (unix_secs 0)) 1 = 60" by (simp add: unix_secs_def dur_as_secs_def sat_sub_def max_def word_le_nat_alt)
  ultimately show ?thesis
    by (simp add: block_cmd_def minute_block_def parse_client_to_ref until_of_def instant_add_def dur_from_secs_def
        instant_limit_def nanos_per_sec_def finish_def persist_manual_def backend_result_def redis_put_def sample_env_def
        sample_redis_def stored_minute_def redis_err_def minute_server_def hm_insert_def Let_def)
qed

definition minute_state :: "unit daemon_state \<Rightarrow> unit daemon_state" where
  "minute_state st = st\<lparr>ds_policies := hm_insert sample_client
     \<lparr>cp_manual = Some \<lparr>mp_throttle = None, mp_blocked = True, mp_until = Some (3 + 50 * nanos_per_sec)\<rparr>, cp_auto = None\<rparr>
     (ds_policies st)\<rparr>"

lemma minute_keys:
  "hm_get (minute_server w) KEY_SCHEMA = Some (''1'', None)"
  "hm_get (minute_server w) (policy_key sample_client) =
     Some (js_print sample_json (enc_stored_policy stored_minute), Some (60 * nanos_per_sec - w))"
  "rd_keys sample_redis (PREFIX_POLICY @ ''*'') (minute_server w) = Inr [policy_key sample_client]"
proof -
  have ne: "policy_key sample_client \<noteq> KEY_SCHEMA" by (auto simp: policy_key_def PREFIX_POLICY_def KEY_SCHEMA_def)
  show "hm_get (minute_server w) KEY_SCHEMA = Some (''1'', None)"
    "hm_get (minute_server w) (policy_key sample_client) =
     Some (js_print sample_json (enc_stored_policy stored_minute), Some (60 * nanos_per_sec - w))"
    using ne by (simp_all add: minute_server_def hm_simps)
  have "take (length PREFIX_POLICY) KEY_SCHEMA \<noteq> PREFIX_POLICY" by (simp add: PREFIX_POLICY_def KEY_SCHEMA_def)
  moreover note take_policy_key [of sample_client]
  ultimately show "rd_keys sample_redis (PREFIX_POLICY @ ''*'') (minute_server w) = Inr [policy_key sample_client]"
    by (simp add: sample_redis_def minute_server_def hm_keys_def)
qed

lemma minute_store:
  "open_store (redis_host (minute_server w)) url 3 (10 * int nanos_per_sec) st = Some (Inr (minute_state st, StRedis (minute_server w)))"
proof -
  have env: "se_redis (hs_store (redis_host (minute_server w))) = sample_redis" "se_json (hs_store (redis_host (minute_server w))) = sample_json"
    by (simp_all add: redis_host_def small_host_def sample_env_def)
  have get: "rd_get sample_redis k s = Inr (map_option fst (hm_get s k))" for k s by (simp add: sample_redis_def)
  have "from_str_radix 10 (2 ^ 32 - 1) ''1'' = Some 1" by (simp add: from_str_radix_def to_digit_def byte_of_def)
  then have "ensure_schema sample_redis (minute_server w) = (Inr (), minute_server w)"
    by (simp add: ensure_schema_def get minute_keys SCHEMA_VERSION_def Let_def)
  then have open_r: "open_redis (redis_host (minute_server w)) url = Inr (minute_server w)"
    by (simp add: open_redis_def redis_connect_def redis_host_def small_host_def sample_env_def)
  have parse: "js_parse sample_json (js_print sample_json j) = Some j" for j by (simp add: sample_json_def)
  have load: "redis_load_policies sample_redis sample_json (minute_server w) = Inr [(sample_client, stored_minute)]"
    unfolding redis_load_policies_def minute_keys(3) sum.case redis_load_keys.simps get minute_keys(2) option.map fst_conv option.case parse
      parse_client_policy_key dec_enc_stored_policy bind.bind_lunit ..
  have "to_runtime stored_minute 3 (10 * int nanos_per_sec) =
      Some \<lparr>mp_throttle = None, mp_blocked = True, mp_until = Some (3 + 50 * nanos_per_sec)\<rparr>"
    by (simp add: to_runtime_def stored_minute_def system_add_def instant_add_def instant_limit_def nanos_per_sec_def)
  then show ?thesis by (simp add: open_store_def open_r env load hydrate_def minute_state_def)
qed


text \<open>The value of an option: of the subcommand when it has one, else the global one.\<close>

definition option_of :: "(daemon_args \<Rightarrow> 'a option) \<Rightarrow> cli \<Rightarrow> 'a option" where
  "option_of opt c =
     (case cli_daemon c of
        Some d \<Rightarrow> (case opt d of Some x \<Rightarrow> Some x | None \<Rightarrow> opt (cli_args c))
      | None \<Rightarrow> opt (cli_args c))"

lemma effective_options:
  "da_interface (effective_args c) = option_of da_interface c" "da_redis_url (effective_args c) = option_of da_redis_url c"
  "da_config_dir (effective_args c) = option_of da_config_dir c" "da_mode (effective_args c) = option_of da_mode c"
  by (cases "cli_daemon c"; simp add: effective_args_def option_of_def or_else_def)+

text \<open>
  C40: every setting of a daemon that starts is the option of the subcommand, else the global option, else what
  the configuration says, else the default. So are its configuration directory (with the environment before the
  default), its run mode, its interface, which must exist or be \<open>any\<close>, and the Redis it opens, from which its
  policies come. A permissive daemon gets the enforcer that records, an enforcing one the BPF enforcer, or the
  recording one when BPF does not load; without Redis it starts with no policies.
\<close>

theorem startup_choices:
  assumes "daemon_run h c now now_sys = Some (Inr dm)"
  shows "\<exists>live d st. live_load (hs_io h) (hs_yaml h) (hs_cel h)
       (hs_dirs h (resolve_config_dir (hs_env h) (option_of da_config_dir c))) = (Inr live, d) \<and>
     ds_live (dm_state dm) = live \<and>
     ds_mode (dm_state dm) = (case option_of da_mode c of Some m \<Rightarrow> m | None \<Rightarrow> dc_mode (lc_daemon live)) \<and>
     ds_interface (dm_state dm) =
       (case option_of da_interface c of
          Some i \<Rightarrow> i
        | None \<Rightarrow> (case dc_interface (lc_daemon live) of Some i \<Rightarrow> i | None \<Rightarrow> ''any'')) \<and>
     (is_any (ds_interface (dm_state dm)) \<or> hs_index_of h (ds_interface (dm_state dm)) \<noteq> 0) \<and>
     open_store h (case option_of da_redis_url c of Some u \<Rightarrow> u | None \<Rightarrow> ''redis://127.0.0.1:6379/0'') now now_sys
         (daemon_state_new (ds_mode (dm_state dm)) (ds_interface (dm_state dm)) live) = Some (Inr (st, dm_store dm)) \<and>
     ds_policies (dm_state dm) = ds_policies st \<and>
     (\<forall>m. dm_store dm = StMemory m \<longrightarrow> ds_policies (dm_state dm) = []) \<and>
     (ds_mode (dm_state dm) = Permissive \<longrightarrow> ds_enforcer (dm_state dm) = Some (EnfPermissive \<lparr>pe_log = []\<rparr>)) \<and>
     (ds_mode (dm_state dm) = Enforce \<longrightarrow> ds_enforcer (dm_state dm) =
        Some (case load_and_attach h (ds_interface (dm_state dm)) of Inr b \<Rightarrow> EnfBpf b | Inl _ \<Rightarrow> EnfPermissive \<lparr>pe_log = []\<rparr>))"
  using assms
proof (rule daemon_run_started)
  fix live d st mode iface url
  assume load: "live_load (hs_io h) (hs_yaml h) (hs_cel h)
       (hs_dirs h (resolve_config_dir (hs_env h) (da_config_dir (effective_args c)))) = (Inr live, d)"
    and mode: "mode = (case da_mode (effective_args c) of Some m \<Rightarrow> m | None \<Rightarrow> dc_mode (lc_daemon live))"
    and iface: "iface = (case or_else (da_interface (effective_args c)) (dc_interface (lc_daemon live)) of Some i \<Rightarrow> i | None \<Rightarrow> ''any'')"
    and url: "url = (case da_redis_url (effective_args c) of Some u \<Rightarrow> u | None \<Rightarrow> ''redis://127.0.0.1:6379/0'')"
    and ens: "ensure_exists (hs_index_of h) iface = Inr ()"
    and store: "open_store h url now now_sys (daemon_state_new mode iface live) = Some (Inr (st, dm_store dm))"
    and dm: "dm_state dm = set_enforcer (choose_enforcer h mode iface) st"
  have new: "ds_wf (daemon_state_new mode iface live)" by (rule ds_wf_new [OF live_load_rules [OF load]])
  obtain pol where st: "st = (daemon_state_new mode iface live)\<lparr>ds_policies := pol\<rparr>"
    using open_store_state [OF store new] by blast
  have dmst: "ds_mode (dm_state dm) = mode" "ds_live (dm_state dm) = live" "ds_interface (dm_state dm) = iface"
    "ds_enforcer (dm_state dm) = Some (choose_enforcer h mode iface)" "ds_policies (dm_state dm) = ds_policies st"
    by (simp_all add: dm set_enforcer_def st daemon_state_new_def)
  have opts: "mode = (case option_of da_mode c of Some m \<Rightarrow> m | None \<Rightarrow> dc_mode (lc_daemon live))"
    "iface = (case option_of da_interface c of Some i \<Rightarrow> i
       | None \<Rightarrow> (case dc_interface (lc_daemon live) of Some i \<Rightarrow> i | None \<Rightarrow> ''any''))"
    by (simp_all add: mode iface effective_options or_else_def split: option.splits)
  have "is_any iface \<or> hs_index_of h iface \<noteq> 0"
    using ens by (auto simp: ensure_exists_def ifindex_def Let_def split: if_splits sum.splits)
  moreover have "dm_store dm = StMemory m \<Longrightarrow> ds_policies st = []" for m
    using store by (auto simp: open_store_def daemon_state_new_def split: sum.splits option.splits)
  moreover note load [unfolded effective_options] store [unfolded url effective_options]
  ultimately show ?thesis unfolding dmst using opts
    by (intro exI [of _ live] exI [of _ d] exI [of _ st]) (simp add: choose_enforcer_def)
qed

theorem startup_choices_witness:
  "daemon_run small_host small_cli 0 0 = Some (Inr small_daemon) \<and>
   da_mode (cli_args small_cli) = Some Enforce \<and> option_of da_mode small_cli = Some Permissive \<and>
   ds_mode (dm_state small_daemon) = Permissive \<and> ds_interface (dm_state small_daemon) = ''any'' \<and>
   ds_enforcer (dm_state small_daemon) = Some (EnfPermissive \<lparr>pe_log = []\<rparr>)"
proof -
  have opt: "option_of da_mode small_cli = Some Permissive" "option_of da_interface small_cli = None"
    "da_mode (cli_args small_cli) = Some Enforce"
    by (simp_all add: option_of_def small_cli_def)
  have iface: "dc_interface (lc_daemon (ds_live (dm_state small_daemon))) = Some ''any''"
    by (simp add: small_daemon_def set_enforcer_def daemon_state_new_def small_live_def daemon_config_default_def)
  show ?thesis using startup_choices [OF small_run] small_run iface by (auto simp: opt)
qed

end
